(* ===== verification/Prelude.thy ===== *)
theory Prelude
  imports Complex_Main "HOL-Library.Word"
begin

text \<open>
  Shared vocabulary of the development: the byte and integer types of the C program, the
  outcome of a computation that may fail or not return, bounds-checked array access, and
  the generic lemmas the component theories rely on.

  \<^item> A \<^emph>\<open>result\<close> is \<open>Inr v\<close> for a normal return and \<open>Inl e\<close> for an abnormal end of the
    process: a call of \<open>exit\<close>, or an access the C standard leaves undefined (an index
    outside an array, a null or freed pointer, a bad free).
  \<^item> A \<^emph>\<open>prog\<close> is the \<open>option\<close> of a result; \<open>None\<close> means that the code does not return.
\<close>

unbundle bit_operations_syntax

section \<open>Types\<close>

type_synonym byte = "8 word"
type_synonym u16 = "16 word"
type_synonym u32 = "32 word"

type_synonym cstring = "byte list"
  \<comment> \<open>the bytes of a C string up to, and without, the terminating zero\<close>

datatype error =
    OutOfBounds     \<comment> \<open>read or write outside an object\<close>
  | NullDeref       \<comment> \<open>dereference of a null pointer\<close>
  | UseAfterFree    \<comment> \<open>dereference of memory already given to \<open>free\<close>\<close>
  | InvalidFree     \<comment> \<open>\<open>free\<close> of a pointer that is not the start of a live block\<close>
  | DivByZero       \<comment> \<open>integer division or remainder by zero\<close>
  | BadConversion   \<comment> \<open>floating point value outside the range of \<open>int\<close>\<close>
  | SelfDeadlock    \<comment> \<open>locking a lock the thread already holds\<close>
  | BadUnlock       \<comment> \<open>unlocking a lock nobody holds\<close>
  | BadArgument     \<comment> \<open>a library function called with an argument it does not allow\<close>
  | Exit int        \<comment> \<open>\<open>exit (status)\<close>\<close>

type_synonym 'a result = "error + 'a"
type_synonym 'a prog = "'a result option"

section \<open>Sequencing\<close>

fun bindE :: "'a result \<Rightarrow> ('a \<Rightarrow> 'b result) \<Rightarrow> 'b result" where
  "bindE (Inl e) f = Inl e"
| "bindE (Inr x) f = f x"

definition bindP :: "'a prog \<Rightarrow> ('a \<Rightarrow> 'b prog) \<Rightarrow> 'b prog" where
  "bindP m f = Option.bind m (\<lambda>r. case r of Inl e \<Rightarrow> Some (Inl e) | Inr x \<Rightarrow> f x)"

section \<open>Arrays\<close>

definition arr_get :: "'a list \<Rightarrow> int \<Rightarrow> 'a result" where
  "arr_get xs i = (if 0 \<le> i \<and> i < int (length xs) then Inr (xs ! nat i) else Inl OutOfBounds)"

definition arr_set :: "'a list \<Rightarrow> int \<Rightarrow> 'a \<Rightarrow> 'a list result" where
  "arr_set xs i v =
     (if 0 \<le> i \<and> i < int (length xs) then Inr (xs[nat i := v]) else Inl OutOfBounds)"

section \<open>Integers of the target\<close>

text \<open>The value of a \<open>short\<close> after an assignment, and \<open>size_t\<close> arithmetic modulo \<open>2 ^ 64\<close>.\<close>

definition to_short :: "int \<Rightarrow> int" where
  "to_short x = (x + 32768) mod 65536 - 32768"

definition size_add :: "nat \<Rightarrow> nat \<Rightarrow> nat" where
  "size_add a b = (a + b) mod 2 ^ 64"

definition size_sub :: "nat \<Rightarrow> nat \<Rightarrow> nat" where
  "size_sub a b = nat ((int a - int b) mod 2 ^ 64)"

text \<open>Reading a C string out of a buffer.\<close>

definition c_str :: "byte list \<Rightarrow> cstring" where
  "c_str buf = takeWhile (\<lambda>b. b \<noteq> 0) buf"

section \<open>Lemmas on results\<close>

named_theorems outcome \<comment> \<open>facts about the outcome of library operations\<close>

lemma bindE_Inr_iff: "bindE m f = Inr y \<longleftrightarrow> (\<exists>x. m = Inr x \<and> f x = Inr y)"
  by (cases m) auto

lemma bindE_assoc [simp]: "bindE (bindE m f) g = bindE m (\<lambda>x. bindE (f x) g)"
  by (cases m) auto

lemma bindP_simps [simp]:
  "bindP None f = None"
  "bindP (Some (Inl e)) f = Some (Inl e)"
  "bindP (Some (Inr x)) f = f x"
  by (simp_all add: bindP_def)

lemma bindP_Inr_iff: "bindP m f = Some (Inr y) \<longleftrightarrow> (\<exists>x. m = Some (Inr x) \<and> f x = Some (Inr y))"
  by (cases m; cases "the m") auto

lemma bindP_mono [partial_function_mono]:
  assumes "mono_option B" and "\<And>y. mono_option (\<lambda>f. C y f)"
  shows "mono_option (\<lambda>f. bindP (B f) (\<lambda>y. C y f))"
  unfolding bindP_def
proof (rule bind_mono [OF assms(1)])
  fix y :: "'c result"
  show "mono_option (\<lambda>f. case y of Inl e \<Rightarrow> Some (Inl e) | Inr x \<Rightarrow> C x f)"
    by (cases y) (simp_all add: assms(2) option.const_mono)
qed

section \<open>Lemmas on arrays\<close>

lemma arr_get_nat [simp]: "i < length xs \<Longrightarrow> arr_get xs (int i) = Inr (xs ! i)"
  by (simp add: arr_get_def)

lemma arr_get_in [simp]:
  "0 \<le> i \<Longrightarrow> i < int (length xs) \<Longrightarrow> arr_get xs i = Inr (xs ! nat i)"
  by (simp add: arr_get_def)

lemma arr_get_InrD: "arr_get xs i = Inr x \<Longrightarrow> 0 \<le> i \<and> nat i < length xs \<and> x = xs ! nat i"
  by (auto simp: arr_get_def split: if_splits)

lemma arr_set_in [simp]:
  "0 \<le> i \<Longrightarrow> i < int (length xs) \<Longrightarrow> arr_set xs i v = Inr (xs[nat i := v])"
  by (simp add: arr_set_def)

lemma arr_set_InrD:
  "arr_set xs i v = Inr ys \<Longrightarrow> 0 \<le> i \<and> nat i < length xs \<and> ys = xs[nat i := v]"
  by (auto simp: arr_set_def split: if_splits)

lemma nat_eq_iff_pos: "0 \<le> i \<Longrightarrow> 0 \<le> j \<Longrightarrow> nat i = nat j \<longleftrightarrow> i = j" for i j :: int
  by auto

section \<open>Lemmas on integers and strings\<close>

lemma to_short_id [simp]: "- 32768 \<le> x \<Longrightarrow> x < 32768 \<Longrightarrow> to_short x = x"
  by (simp add: to_short_def)

lemma to_short_range: "- 32768 \<le> to_short x \<and> to_short x < 32768"
  by (simp add: to_short_def)

lemma size_add_id [simp]: "a + b < 2 ^ 64 \<Longrightarrow> size_add a b = a + b"
  by (simp add: size_add_def)

lemma size_sub_id [simp]: "b \<le> a \<Longrightarrow> a < 2 ^ 64 \<Longrightarrow> size_sub a b = a - b"
  by (simp add: size_sub_def nat_diff_distrib)

lemma size_sub_wrap: "a < b \<Longrightarrow> b \<le> 2 ^ 64 \<Longrightarrow> size_sub a b = 2 ^ 64 + a - b"
proof -
  assume "a < b" "b \<le> 2 ^ 64"
  then have "(int a - int b) mod 2 ^ 64 = (int a - int b + 2 ^ 64) mod 2 ^ 64"
    by simp
  also have "\<dots> = int a - int b + 2 ^ 64"
    using \<open>a < b\<close> \<open>b \<le> 2 ^ 64\<close> by (intro mod_pos_pos_trivial) auto
  finally show ?thesis
    using \<open>b \<le> 2 ^ 64\<close> by (simp add: size_sub_def nat_diff_distrib nat_add_distrib)
qed

lemma c_str_append_zero [simp]: "0 \<notin> set s \<Longrightarrow> c_str (s @ 0 # rest) = s"
  unfolding c_str_def by (subst takeWhile_append2) auto

lemma c_str_no_zero: "0 \<notin> set (c_str buf)"
  by (auto simp: c_str_def dest: set_takeWhileD)

end
