(* ===== verification/HashTable.thy ===== *)
theory HashTable
  imports Prelude
begin

text \<open>
  The chained hash table of \<open>src/src/hash.c\<close> and \<open>src/include/hash.h\<close>.

  A bucket is the head node embedded in the array \<open>nodes\<close> (its own \<open>record\<close> field stays
  null) followed by the nodes reached through \<open>next\<close>, kept as a list of their \<open>record\<close>
  pointers. A node pointer is the pair of the bucket number and the position in the
  bucket, 0 being the head node. The comparison callback reads the client's memory, so it
  is an argument of the operations: its value in the memory at the time of the call.

  The theory states the table's contract as the locale \<open>keyed_index\<close> and interprets it on
  the translated operations.
\<close>

section \<open>Model\<close>

record 'r hashbucket =
  head_record :: "'r option"
  chain :: "'r option list"

type_synonym hashnode_ptr = "nat \<times> nat"

record ('k, 'r) hashtable =
  ht_nodes :: "'r hashbucket list"
  ht_filling_factor :: rat
  ht_hash :: "'k \<Rightarrow> u32"
  ht_size :: int

type_synonym ('k, 'r) compare = "'r option \<Rightarrow> 'k \<Rightarrow> bool result"

subsection \<open>Table size\<close>

text \<open>\<open>ceil (sqrt (n))\<close> on non-negative integers.\<close>

function ceil_sqrt_from :: "int \<Rightarrow> int \<Rightarrow> int" where
  "ceil_sqrt_from k n = (if n \<le> k * k then k else ceil_sqrt_from (k + 1) n)"
  by pat_completeness auto
termination
proof (relation "measure (\<lambda>(k, n). nat (n - k))", goal_cases)
  case (2 k n)
  have "k \<le> k * k"
    by (cases "k \<le> 0") (auto simp: mult_le_cancel_left1 intro: order_trans [of k 0])
  with 2 show ?case by auto
qed simp

declare ceil_sqrt_from.simps [simp del]

definition ceil_sqrt :: "int \<Rightarrow> int" where
  "ceil_sqrt n = ceil_sqrt_from 0 n"

text \<open>The inner \<open>for\<close> loop: its body ends in an unconditional \<open>break\<close>.\<close>

definition trial_flag :: "int \<Rightarrow> bool" where
  "trial_flag n = (let sqrt_n = ceil_sqrt n; i = 2 in i \<le> sqrt_n \<and> n mod i = 0)"

lemma trial_flag_even: "trial_flag n \<Longrightarrow> even n"
  by (auto simp: trial_flag_def Let_def)

lemma trial_flag_ge2: "trial_flag n \<Longrightarrow> 2 \<le> n"
proof (rule ccontr)
  assume "trial_flag n" and "\<not> 2 \<le> n"
  then have "even n" "n \<le> 1" by (auto dest: trial_flag_even)
  then have "n \<le> 0" by (cases "n = 1") auto
  then have "ceil_sqrt n = 0" by (simp add: ceil_sqrt_def ceil_sqrt_from.simps)
  with \<open>trial_flag n\<close> show False by (simp add: trial_flag_def)
qed

function find_smallest_prime :: "int \<Rightarrow> int result" where
  "find_smallest_prime n =
     (if n < 0 then Inl BadConversion
      else if n = 1 then find_smallest_prime (n + 1)
      else if \<not> trial_flag n then Inr n
      else find_smallest_prime (n + 1))"
  by pat_completeness auto
termination
  by (relation "measure (\<lambda>n. if n = 1 then 2 else if even n then 1 else 0)")
    (auto dest: trial_flag_even trial_flag_ge2)

declare find_smallest_prime.simps [simp del]

text \<open>Conversion of a \<open>double\<close> to \<open>int\<close>: truncation, undefined outside the range.\<close>

definition double_to_int :: "rat \<Rightarrow> int result" where
  "double_to_int q =
     (if - (2 ^ 31) - 1 < q \<and> q < 2 ^ 31
      then Inr (if 0 \<le> q then \<lfloor>q\<rfloor> else \<lceil>q\<rceil>) else Inl BadConversion)"

definition init_hashtable ::
  "('k, 'r) hashtable \<Rightarrow> int \<Rightarrow> rat \<Rightarrow> ('k \<Rightarrow> u32) \<Rightarrow> (bool \<times> ('k, 'r) hashtable) result" where
  "init_hashtable table sz filling_factor hash =
     (if filling_factor = 0 then Inl BadConversion
      else bindE (double_to_int (of_int sz / filling_factor)) (\<lambda>sz'.
        if filling_factor \<le> 0 \<or> filling_factor > 1 then Inr (False, table)
        else bindE (find_smallest_prime sz') (\<lambda>p.
          Inr (True, \<lparr>ht_nodes = replicate (nat p) \<lparr>head_record = None, chain = []\<rparr>,
                      ht_filling_factor = filling_factor, ht_hash = hash, ht_size = p\<rparr>))))"

subsection \<open>Lookup, insertion, removal\<close>

definition hash_pos :: "('k, 'r) hashtable \<Rightarrow> 'k \<Rightarrow> nat" where
  "hash_pos table label = unat (ht_hash table label mod word_of_int (ht_size table))"

fun chain_find :: "('k, 'r) compare \<Rightarrow> 'k \<Rightarrow> 'r option list \<Rightarrow> nat \<Rightarrow> (nat \<times> bool) result" where
  "chain_find compare label [] k = Inr (k, False)"
| "chain_find compare label (r # rs) k =
     bindE (compare r label) (\<lambda>eq.
       if eq then Inr (Suc k, True) else chain_find compare label rs (Suc k))"

definition get_hashnode ::
  "('k, 'r) compare \<Rightarrow> ('k, 'r) hashtable \<Rightarrow> 'k \<Rightarrow> (hashnode_ptr \<times> bool) result" where
  "get_hashnode compare table label =
     (if word_of_int (ht_size table) = (0 :: u32) then Inl DivByZero
      else let pos = hash_pos table label in
        bindE (arr_get (ht_nodes table) (int pos)) (\<lambda>node.
          if head_record node \<noteq> None then Inl (Exit 0)
          else bindE (chain_find compare label (chain node) 0) (\<lambda>(k, is_find).
            Inr ((pos, k), is_find))))"

fun chain_remove ::
  "('k, 'r) compare \<Rightarrow> 'k \<Rightarrow> 'r option list \<Rightarrow> (bool \<times> 'r option list) result" where
  "chain_remove compare label [] = Inr (False, [])"
| "chain_remove compare label (r # rs) =
     bindE (compare r label) (\<lambda>eq.
       if eq then Inr (True, rs)
       else bindE (chain_remove compare label rs) (\<lambda>(ok, rs'). Inr (ok, r # rs')))"

definition reset_hash_node ::
  "('k, 'r) compare \<Rightarrow> ('k, 'r) hashtable \<Rightarrow> 'k \<Rightarrow> (bool \<times> ('k, 'r) hashtable) result" where
  "reset_hash_node compare table label =
     (if word_of_int (ht_size table) = (0 :: u32) then Inl DivByZero
      else let pos = hash_pos table label in
        bindE (arr_get (ht_nodes table) (int pos)) (\<lambda>node.
          bindE (chain_remove compare label (chain node)) (\<lambda>(ok, rs).
            Inr (ok, table\<lparr>ht_nodes := (ht_nodes table)[pos := node\<lparr>chain := rs\<rparr>]\<rparr>))))"

text \<open>The field \<open>node->record\<close>, read and written through a node pointer.\<close>

definition node_record :: "('k, 'r) hashtable \<Rightarrow> hashnode_ptr \<Rightarrow> 'r option result" where
  "node_record table node =
     bindE (arr_get (ht_nodes table) (int (fst node))) (\<lambda>b.
       case snd node of 0 \<Rightarrow> Inr (head_record b) | Suc k \<Rightarrow> arr_get (chain b) (int k))"

definition set_node_record ::
  "('k, 'r) hashtable \<Rightarrow> hashnode_ptr \<Rightarrow> 'r option \<Rightarrow> ('k, 'r) hashtable result" where
  "set_node_record table node r =
     bindE (arr_get (ht_nodes table) (int (fst node))) (\<lambda>b.
       bindE (case snd node of
                0 \<Rightarrow> Inr (b\<lparr>head_record := r\<rparr>)
              | Suc k \<Rightarrow> bindE (arr_set (chain b) (int k) r) (\<lambda>rs. Inr (b\<lparr>chain := rs\<rparr>)))
         (\<lambda>b'. Inr (table\<lparr>ht_nodes := (ht_nodes table)[fst node := b']\<rparr>)))"

definition set_hashnode ::
  "('k, 'r) compare \<Rightarrow> ('k, 'r) hashtable \<Rightarrow> 'k \<Rightarrow> 'r option
     \<Rightarrow> ((hashnode_ptr \<times> bool) \<times> ('k, 'r) hashtable) result" where
  "set_hashnode compare table label record =
     bindE (get_hashnode compare table label) (\<lambda>(node, is_find).
       if is_find then
         (if record \<noteq> None
          then bindE (set_node_record table node record) (\<lambda>table'. Inr ((node, True), table'))
          else Inr ((node, True), table))
       else
         bindE (arr_get (ht_nodes table) (int (fst node))) (\<lambda>b.
           Inr (((fst node, Suc (snd node)), False),
                table\<lparr>ht_nodes := (ht_nodes table)[fst node := b\<lparr>chain := chain b @ [record]\<rparr>]\<rparr>)))"

text \<open>\<open>free_hashtable\<close> gives the array of head nodes back; the nodes chained behind them leak.\<close>

definition free_hashtable :: "('k, 'r) hashtable \<Rightarrow> ('k, 'r) hashtable" where
  "free_hashtable table = table\<lparr>ht_nodes := []\<rparr>"

text \<open>
  The two ways the clients use the table: looking up the record behind a label (the
  function \<open>get\<close> of \<open>cache.c\<close>), and entering a label with a null record whose node is
  filled in afterwards (\<open>push_front\<close>).
\<close>

definition find_record ::
  "('k, 'r) compare \<Rightarrow> ('k, 'r) hashtable \<Rightarrow> 'k \<Rightarrow> 'r option result" where
  "find_record compare table label =
     bindE (get_hashnode compare table label) (\<lambda>(tmp, is_find).
       if is_find then node_record table tmp else Inr None)"

definition enter_record ::
  "('k, 'r) compare \<Rightarrow> ('k, 'r) hashtable \<Rightarrow> 'k \<Rightarrow> 'r \<Rightarrow> ('k, 'r) hashtable result" where
  "enter_record compare table label r =
     bindE (set_hashnode compare table label None) (\<lambda>((node, is_find), table').
       set_node_record table' node (Some r))"

section \<open>The contract of a keyed index\<close>

text \<open>
  \<open>agrees compare key S\<close>: on the records of \<open>S\<close> the callback decides equality of the
  record's key with the label it is given.
\<close>

definition agrees :: "('k, 'r) compare \<Rightarrow> ('r \<Rightarrow> 'k) \<Rightarrow> 'r set \<Rightarrow> bool" where
  "agrees compare key S \<longleftrightarrow> (\<forall>r\<in>S. \<forall>k. compare (Some r) k = Inr (key r = k))"

locale keyed_index =
  fixes invar :: "('r \<Rightarrow> 'k) \<Rightarrow> 'r set \<Rightarrow> 't \<Rightarrow> bool"
    and lookup :: "('k, 'r) compare \<Rightarrow> 't \<Rightarrow> 'k \<Rightarrow> 'r option result"
    and enter :: "('k, 'r) compare \<Rightarrow> 't \<Rightarrow> 'k \<Rightarrow> 'r \<Rightarrow> 't result"
    and remove :: "('k, 'r) compare \<Rightarrow> 't \<Rightarrow> 'k \<Rightarrow> (bool \<times> 't) result"
  assumes invar_inj: "invar key S t \<Longrightarrow> inj_on key S"
    and invar_key: "invar key S t \<Longrightarrow> (\<And>r. r \<in> S \<Longrightarrow> key' r = key r) \<Longrightarrow> invar key' S t"
    and lookup_hit: "invar key S t \<Longrightarrow> agrees cmp key S \<Longrightarrow> r \<in> S
       \<Longrightarrow> lookup cmp t (key r) = Inr (Some r)"
    and lookup_miss: "invar key S t \<Longrightarrow> agrees cmp key S \<Longrightarrow> k \<notin> key ` S
       \<Longrightarrow> lookup cmp t k = Inr None"
    and enter_new: "invar key S t \<Longrightarrow> agrees cmp key S \<Longrightarrow> k \<notin> key ` S \<Longrightarrow> r \<notin> S
       \<Longrightarrow> \<exists>t'. enter cmp t k r = Inr t' \<and> invar (key(r := k)) (insert r S) t'"
    and remove_hit: "invar key S t \<Longrightarrow> agrees cmp key S \<Longrightarrow> r \<in> S
       \<Longrightarrow> \<exists>t'. remove cmp t (key r) = Inr (True, t') \<and> invar key (S - {r}) t'"
    and remove_miss: "invar key S t \<Longrightarrow> agrees cmp key S \<Longrightarrow> k \<notin> key ` S
       \<Longrightarrow> remove cmp t k = Inr (False, t)"
begin

lemma lookup_iff:
  assumes "invar key S t" and "agrees cmp key S"
  shows "lookup cmp t k = Inr (Some r) \<longleftrightarrow> r \<in> S \<and> key r = k"
proof (cases "k \<in> key ` S")
  case True
  then obtain s where s: "s \<in> S" "k = key s" by auto
  then have "lookup cmp t k = Inr (Some s)"
    using assms lookup_hit by simp
  with s show ?thesis
    using invar_inj [OF assms(1)] by (auto dest: inj_onD)
next
  case False
  then show ?thesis using assms by (auto simp: lookup_miss)
qed

lemma lookup_after_enter:
  assumes inv: "invar key S t" and "agrees cmp key S" and "k \<notin> key ` S" and "r \<notin> S"
    and t': "enter cmp t k r = Inr t'" and "agrees cmp' (key(r := k)) (insert r S)"
  shows "lookup cmp' t' k = Inr (Some r)"
    and "s \<in> S \<Longrightarrow> lookup cmp' t' (key s) = Inr (Some s)"
    and "k' \<notin> key ` S \<Longrightarrow> k' \<noteq> k \<Longrightarrow> lookup cmp' t' k' = Inr None"
proof -
  have inv': "invar (key(r := k)) (insert r S) t'"
    using enter_new [OF assms(1-4)] t' by auto
  show "lookup cmp' t' k = Inr (Some r)"
    using lookup_hit [OF inv' assms(6), of r] by simp
  show "s \<in> S \<Longrightarrow> lookup cmp' t' (key s) = Inr (Some s)"
    using lookup_hit [OF inv' assms(6), of s] assms(4) by (auto split: if_splits)
  show "k' \<notin> key ` S \<Longrightarrow> k' \<noteq> k \<Longrightarrow> lookup cmp' t' k' = Inr None"
    by (rule lookup_miss [OF inv' assms(6)]) (use assms(4) in auto)
qed

lemma lookup_after_remove:
  assumes inv: "invar key S t" and cmp: "agrees cmp key S" and r: "r \<in> S"
    and t': "remove cmp t (key r) = Inr (b, t')"
  shows "lookup cmp t' (key r) = Inr None"
    and "s \<in> S \<Longrightarrow> s \<noteq> r \<Longrightarrow> lookup cmp t' (key s) = Inr (Some s)"
proof -
  have inv': "invar key (S - {r}) t'" and cmp': "agrees cmp key (S - {r})"
    using remove_hit [OF inv cmp r] t' cmp by (auto simp: agrees_def)
  show "lookup cmp t' (key r) = Inr None"
    by (rule lookup_miss [OF inv' cmp']) (use invar_inj [OF inv] r in \<open>auto dest: inj_onD\<close>)
  show "s \<in> S \<Longrightarrow> s \<noteq> r \<Longrightarrow> lookup cmp t' (key s) = Inr (Some s)"
    using lookup_hit [OF inv' cmp', of s] by simp
qed

end

section \<open>The table keeps the contract\<close>

definition bucket_ok ::
  "('k, 'r) hashtable \<Rightarrow> ('r \<Rightarrow> 'k) \<Rightarrow> 'r set \<Rightarrow> nat \<Rightarrow> 'r hashbucket \<Rightarrow> bool" where
  "bucket_ok t key S p b \<longleftrightarrow> head_record b = None \<and>
     (\<exists>rs. chain b = map Some rs \<and> distinct rs \<and> set rs = {r \<in> S. hash_pos t (key r) = p})"

definition ht_invar :: "('r \<Rightarrow> 'k) \<Rightarrow> 'r set \<Rightarrow> ('k, 'r) hashtable \<Rightarrow> bool" where
  "ht_invar key S t \<longleftrightarrow>
     0 < ht_size t \<and> ht_size t < 2 ^ 31 \<and> int (length (ht_nodes t)) = ht_size t
     \<and> inj_on key S \<and> (\<forall>p < length (ht_nodes t). bucket_ok t key S p (ht_nodes t ! p))"

lemma agrees_subset: "agrees cmp key S \<Longrightarrow> T \<subseteq> S \<Longrightarrow> agrees cmp key T"
  by (auto simp: agrees_def)

lemma unat_word_of_size: "0 < s \<Longrightarrow> s < 2 ^ 31 \<Longrightarrow> unat (word_of_int s :: u32) = nat s"
  by (simp add: unat_eq_nat_uint uint_word_of_int)

lemma hash_pos_less:
  assumes "0 < ht_size t" "ht_size t < 2 ^ 31"
  shows "hash_pos t k < nat (ht_size t)"
  using assms by (simp add: hash_pos_def unat_mod unat_word_of_size)

lemma hash_pos_nodes [simp]: "hash_pos (t\<lparr>ht_nodes := ns\<rparr>) = hash_pos t"
  by (rule ext) (simp add: hash_pos_def)

lemma ht_invarD:
  assumes "ht_invar key S t"
  shows "word_of_int (ht_size t) \<noteq> (0 :: u32)"
    and "hash_pos t k < length (ht_nodes t)"
    and "bucket_ok t key S (hash_pos t k) (ht_nodes t ! hash_pos t k)"
    and "inj_on key S"
proof -
  have s: "0 < ht_size t" "ht_size t < 2 ^ 31" "int (length (ht_nodes t)) = ht_size t"
    using assms by (auto simp: ht_invar_def)
  show "word_of_int (ht_size t) \<noteq> (0 :: u32)"
    using unat_word_of_size [OF s(1,2)] s(1) by auto
  show pos: "hash_pos t k < length (ht_nodes t)"
    using hash_pos_less [OF s(1,2), of k] s(3) by linarith
  show "bucket_ok t key S (hash_pos t k) (ht_nodes t ! hash_pos t k)" "inj_on key S"
    using assms pos by (auto simp: ht_invar_def)
qed

lemma chain_find_miss:
  "(\<And>r. r \<in> set rs \<Longrightarrow> cmp (Some r) k = Inr False)
     \<Longrightarrow> chain_find cmp k (map Some rs) i = Inr (i + length rs, False)"
  by (induction rs arbitrary: i) auto

lemma chain_find_hit:
  "(\<And>s. s \<in> set rs \<Longrightarrow> cmp (Some s) k = Inr False) \<Longrightarrow> cmp (Some r) k = Inr True
     \<Longrightarrow> chain_find cmp k (map Some rs @ Some r # rest) i = Inr (Suc (i + length rs), True)"
  by (induction rs arbitrary: i) auto

lemma chain_remove_miss:
  "(\<And>r. r \<in> set rs \<Longrightarrow> cmp (Some r) k = Inr False)
     \<Longrightarrow> chain_remove cmp k (map Some rs) = Inr (False, map Some rs)"
  by (induction rs) auto

lemma chain_remove_hit:
  "(\<And>s. s \<in> set rs \<Longrightarrow> cmp (Some s) k = Inr False) \<Longrightarrow> cmp (Some r) k = Inr True
     \<Longrightarrow> chain_remove cmp k (map Some rs @ Some r # rest) = Inr (True, map Some rs @ rest)"
  by (induction rs) auto

text \<open>The bucket of a label that is present splits around the record it belongs to.\<close>

lemma bucket_split:
  assumes "ht_invar key S t" and "agrees cmp key S" and "r \<in> S"
  obtains xs ys where "chain (ht_nodes t ! hash_pos t (key r)) = map Some (xs @ r # ys)"
    and "distinct (xs @ r # ys)"
    and "set (xs @ r # ys) = {s \<in> S. hash_pos t (key s) = hash_pos t (key r)}"
    and "\<And>s. s \<in> set xs \<union> set ys \<Longrightarrow> cmp (Some s) (key r) = Inr False"
    and "cmp (Some r) (key r) = Inr True"
    and "head_record (ht_nodes t ! hash_pos t (key r)) = None"
proof -
  obtain rs where rs: "chain (ht_nodes t ! hash_pos t (key r)) = map Some rs" "distinct rs"
      "set rs = {s \<in> S. hash_pos t (key s) = hash_pos t (key r)}"
    and h: "head_record (ht_nodes t ! hash_pos t (key r)) = None"
    using ht_invarD(3) [OF assms(1), of "key r"] by (auto simp: bucket_ok_def)
  have "r \<in> set rs" using assms(3) rs(3) by simp
  then obtain xs ys where split: "rs = xs @ r # ys" by (auto dest: split_list)
  have "cmp (Some s) (key r) = Inr False" if "s \<in> set xs \<union> set ys" for s
  proof -
    have "s \<in> S" "s \<noteq> r" using that rs(2,3) split by auto
    then have "key s \<noteq> key r"
      using ht_invarD(4) [OF assms(1)] assms(3) by (auto dest: inj_onD)
    with \<open>s \<in> S\<close> assms(2) show ?thesis by (simp add: agrees_def)
  qed
  with that [of xs ys] show ?thesis
    using rs split assms(2,3) h by (auto simp: agrees_def)
qed

lemma bucket_absent:
  assumes "ht_invar key S t" and "agrees cmp key S" and "k \<notin> key ` S"
  obtains rs where "chain (ht_nodes t ! hash_pos t k) = map Some rs" and "distinct rs"
    and "set rs = {s \<in> S. hash_pos t (key s) = hash_pos t k}"
    and "\<And>s. s \<in> set rs \<Longrightarrow> cmp (Some s) k = Inr False"
    and "head_record (ht_nodes t ! hash_pos t k) = None"
proof -
  obtain rs where rs: "chain (ht_nodes t ! hash_pos t k) = map Some rs" "distinct rs"
      "set rs = {s \<in> S. hash_pos t (key s) = hash_pos t k}"
    and h: "head_record (ht_nodes t ! hash_pos t k) = None"
    using ht_invarD(3) [OF assms(1), of k] by (auto simp: bucket_ok_def)
  have "cmp (Some s) k = Inr False" if "s \<in> set rs" for s
    using that rs(3) assms(2,3) by (auto simp: agrees_def)
  with that rs h show ?thesis by blast
qed

lemma get_hashnode_miss:
  assumes "ht_invar key S t" and "agrees cmp key S" and "k \<notin> key ` S"
  shows "get_hashnode cmp t k =
    Inr ((hash_pos t k, length (chain (ht_nodes t ! hash_pos t k))), False)"
proof -
  obtain rs where "chain (ht_nodes t ! hash_pos t k) = map Some rs"
    "\<And>s. s \<in> set rs \<Longrightarrow> cmp (Some s) k = Inr False" "head_record (ht_nodes t ! hash_pos t k) = None"
    by (rule bucket_absent [OF assms]) blast
  then show ?thesis
    using ht_invarD(1,2) [OF assms(1)] by (simp add: get_hashnode_def chain_find_miss)
qed

lemma get_hashnode_hit:
  assumes "ht_invar key S t" and "agrees cmp key S" and "r \<in> S"
  shows "\<exists>i. get_hashnode cmp t (key r) = Inr ((hash_pos t (key r), Suc i), True)
    \<and> i < length (chain (ht_nodes t ! hash_pos t (key r)))
    \<and> chain (ht_nodes t ! hash_pos t (key r)) ! i = Some r"
proof -
  obtain xs ys where "chain (ht_nodes t ! hash_pos t (key r)) = map Some (xs @ r # ys)"
    "\<And>s. s \<in> set xs \<union> set ys \<Longrightarrow> cmp (Some s) (key r) = Inr False"
    "cmp (Some r) (key r) = Inr True" "head_record (ht_nodes t ! hash_pos t (key r)) = None"
    by (rule bucket_split [OF assms]) blast
  then show ?thesis
    using ht_invarD(1,2) [OF assms(1)]
    by (intro exI [of _ "length xs"])
      (simp add: get_hashnode_def chain_find_hit nth_append)
qed

lemma find_record_hit:
  assumes "ht_invar key S t" and "agrees cmp key S" and "r \<in> S"
  shows "find_record cmp t (key r) = Inr (Some r)"
  using get_hashnode_hit [OF assms] ht_invarD(2) [OF assms(1)]
  by (auto simp: find_record_def node_record_def)

lemma find_record_miss:
  "ht_invar key S t \<Longrightarrow> agrees cmp key S \<Longrightarrow> k \<notin> key ` S \<Longrightarrow> find_record cmp t k = Inr None"
  by (simp add: find_record_def get_hashnode_miss)

lemma set_hashnode_present:
  assumes "ht_invar key S t" and "agrees cmp key S" and "r \<in> S"
  shows "\<exists>node. set_hashnode cmp t (key r) None = Inr ((node, True), t)
    \<and> node_record t node = Inr (Some r)"
  using get_hashnode_hit [OF assms] ht_invarD(2) [OF assms(1)]
  by (auto simp: set_hashnode_def node_record_def)

lemma set_hashnode_absent:
  assumes "ht_invar key S t" and "agrees cmp key S" and "k \<notin> key ` S"
  shows "set_hashnode cmp t k record =
    (let p = hash_pos t k; b = ht_nodes t ! p
     in Inr (((p, Suc (length (chain b))), False),
             t\<lparr>ht_nodes := (ht_nodes t)[p := b\<lparr>chain := chain b @ [record]\<rparr>]\<rparr>))"
  using ht_invarD(2) [OF assms(1)]
  by (simp add: set_hashnode_def get_hashnode_miss [OF assms] Let_def)

text \<open>Replacing one bucket keeps the invariant when that bucket is right and the others are
  unaffected by the change of key and record set.\<close>

lemma ht_invar_update_bucket:
  assumes "ht_invar key S t" and p: "p < length (ht_nodes t)"
    and "bucket_ok t key' S' p b" and "inj_on key' S'"
    and same: "\<And>q. q \<noteq> p \<Longrightarrow> {r \<in> S'. hash_pos t (key' r) = q} = {r \<in> S. hash_pos t (key r) = q}"
  shows "ht_invar key' S' (t\<lparr>ht_nodes := (ht_nodes t)[p := b]\<rparr>)"
proof -
  have "bucket_ok t key' S' q (((ht_nodes t)[p := b]) ! q)" if q: "q < length (ht_nodes t)" for q
  proof (cases "q = p")
    case True
    then show ?thesis using assms(3) q by simp
  next
    case False
    have "bucket_ok t key S q (ht_nodes t ! q)" using assms(1) q by (simp add: ht_invar_def)
    then show ?thesis using False same [OF False] by (simp add: bucket_ok_def)
  qed
  then show ?thesis
    using assms(1,4) by (auto simp: ht_invar_def bucket_ok_def)
qed

lemma ht_invar_append:
  assumes "ht_invar key S t" and "agrees cmp key S" and k: "k \<notin> key ` S" and r: "r \<notin> S"
  defines "p \<equiv> hash_pos t k"
  shows "ht_invar (key(r := k)) (insert r S)
    (t\<lparr>ht_nodes := (ht_nodes t)
       [p := (ht_nodes t ! p)\<lparr>chain := chain (ht_nodes t ! p) @ [Some r]\<rparr>]\<rparr>)"
proof (rule ht_invar_update_bucket [OF assms(1)])
  obtain rs where rs: "chain (ht_nodes t ! p) = map Some rs" "distinct rs"
    "set rs = {s \<in> S. hash_pos t (key s) = p}" "head_record (ht_nodes t ! p) = None"
    unfolding p_def by (rule bucket_absent [OF assms(1-3)]) blast
  have "set (rs @ [r]) = {s \<in> insert r S. hash_pos t ((key(r := k)) s) = p}"
    using rs(3) r by (auto simp: p_def)
  moreover have "distinct (rs @ [r])" using rs(2,3) r by auto
  ultimately show "bucket_ok t (key(r := k)) (insert r S) p
      ((ht_nodes t ! p)\<lparr>chain := chain (ht_nodes t ! p) @ [Some r]\<rparr>)"
    unfolding bucket_ok_def by (intro conjI exI [of _ "rs @ [r]"]) (simp_all add: rs)
  show "p < length (ht_nodes t)" unfolding p_def by (rule ht_invarD(2) [OF assms(1)])
  show "inj_on (key(r := k)) (insert r S)"
    using ht_invarD(4) [OF assms(1)] k r by (auto simp: inj_on_def)
  show "{s \<in> insert r S. hash_pos t ((key(r := k)) s) = q} = {s \<in> S. hash_pos t (key s) = q}"
    if "q \<noteq> p" for q
    using that r by (auto simp: p_def)
qed

lemma enter_record_eq:
  assumes "ht_invar key S t" and "agrees cmp key S" and "k \<notin> key ` S"
  shows "enter_record cmp t k r = bindE (set_hashnode cmp t k (Some r)) (\<lambda>(n, t'). Inr t')"
  using ht_invarD(2) [OF assms(1), of k]
  by (simp add: enter_record_def set_hashnode_absent [OF assms] Let_def set_node_record_def)

lemma enter_record_new:
  assumes "ht_invar key S t" and "agrees cmp key S" and "k \<notin> key ` S" and "r \<notin> S"
  shows "\<exists>t'. enter_record cmp t k r = Inr t' \<and> ht_invar (key(r := k)) (insert r S) t'"
  using ht_invar_append [OF assms]
  by (simp add: enter_record_eq [OF assms(1-3)] set_hashnode_absent [OF assms(1-3)] Let_def)

text \<open>The two halves of entering a label, as \<open>push_front\<close> runs them.\<close>

lemma set_hashnode_then_fill:
  assumes "ht_invar key S t" and "agrees cmp key S" and "k \<notin> key ` S"
  obtains node t1 where "set_hashnode cmp t k None = Inr ((node, False), t1)"
    and "\<And>r. r \<notin> S \<Longrightarrow> \<exists>t2. set_node_record t1 node (Some r) = Inr t2
          \<and> ht_invar (key(r := k)) (insert r S) t2"
proof -
  obtain node t1 where eq: "set_hashnode cmp t k None = Inr ((node, False), t1)"
    by (simp add: set_hashnode_absent [OF assms] Let_def)
  have "enter_record cmp t k r = set_node_record t1 node (Some r)" for r
    by (simp add: enter_record_def eq)
  with that [OF eq] enter_record_new [OF assms] show ?thesis by simp
qed

lemma reset_hash_node_hit:
  assumes "ht_invar key S t" and "agrees cmp key S" and r: "r \<in> S"
  shows "\<exists>t'. reset_hash_node cmp t (key r) = Inr (True, t') \<and> ht_invar key (S - {r}) t'"
proof -
  define p where "p = hash_pos t (key r)"
  obtain xs ys where ch: "chain (ht_nodes t ! p) = map Some (xs @ r # ys)"
    and dist: "distinct (xs @ r # ys)"
    and st: "set (xs @ r # ys) = {s \<in> S. hash_pos t (key s) = p}"
    and cmp: "\<And>s. s \<in> set xs \<union> set ys \<Longrightarrow> cmp (Some s) (key r) = Inr False"
      "cmp (Some r) (key r) = Inr True"
    and h: "head_record (ht_nodes t ! p) = None"
    unfolding p_def by (rule bucket_split [OF assms]) blast
  let ?t = "t\<lparr>ht_nodes := (ht_nodes t)[p := (ht_nodes t ! p)\<lparr>chain := map Some (xs @ ys)\<rparr>]\<rparr>"
  have p: "p < length (ht_nodes t)" unfolding p_def by (rule ht_invarD(2) [OF assms(1)])
  have "reset_hash_node cmp t (key r) = Inr (True, ?t)"
    using ht_invarD(1) [OF assms(1)] p ch cmp chain_remove_hit [of xs cmp "key r" r "map Some ys"]
    by (simp add: reset_hash_node_def p_def [symmetric] Let_def)
  moreover have "ht_invar key (S - {r}) ?t"
  proof (rule ht_invar_update_bucket [OF assms(1) p])
    have "set (xs @ ys) = {s \<in> S - {r}. hash_pos t (key s) = p}"
      using st dist by auto
    then show "bucket_ok t key (S - {r}) p ((ht_nodes t ! p)\<lparr>chain := map Some (xs @ ys)\<rparr>)"
      using dist h by (auto simp: bucket_ok_def intro!: exI [of _ "xs @ ys"])
    show "inj_on key (S - {r})"
      using ht_invarD(4) [OF assms(1)] by (rule inj_on_subset) auto
    show "{s \<in> S - {r}. hash_pos t (key s) = q} = {s \<in> S. hash_pos t (key s) = q}"
      if "q \<noteq> p" for q
      using that by (auto simp: p_def)
  qed
  ultimately show ?thesis by blast
qed

lemma reset_hash_node_miss:
  assumes "ht_invar key S t" and "agrees cmp key S" and "k \<notin> key ` S"
  shows "reset_hash_node cmp t k = Inr (False, t)"
proof -
  obtain rs where "chain (ht_nodes t ! hash_pos t k) = map Some rs"
    "\<And>s. s \<in> set rs \<Longrightarrow> cmp (Some s) k = Inr False"
    by (rule bucket_absent [OF assms]) blast
  moreover from this(1) have "t\<lparr>ht_nodes := (ht_nodes t)
      [hash_pos t k := (ht_nodes t ! hash_pos t k)\<lparr>chain := map Some rs\<rparr>]\<rparr> = t"
    by (simp flip: \<open>chain _ = _\<close>)
  ultimately show ?thesis
    using ht_invarD(1,2) [OF assms(1)] by (simp add: reset_hash_node_def chain_remove_miss Let_def)
qed

lemma ht_invar_key_cong:
  assumes "ht_invar key S t" and "\<And>r. r \<in> S \<Longrightarrow> key' r = key r"
  shows "ht_invar key' S t"
proof -
  have "{r \<in> S. hash_pos t (key' r) = p} = {r \<in> S. hash_pos t (key r) = p}" for p
    using assms(2) by auto
  moreover have "inj_on key' S = inj_on key S" by (rule inj_on_cong) (simp add: assms(2))
  ultimately show ?thesis
    using assms(1) by (simp add: ht_invar_def bucket_ok_def)
qed

interpretation ht: keyed_index ht_invar find_record enter_record reset_hash_node
  by unfold_locales
    (blast intro: ht_invarD(4) ht_invar_key_cong find_record_hit find_record_miss
      enter_record_new reset_hash_node_hit reset_hash_node_miss)+

section \<open>Failing comparisons\<close>

lemma chain_find_error:
  "(\<And>s. s \<in> set rs \<Longrightarrow> cmp (Some s) k = Inr False) \<Longrightarrow> cmp (Some r) k = Inl e
     \<Longrightarrow> chain_find cmp k (map Some rs @ Some r # rest) i = Inl e"
  by (induction rs arbitrary: i) auto

lemma chain_remove_error:
  "(\<And>s. s \<in> set rs \<Longrightarrow> cmp (Some s) k = Inr False) \<Longrightarrow> cmp (Some r) k = Inl e
     \<Longrightarrow> chain_remove cmp k (map Some rs @ Some r # rest) = Inl e"
  by (induction rs) auto

lemma bucket_error:
  assumes inv: "ht_invar key S t" and r: "r \<in> S"
    and other: "\<And>s. s \<in> S \<Longrightarrow> s \<noteq> r \<Longrightarrow> cmp (Some s) (key r) = Inr False"
    and bad: "cmp (Some r) (key r) = Inl e"
  shows "get_hashnode cmp t (key r) = Inl e" and "reset_hash_node cmp t (key r) = Inl e"
proof -
  have "agrees (\<lambda>p k. Inr (\<exists>s. p = Some s \<and> key s = k)) key S" by (auto simp: agrees_def)
  then obtain xs ys where ch: "chain (ht_nodes t ! hash_pos t (key r)) = map Some (xs @ r # ys)"
    and dist: "distinct (xs @ r # ys)"
    and st: "set (xs @ r # ys) = {s \<in> S. hash_pos t (key s) = hash_pos t (key r)}"
    and h: "head_record (ht_nodes t ! hash_pos t (key r)) = None"
    by (rule bucket_split [OF inv _ r]) blast
  have "cmp (Some s) (key r) = Inr False" if "s \<in> set xs" for s
    using that dist st by (intro other) auto
  then show "get_hashnode cmp t (key r) = Inl e" "reset_hash_node cmp t (key r) = Inl e"
    using ch h bad ht_invarD(1,2) [OF inv] chain_find_error [of xs cmp "key r" r e "map Some ys" 0]
      chain_remove_error [of xs cmp "key r" r e "map Some ys"]
    by (simp_all add: get_hashnode_def reset_hash_node_def Let_def)
qed

section \<open>The size of a fresh table\<close>

lemma ceil_sqrt_from_ge: "k \<le> ceil_sqrt_from k n"
  by (induction k n rule: ceil_sqrt_from.induct) (subst ceil_sqrt_from.simps, force)

lemma ceil_sqrt_from_correct:
  assumes "0 \<le> k" and "k = 0 \<or> (k - 1) * (k - 1) < n"
  shows "n \<le> ceil_sqrt_from k n * ceil_sqrt_from k n \<and>
    (ceil_sqrt_from k n = 0 \<or> (ceil_sqrt_from k n - 1) * (ceil_sqrt_from k n - 1) < n)"
  using assms
proof (induction k n rule: ceil_sqrt_from.induct)
  case (1 k n)
  show ?case
  proof (cases "n \<le> k * k")
    case True
    then show ?thesis using 1 by (simp add: ceil_sqrt_from.simps)
  next
    case False
    then show ?thesis using 1 by (subst (1 2 3 4 5) ceil_sqrt_from.simps) simp
  qed
qed

lemma ceil_sqrt_eq: "0 \<le> n \<Longrightarrow> ceil_sqrt n = \<lceil>sqrt (of_int n)\<rceil>"
proof -
  assume n: "0 \<le> n"
  define c where "c = ceil_sqrt n"
  have c: "0 \<le> c" "n \<le> c * c" "c = 0 \<or> (c - 1) * (c - 1) < n"
    using ceil_sqrt_from_ge [of 0 n] ceil_sqrt_from_correct [of 0 n]
    by (auto simp: c_def ceil_sqrt_def)
  have "sqrt (of_int n) \<le> of_int c"
    using c(1,2) by (intro real_le_lsqrt) (auto simp: power2_eq_square simp flip: of_int_mult)
  moreover have "of_int c - 1 < sqrt (real_of_int n)"
  proof (cases "c = 0")
    case True
    then show ?thesis using n real_sqrt_ge_zero [of "of_int n"] by linarith
  next
    case False
    then have "(real_of_int (c - 1))\<^sup>2 < of_int n"
      using c(3) by (simp add: power2_eq_square del: of_int_diff flip: of_int_mult)
    then show ?thesis by (simp add: real_less_rsqrt)
  qed
  ultimately show ?thesis by (simp add: c_def ceiling_unique)
qed

lemma trial_flag_iff: "trial_flag n \<longleftrightarrow> 2 \<le> n \<and> even n"
proof
  assume "2 \<le> n \<and> even n"
  then have "ceil_sqrt n = ceil_sqrt_from 2 n"
    by (simp add: ceil_sqrt_def ceil_sqrt_from.simps [of 0 n] ceil_sqrt_from.simps [of 1 n])
  with ceil_sqrt_from_ge [of 2 n] \<open>2 \<le> n \<and> even n\<close> show "trial_flag n"
    by (auto simp: trial_flag_def)
qed (auto dest: trial_flag_even trial_flag_ge2)

lemma find_smallest_prime_eq:
  "0 \<le> n \<Longrightarrow> find_smallest_prime n =
     Inr (if n = 0 then 0 else if n = 1 then 3 else if even n then n + 1 else n)"
  by (simp add: find_smallest_prime.simps [of n] find_smallest_prime.simps [of "n + 1"]
      find_smallest_prime.simps [of 2] find_smallest_prime.simps [of 3] trial_flag_iff)

lemma init_hashtable_invar:
  assumes "0 < sz" and "0 < ff" and "ff \<le> 1" and "of_int sz / ff < 2 ^ 31 - 1"
  shows "\<exists>t. init_hashtable t0 sz ff h = Inr (True, t) \<and> ht_invar key {} t \<and> ht_hash t = h
    \<and> sz \<le> ht_size t"
proof -
  define q where "q = of_int sz / ff"
  define m where "m = \<lfloor>q\<rfloor>"
  have "of_int sz \<le> q" using assms by (simp add: q_def field_simps mult_left_le)
  then have m: "sz \<le> m" by (simp add: m_def le_floor_iff)
  have m2: "m < 2 ^ 31 - 1" using assms(4) by (simp add: q_def m_def floor_less_iff)
  have "0 < q" using assms by (simp add: q_def)
  moreover have "q < 2 ^ 31" using assms(4) by (simp add: q_def)
  ultimately have "double_to_int q = Inr m" by (simp add: double_to_int_def m_def)
  then have "init_hashtable t0 sz ff h = bindE (find_smallest_prime m) (\<lambda>p.
      Inr (True, \<lparr>ht_nodes = replicate (nat p) \<lparr>head_record = None, chain = []\<rparr>,
                  ht_filling_factor = ff, ht_hash = h, ht_size = p\<rparr>))"
    using assms by (simp add: init_hashtable_def flip: q_def)
  moreover have "0 \<le> m" using assms(1) m by simp
  ultimately show ?thesis
    using assms(1) m m2 by (auto simp: find_smallest_prime_eq ht_invar_def bucket_ok_def)
qed

end
