(* ===== verification/HashProperties.thy ===== *)
theory HashProperties
  imports HashTable
begin

text \<open>
  The properties of the chained hash table of \<open>src/src/hash.c\<close>, over the operations as its
  clients call them. \<open>S\<close> is the set of the records in the table and \<open>key\<close> gives each of them
  its label; the comparison callback is only assumed to decide equality on the records of
  the table.
\<close>

text \<open>A table of integers indexed by themselves, for the examples.\<close>

definition int_compare :: "(int, int) compare" where
  "int_compare p k = Inr (p = Some k)"

definition int_table :: "(int, int) hashtable" where
  "int_table = \<lparr>ht_nodes = [], ht_filling_factor = 0, ht_hash = word_of_int, ht_size = 0\<rparr>"

lemma int_compare_agrees [simp]: "agrees int_compare (\<lambda>r. r) S"
  by (simp add: agrees_def int_compare_def)

lemma int_table_with:
  "\<exists>t. ht_invar (\<lambda>r :: int. r) {5, 9} t"
proof -
  obtain t0 where t0: "ht_invar (\<lambda>r :: int. r) {} t0"
    using init_hashtable_invar [of 8 "1 / 2" int_table word_of_int "\<lambda>r. r"] by auto
  have id: "(\<lambda>r :: int. r)(k := k) = (\<lambda>r. r)" for k by auto
  obtain t1 where t1: "ht_invar (\<lambda>r :: int. r) {9} t1"
    using ht.enter_new [OF t0 int_compare_agrees, of 9 9] by (auto simp: id)
  then show ?thesis
    using ht.enter_new [OF t1 int_compare_agrees, of 5 5] by (auto simp: id)
qed

section \<open>Properties\<close>

text \<open>C19. Looking a label up (\<open>get_hashnode\<close> and the record behind the node) finds a record
  exactly when the table holds it under that label, and reports absence otherwise; the call
  never fails.\<close>

theorem hash_lookup_correct:
  assumes "ht_invar key S t" and "agrees cmp key S"
  shows "(find_record cmp t k = Inr (Some r) \<longleftrightarrow> r \<in> S \<and> key r = k)
    \<and> (find_record cmp t k = Inr None \<longleftrightarrow> k \<notin> key ` S)"
proof (intro conjI)
  show "find_record cmp t k = Inr (Some r) \<longleftrightarrow> r \<in> S \<and> key r = k"
    by (rule ht.lookup_iff [OF assms])
  show "find_record cmp t k = Inr None \<longleftrightarrow> k \<notin> key ` S"
    using ht.lookup_hit [OF assms] ht.lookup_miss [OF assms, of k] by auto
qed

theorem hash_lookup_correct_witness:
  "\<exists>t. find_record int_compare t 5 = Inr (Some 5) \<and> find_record int_compare t 7 = Inr None"
proof -
  obtain t where t: "ht_invar (\<lambda>r :: int. r) {5, 9} t" using int_table_with by blast
  show ?thesis
    using hash_lookup_correct [OF t int_compare_agrees, of 5 5]
      hash_lookup_correct [OF t int_compare_agrees, of 7 7] by auto
qed

text \<open>C20. Entering a new label (\<open>set_hashnode\<close> with a null record whose node is then filled)
  adds exactly this record: afterwards the label leads to it, every other label leads where
  it led before, and the table is well formed for the larger set.\<close>

theorem hash_enter_correct:
  assumes "ht_invar key S t" and "agrees cmp key S" and "k \<notin> key ` S" and "r \<notin> S"
    and "agrees cmp' (key(r := k)) (insert r S)"
  shows "\<exists>t'. enter_record cmp t k r = Inr t' \<and> ht_invar (key(r := k)) (insert r S) t'
    \<and> (\<forall>k'. find_record cmp' t' k' = (if k' = k then Inr (Some r) else find_record cmp t k'))"
proof -
  obtain t' where t': "enter_record cmp t k r = Inr t'" "ht_invar (key(r := k)) (insert r S) t'"
    using ht.enter_new [OF assms(1-4)] by blast
  have "find_record cmp' t' k' = (if k' = k then Inr (Some r) else find_record cmp t k')" for k'
    using ht.lookup_after_enter [OF assms(1-4) t'(1) assms(5)] ht.lookup_hit [OF assms(1,2)]
      ht.lookup_miss [OF assms(1,2), of k'] by (cases "k' \<in> key ` S") auto
  with t' show ?thesis by blast
qed

theorem hash_enter_correct_witness:
  "\<exists>t t'. enter_record int_compare t 7 7 = Inr t' \<and> find_record int_compare t' 7 = Inr (Some 7)
    \<and> find_record int_compare t' 5 = find_record int_compare t 5"
proof -
  obtain t where t: "ht_invar (\<lambda>r :: int. r) {5, 9} t" using int_table_with by blast
  have id: "(\<lambda>r :: int. r)(7 := 7) = (\<lambda>r. r)" by auto
  obtain t' where "enter_record int_compare t 7 7 = Inr t'" and "\<forall>k'. find_record int_compare t' k'
      = (if k' = 7 then Inr (Some 7) else find_record int_compare t k')"
    using hash_enter_correct [OF t int_compare_agrees, of 7 7 int_compare] by (auto simp: id)
  then show ?thesis by (intro exI [of _ t] exI [of _ t']) simp
qed

text \<open>C21. \<open>reset_hash_node\<close> removes exactly the record of the label and says whether there was
  one; every other label leads where it led before.\<close>

theorem hash_remove_correct:
  assumes "ht_invar key S t" and "agrees cmp key S"
  shows "\<exists>t'. reset_hash_node cmp t k = Inr (k \<in> key ` S, t')
    \<and> ht_invar key {r \<in> S. key r \<noteq> k} t'
    \<and> (\<forall>k'. find_record cmp t' k' = (if k' = k then Inr None else find_record cmp t k'))"
proof (cases "k \<in> key ` S")
  case True
  then obtain r where r: "r \<in> S" "k = key r" by auto
  obtain t' where t': "reset_hash_node cmp t (key r) = Inr (True, t')" "ht_invar key (S - {r}) t'"
    using ht.remove_hit [OF assms r(1)] by blast
  have "S - {r} = {s \<in> S. key s \<noteq> k}"
    using ht.invar_inj [OF assms(1)] r by (auto dest: inj_onD)
  moreover have "find_record cmp t' k' = (if k' = k then Inr None else find_record cmp t k')" for k'
  proof (cases "k' \<in> key ` S")
    case True
    then obtain s where "s \<in> S" "k' = key s" by auto
    then show ?thesis
      using ht.lookup_after_remove [OF assms r(1) t'(1)] ht.lookup_hit [OF assms] r
        inj_onD [OF ht.invar_inj [OF assms(1)], of s r] by (cases "s = r") auto
  next
    case False
    then have "k' \<notin> key ` (S - {r})" by auto
    then show ?thesis
      using ht.lookup_miss [OF t'(2) agrees_subset [OF assms(2)], of k'] False
        ht.lookup_miss [OF assms False] by auto
  qed
  ultimately show ?thesis using t' True r(2) by auto
next
  case False
  then have "{r \<in> S. key r \<noteq> k} = S" by auto
  then show ?thesis
    using ht.remove_miss [OF assms False] ht.lookup_miss [OF assms False] assms(1) False by auto
qed

theorem hash_remove_correct_witness:
  "\<exists>t t'. find_record int_compare t 5 = Inr (Some 5) \<and> reset_hash_node int_compare t 5 = Inr (True, t')
    \<and> find_record int_compare t' 5 = Inr None"
proof -
  obtain t where t: "ht_invar (\<lambda>r :: int. r) {5, 9} t" using int_table_with by blast
  show ?thesis
    using hash_remove_correct [OF t int_compare_agrees, of 5]
      ht.lookup_hit [OF t int_compare_agrees, of 5] by auto
qed

text \<open>The size of a table: \<open>find_smallest_prime\<close> returns for every non-negative number,
  and what it returns is the argument if that is odd (3 for 1) and its successor if that is
  even and positive. It need not be prime: the loop that tests divisors stops after 2.\<close>

theorem find_smallest_prime_value:
  assumes "0 \<le> n"
  shows "find_smallest_prime n =
    Inr (if n = 0 then 0 else if n = 1 then 3 else if even n then n + 1 else n)"
  by (rule find_smallest_prime_eq [OF assms])

theorem find_smallest_prime_value_witness:
  "find_smallest_prime 9 = Inr 9 \<and> 3 dvd (9 :: int)"
  using find_smallest_prime_value [of 9] by simp

text \<open>\<open>init_hashtable\<close> with a positive size and a filling factor in (0, 1] gives an empty,
  well-formed table with at least that many buckets.\<close>

theorem init_hashtable_empty:
  assumes "0 < sz" and "0 < ff" and "ff \<le> 1" and "of_int sz / ff < 2 ^ 31 - 1"
  shows "\<exists>t. init_hashtable t0 sz ff h = Inr (True, t) \<and> ht_invar key {} t \<and> ht_hash t = h
    \<and> sz \<le> ht_size t"
  by (rule init_hashtable_invar [OF assms])

theorem init_hashtable_empty_witness:
  "\<exists>t. init_hashtable int_table 1000 (7 / 10) word_of_int = Inr (True, t) \<and> 1000 \<le> ht_size t"
  using init_hashtable_empty [of 1000 "7 / 10" int_table word_of_int] by auto

end
