(* ===== verification/DnsTypes.thy ===== *)
theory DnsTypes
  imports Prelude
begin

text \<open>
  The constants, enumerations and structures of \<open>src/include/common.h\<close>. Structures keep
  the layout facts the code depends on: the address union is its sixteen bytes, a name
  buffer its 256 bytes.
\<close>

section \<open>Constants\<close>

definition FLAG_QUERY :: u16 where "FLAG_QUERY = 0x0100"
definition FLAG_RESPONSE_NORMAL :: u16 where "FLAG_RESPONSE_NORMAL = 0x8000"
definition COMPRESS_FLAG :: byte where "COMPRESS_FLAG = 0xc0"
definition COMPRESS_MASK :: u16 where "COMPRESS_MASK = 0x3fff"
definition MAX_DNS_SIZE :: int where "MAX_DNS_SIZE = 520"
definition MAX_NAME_LENGTH :: nat where "MAX_NAME_LENGTH = 256"
definition DNS_HEADER_SIZE :: int where "DNS_HEADER_SIZE = 12"
definition HTTP_CLASS :: int where "HTTP_CLASS = 1"

definition IN_16b_RANGE :: "int \<Rightarrow> bool" where
  "IN_16b_RANGE x \<longleftrightarrow> 0 \<le> x \<and> x \<le> 0xffff"

text \<open>The upper bound \<open>0xffffffff\<close> is unsigned, so it holds of every \<open>int\<close>.\<close>

definition IN_32b_RANGE :: "int \<Rightarrow> bool" where
  "IN_32b_RANGE x \<longleftrightarrow> 0 \<le> x"

definition is_compress :: "byte \<Rightarrow> bool" where
  "is_compress x \<longleftrightarrow> x AND COMPRESS_FLAG \<noteq> 0"

definition get_compress_pos :: "u16 \<Rightarrow> u16" where
  "get_compress_pos x = x AND COMPRESS_MASK"

section \<open>Enumerations\<close>

datatype RCODE = RCODE_NO_ERROR | RCDOE_FORMAT_ERROR | RCODE_FAILURE | RCODE_NAME_ERROR
  | RCODE_NOT_IMPLEMENTED | RCODE_REFUSED

primrec rcode_val :: "RCODE \<Rightarrow> byte" where
  "rcode_val RCODE_NO_ERROR = 0"
| "rcode_val RCDOE_FORMAT_ERROR = 1"
| "rcode_val RCODE_FAILURE = 2"
| "rcode_val RCODE_NAME_ERROR = 3"
| "rcode_val RCODE_NOT_IMPLEMENTED = 4"
| "rcode_val RCODE_REFUSED = 5"

datatype RRtype = RRTYPE_A | RRTYPE_NS | RRTYPE_CNAME | RRTYPE_SOA | RRTYPE_PTR | RRTYPE_MX
  | RRTYPE_AAAA

primrec rrtype_val :: "RRtype \<Rightarrow> int" where
  "rrtype_val RRTYPE_A = 1"
| "rrtype_val RRTYPE_NS = 2"
| "rrtype_val RRTYPE_CNAME = 5"
| "rrtype_val RRTYPE_SOA = 6"
| "rrtype_val RRTYPE_PTR = 12"
| "rrtype_val RRTYPE_MX = 15"
| "rrtype_val RRTYPE_AAAA = 28"

section \<open>Structures\<close>

record IP =
  ip_addr :: "byte list"  \<comment> \<open>the sixteen bytes of \<open>union ip\<close>\<close>
  ip_type :: byte

record dns_header =
  hd_id :: u16
  hd_flags :: u16    \<comment> \<open>in network order, as \<open>read_dns_header\<close> leaves it\<close>
  hd_qdcount :: u16
  hd_ancount :: u16
  hd_nscount :: u16
  hd_adcount :: u16

record question =
  q_label :: "byte list"  \<comment> \<open>the buffer of \<open>MAX_NAME_LENGTH\<close> bytes\<close>
  q_qtype :: u16
  q_qclass :: u16

record answer =
  a_name :: "byte list"
  a_address :: IP
  a_cname :: "byte list"
  a_type :: u16
  a_class :: u16
  a_ttl :: u32
  a_has_cname :: bool

end
