(* ===== verification/LruCache.thy ===== *)
theory LruCache
  imports HashTable DnsTypes
begin

text \<open>
  The LRU cache of \<open>src/src/cache.c\<close> and \<open>src/include/cache.h\<close>: an array of records
  threaded by a doubly linked list of array indices (slot 0 is the list's head node), a
  stack of free slots, and a hash table from labels to records.

  A pointer to a record is its index in the array. The chain of \<open>record_data\<close> nodes a
  record owns is the list of its nodes, the empty list being the null pointer; after
  \<open>realse_A_record\<close> the pointer dangles, which is the value \<open>Freed\<close>. The callbacks stored
  in the structure are always the A-record functions, so they are called directly.
  \<open>time (NULL)\<close> is the argument \<open>now\<close>.
\<close>

section \<open>Data\<close>

definition LRU_BUFFER_LENGTH :: int where "LRU_BUFFER_LENGTH = 1000"
definition CACHE_FILLING_FACTOR :: rat where "CACHE_FILLING_FACTOR = 7 / 10"
definition CACHE_SIZE :: int where "CACHE_SIZE = 102400"
definition LRU_POP_ITEM :: nat where "LRU_POP_ITEM = 10"
definition DNS_CACHE_PERMANENT :: int where "DNS_CACHE_PERMANENT = 1099511627776"
definition CACHE_INFINTE_SIZE :: int where "CACHE_INFINTE_SIZE = 429496729"
definition LRU_BUFFER_HEAD_POINT :: int where "LRU_BUFFER_HEAD_POINT = 0"

record record_data =
  rd_label :: cstring
  rd_ip :: IP
  rd_ttl :: int

datatype data_ptr = Chain "record_data list" | Freed

record cache_record =
  r_data :: data_ptr
  r_next :: int
  r_last :: int
  r_size :: int
  r_valid :: bool

record cache =
  c_records :: "cache_record list"
  c_stack :: "int list"
  c_stack_top :: int
  c_length :: nat
  c_max_length :: nat
  c_used_size :: nat
  c_max_size :: nat
  c_first :: int
  c_last :: int
  c_is_init :: bool
  c_label_hash :: "(cstring, int) hashtable"
  c_locked :: bool

text \<open>\<open>sizeof (struct record_data)\<close> on the 64-bit target: 8 for the label pointer, padding to
  16, 32 for \<open>struct IP\<close>, 8 for the expiry time, 8 for the link.\<close>

definition sizeof_record_data :: int where "sizeof_record_data = 64"

section \<open>Callbacks on records\<close>

text \<open>\<open>_hash_label\<close>: byte \<open>i\<close> of the label is xored into byte \<open>i mod 4\<close> of the result.\<close>

fun hash_label_from :: "nat \<Rightarrow> cstring \<Rightarrow> u32 \<Rightarrow> u32" where
  "hash_label_from i [] n = n"
| "hash_label_from i (b # bs) n =
     hash_label_from (Suc i) bs (n XOR push_bit (8 * (i mod 4)) (ucast b))"

definition hash_label :: "cstring \<Rightarrow> u32" where
  "hash_label label = hash_label_from 0 label 0"

definition first_data :: "cache_record \<Rightarrow> record_data result" where
  "first_data r = (case r_data r of Freed \<Rightarrow> Inl UseAfterFree
     | Chain [] \<Rightarrow> Inl NullDeref | Chain (d # _) \<Rightarrow> Inr d)"

definition get_cache_A_record_label :: "cache_record \<Rightarrow> cstring result" where
  "get_cache_A_record_label r = bindE (first_data r) (\<lambda>d. Inr (rd_label d))"

definition compare_record_with_label :: "cache_record list \<Rightarrow> (cstring, int) compare" where
  "compare_record_with_label records p label =
     (case p of None \<Rightarrow> Inl NullDeref
      | Some i \<Rightarrow> bindE (arr_get records i) (\<lambda>r.
          if \<not> r_valid r then Inl (Exit 0)
          else bindE (get_cache_A_record_label r) (\<lambda>l. Inr (l = label))))"

definition realse_A_record :: "cache_record \<Rightarrow> cache_record result" where
  "realse_A_record r = (case r_data r of Freed \<Rightarrow> Inl UseAfterFree
     | Chain [] \<Rightarrow> Inr (r\<lparr>r_size := 0\<rparr>)
     | Chain (d # ds) \<Rightarrow> Inr (r\<lparr>r_data := Freed, r_size := 0\<rparr>))"

definition add_A_record :: "int \<Rightarrow> cache_record \<Rightarrow> record_data \<Rightarrow> (int \<times> cache_record) result" where
  "add_A_record now r data =
     (if rd_ttl data < now then Inr (0, r)
      else if r_size r > 0 then
        (case r_data r of Freed \<Rightarrow> Inl UseAfterFree
         | Chain [] \<Rightarrow> Inl NullDeref
         | Chain (d # ds) \<Rightarrow> Inr (r_size r, r\<lparr>r_data := Chain (data # ds)\<rparr>))
      else
        let len = int (length (rd_label data)) + 1;
            r' = r\<lparr>r_data := Chain [data], r_size := sizeof_record_data + len\<rparr>
        in Inr (r_size r', r'))"

text \<open>
  The loop of \<open>add_A_multi_record\<close>: \<open>dest\<close> is the chain built so far (empty while the
  pointer is null), later nodes share the label of the first one.
\<close>

fun add_multi_loop :: "int \<Rightarrow> record_data list \<Rightarrow> record_data list \<Rightarrow> record_data list" where
  "add_multi_loop now dest [] = dest"
| "add_multi_loop now dest (d # ds) =
     (if now > rd_ttl d then add_multi_loop now dest ds
      else case dest of
        [] \<Rightarrow> add_multi_loop now [d] ds
      | f # _ \<Rightarrow> add_multi_loop now (dest @ [d\<lparr>rd_label := rd_label f\<rparr>]) ds)"

definition add_A_multi_record :: "int \<Rightarrow> cache_record \<Rightarrow> record_data list \<Rightarrow> cache_record" where
  "add_A_multi_record now r data =
     (let dest = add_multi_loop now [] data
      in if dest = [] then r
         else r\<lparr>r_data := Chain dest, r_size := r_size r + int (length dest) * sizeof_record_data\<rparr>)"

definition check_A_record :: "int \<Rightarrow> cache_record \<Rightarrow> bool result" where
  "check_A_record now r = bindE (first_data r) (\<lambda>d.
     Inr (rd_ttl d < now \<and> rd_ttl d \<noteq> DNS_CACHE_PERMANENT))"

section \<open>List and stack primitives\<close>

definition cache_compare :: "cache \<Rightarrow> (cstring, int) compare" where
  "cache_compare Cache = compare_record_with_label (c_records Cache)"

definition upd_record :: "(cache_record \<Rightarrow> cache_record) \<Rightarrow> int \<Rightarrow> cache \<Rightarrow> cache result" where
  "upd_record f i Cache = bindE (arr_get (c_records Cache) i) (\<lambda>r.
     Inr (Cache\<lparr>c_records := (c_records Cache)[nat i := f r]\<rparr>))"

definition cache_stack_pop :: "cache \<Rightarrow> (int \<times> cache) result" where
  "cache_stack_pop Cache =
     (if c_stack_top Cache > 0 then
        bindE (arr_get (c_stack Cache) (c_stack_top Cache)) (\<lambda>x.
          Inr (x, Cache\<lparr>c_stack_top := c_stack_top Cache - 1\<rparr>))
      else Inr (- 1, Cache))"

definition cache_stack_push :: "int \<Rightarrow> cache \<Rightarrow> cache result" where
  "cache_stack_push x Cache =
     (if 0 \<le> x \<and> x < int (c_max_length Cache) then
        bindE (arr_set (c_stack Cache) (c_stack_top Cache + 1) x) (\<lambda>st.
          Inr (Cache\<lparr>c_stack := st, c_stack_top := c_stack_top Cache + 1\<rparr>))
      else Inr Cache)"

definition get_record_addr :: "cache \<Rightarrow> int \<Rightarrow> int" where
  "get_record_addr Cache rec = (if rec > 0 \<and> rec \<le> int (c_max_length Cache) then rec else - 1)"

definition linklist_remove_node :: "int \<Rightarrow> cache \<Rightarrow> cache result" where
  "linklist_remove_node rec Cache =
     bindE (arr_get (c_records Cache) rec) (\<lambda>r.
       if r_next r > 0 then
         bindE (upd_record (\<lambda>x. x\<lparr>r_next := r_next r\<rparr>) (r_last r) Cache) (\<lambda>Cache.
           bindE (arr_get (c_records Cache) rec) (\<lambda>r.
             upd_record (\<lambda>x. x\<lparr>r_last := r_last r\<rparr>) (r_next r) Cache))
       else
         upd_record (\<lambda>x. x\<lparr>r_next := - 1\<rparr>) (r_last r) (Cache\<lparr>c_last := r_last r\<rparr>))"

definition is_full :: "cache \<Rightarrow> bool" where
  "is_full Cache \<longleftrightarrow> c_length Cache \<ge> size_sub (c_max_length Cache) 1"

definition drop_used :: "int \<Rightarrow> cache \<Rightarrow> cache" where
  "drop_used sz Cache = Cache\<lparr>c_used_size := size_sub (c_used_size Cache) (nat (sz mod 2 ^ 64))\<rparr>"

section \<open>Eviction and removal\<close>

text \<open>One round of the loop in \<open>pop_back\<close>, taken when the list is not empty.\<close>

definition pop_back_one :: "cache \<Rightarrow> cache result" where
  "pop_back_one Cache =
     bindE (arr_get (c_records Cache) (c_last Cache)) (\<lambda>lastr.
     let next_to_last = r_last lastr in
     bindE (upd_record (\<lambda>x. x\<lparr>r_valid := False\<rparr>) (c_last Cache) Cache) (\<lambda>Cache.
     bindE (cache_stack_push (c_last Cache) Cache) (\<lambda>Cache.
     bindE (arr_get (c_records Cache) (c_last Cache)) (\<lambda>lastr.
     bindE (get_cache_A_record_label lastr) (\<lambda>label.
     bindE (reset_hash_node (cache_compare Cache) (c_label_hash Cache) label) (\<lambda>(_, h).
     let Cache = drop_used (r_size lastr) (Cache\<lparr>c_label_hash := h\<rparr>) in
     bindE (realse_A_record lastr) (\<lambda>lastr'.
     bindE (upd_record (\<lambda>_. lastr') (c_last Cache) Cache) (\<lambda>Cache.
     bindE (upd_record (\<lambda>x. x\<lparr>r_next := - 1\<rparr>) next_to_last Cache) (\<lambda>Cache.
     let Cache = Cache\<lparr>c_last := next_to_last, c_length := size_sub (c_length Cache) 1\<rparr> in
     Inr (if c_length Cache = 1 then Cache\<lparr>c_first := c_last Cache\<rparr>
          else if c_length Cache = 0
          then Cache\<lparr>c_first := LRU_BUFFER_HEAD_POINT, c_last := LRU_BUFFER_HEAD_POINT\<rparr>
          else Cache))))))))))"

fun pop_back_loop :: "nat \<Rightarrow> cache \<Rightarrow> cache result" where
  "pop_back_loop 0 Cache = Inr Cache"
| "pop_back_loop (Suc t) Cache =
     (if c_length Cache > 0 then bindE (pop_back_one Cache) (pop_back_loop t)
      else pop_back_loop t Cache)"

definition pop_back :: "cache \<Rightarrow> cache result" where
  "pop_back Cache = pop_back_loop LRU_POP_ITEM Cache"

text \<open>\<open>while (Cache->used_size + 1024 > Cache->max_size) pop_back (Cache);\<close>\<close>

partial_function (option) reserve_loop :: "cache \<Rightarrow> cache prog" where
  "reserve_loop Cache =
     (if size_add (c_used_size Cache) 1024 > c_max_size Cache
      then bindP (Some (pop_back Cache)) (\<lambda>Cache. reserve_loop Cache)
      else Some (Inr Cache))"

definition unlink_record :: "int \<Rightarrow> cache \<Rightarrow> cache result" where
  "unlink_record rec Cache =
     (let addr = get_record_addr Cache rec in
      if addr = c_last Cache then
        bindE (arr_get (c_records Cache) (c_last Cache)) (\<lambda>r.
        let substitute_addr = r_last r in
        bindE (upd_record (\<lambda>x. x\<lparr>r_next := - 1\<rparr>) substitute_addr Cache) (\<lambda>Cache.
          Inr (Cache\<lparr>c_last := substitute_addr\<rparr>)))
      else if addr = c_first Cache then
        bindE (arr_get (c_records Cache) (c_first Cache)) (\<lambda>r.
        let substitute_addr = r_next r in
        bindE (upd_record (\<lambda>x. x\<lparr>r_last := LRU_BUFFER_HEAD_POINT\<rparr>) substitute_addr Cache) (\<lambda>Cache.
        bindE (upd_record (\<lambda>x. x\<lparr>r_next := substitute_addr\<rparr>) LRU_BUFFER_HEAD_POINT Cache) (\<lambda>Cache.
          Inr (Cache\<lparr>c_first := substitute_addr\<rparr>))))
      else linklist_remove_node rec Cache)"

text \<open>After the unlinking, \<open>Cache->last\<close> is the tail of the list that remains; it is that
  record whose data \<open>remove_record\<close> releases.\<close>

definition remove_record :: "int \<Rightarrow> cache \<Rightarrow> cache result" where
  "remove_record rec Cache =
     (let addr = get_record_addr Cache rec in
      bindE (unlink_record rec Cache) (\<lambda>Cache.
      bindE (arr_get (c_records Cache) rec) (\<lambda>r.
      bindE (get_cache_A_record_label r) (\<lambda>label.
      bindE (reset_hash_node (cache_compare Cache) (c_label_hash Cache) label) (\<lambda>(_, h).
      let Cache = Cache\<lparr>c_label_hash := h\<rparr> in
      bindE (arr_get (c_records Cache) (c_last Cache)) (\<lambda>lastr.
      let Cache = drop_used (r_size lastr) Cache in
      bindE (realse_A_record lastr) (\<lambda>lastr'.
      bindE (upd_record (\<lambda>_. lastr') (c_last Cache) Cache) (\<lambda>Cache.
      bindE (upd_record (\<lambda>x. x\<lparr>r_valid := False\<rparr>) rec Cache) (\<lambda>Cache.
        cache_stack_push addr (Cache\<lparr>c_length := size_sub (c_length Cache) 1\<rparr>))))))))))"

section \<open>Insertion\<close>

text \<open>The record that belongs to a label: the present one, cut out of the list unless it is
  already the first, or a fresh slot. The result is the record, its address and whether
  it is still to be linked in.\<close>

definition claim_record :: "cstring \<Rightarrow> cache \<Rightarrow> (int \<times> int \<times> bool \<times> cache) result" where
  "claim_record label Cache =
     bindE (set_hashnode (cache_compare Cache) (c_label_hash Cache) label None)
       (\<lambda>((node, is_find), h).
       let Cache = Cache\<lparr>c_label_hash := h\<rparr> in
       if is_find then
         bindE (node_record h node) (\<lambda>rp.
           case rp of None \<Rightarrow> Inl NullDeref
           | Some rec \<Rightarrow>
             let operate_record_addr = get_record_addr Cache rec in
             if operate_record_addr = c_first Cache 
             then Inr (rec, operate_record_addr, False, Cache)
             else bindE (linklist_remove_node rec Cache) (\<lambda>Cache.
               Inr (rec, operate_record_addr, True, Cache)))
       else
         bindE (cache_stack_pop Cache) (\<lambda>(addr, Cache).
           if addr < 0 then Inl (Exit 1)
           else
             bindE (set_node_record h node (Some addr)) (\<lambda>h.
             bindE (upd_record (\<lambda>x. x\<lparr>r_valid := True, r_size := 0\<rparr>) addr
                 (Cache\<lparr>c_label_hash := h\<rparr>)) (\<lambda>Cache.
               Inr (addr, addr, True, Cache\<lparr>c_length := size_add (c_length Cache) 1\<rparr>)))))"

definition link_first :: "int \<Rightarrow> int \<Rightarrow> cache \<Rightarrow> cache result" where
  "link_first rec addr Cache =
     (if c_length Cache > 1 then
        bindE (upd_record (\<lambda>x. x\<lparr>r_next := c_first Cache, r_last := LRU_BUFFER_HEAD_POINT\<rparr>) rec Cache)
          (\<lambda>Cache.
        bindE (upd_record (\<lambda>x. x\<lparr>r_last := addr\<rparr>) (c_first Cache) Cache) (\<lambda>Cache.
        bindE (upd_record (\<lambda>x. x\<lparr>r_next := addr\<rparr>) LRU_BUFFER_HEAD_POINT Cache)
          (\<lambda>Cache. Inr (Cache\<lparr>c_first := addr\<rparr>))))
      else
        bindE (upd_record (\<lambda>x. x\<lparr>r_next := - 1, r_last := LRU_BUFFER_HEAD_POINT\<rparr>) rec Cache) (\<lambda>Cache.
        bindE (upd_record (\<lambda>x. x\<lparr>r_next := addr\<rparr>) LRU_BUFFER_HEAD_POINT Cache)
          (\<lambda>Cache. Inr (Cache\<lparr>c_first := addr, c_last := addr\<rparr>))))"

definition push_front :: "cstring \<Rightarrow> cache \<Rightarrow> (int \<times> cache) prog" where
  "push_front label Cache =
     bindP (Some (if is_full Cache then pop_back Cache else Inr Cache)) (\<lambda>Cache.
     bindP (reserve_loop Cache) (\<lambda>Cache.
     Some (bindE (claim_record label Cache) (\<lambda>(rec, addr, to_link, Cache).
       if to_link then bindE (link_first rec addr Cache) (\<lambda>Cache. Inr (rec, Cache))
       else Inr (rec, Cache)))))"

section \<open>The operations of the interface\<close>

definition release_if_used :: "int \<Rightarrow> cache \<Rightarrow> cache result" where
  "release_if_used rec Cache =
     bindE (arr_get (c_records Cache) rec) (\<lambda>r.
       if r_size r > 0
       then bindE (realse_A_record r) (\<lambda>r'. upd_record (\<lambda>_. r') rec Cache)
       else Inr Cache)"

definition set_cache_A_record_unlocked ::
  "int \<Rightarrow> cstring \<Rightarrow> record_data \<Rightarrow> cache \<Rightarrow> (int \<times> cache) prog" where
  "set_cache_A_record_unlocked now label data Cache =
     (if \<not> c_is_init Cache then Some (Inr (- 1, Cache))
      else bindP (push_front label Cache) (\<lambda>(rec, Cache).
        Some (bindE (release_if_used rec Cache) (\<lambda>Cache.
          bindE (arr_get (c_records Cache) rec) (\<lambda>r.
          bindE (add_A_record now r data) (\<lambda>(ret, r').
          bindE (upd_record (\<lambda>_. r') rec Cache) (\<lambda>Cache. Inr (ret, Cache))))))))"

definition set_cache_A_multi_record_unlocked ::
  "int \<Rightarrow> cstring \<Rightarrow> record_data list \<Rightarrow> cache \<Rightarrow> (int \<times> cache) prog" where
  "set_cache_A_multi_record_unlocked now label data Cache =
     (if \<not> c_is_init Cache then Some (Inr (- 1, Cache))
      else bindP (push_front label Cache) (\<lambda>(rec, Cache).
        Some (bindE (release_if_used rec Cache) (\<lambda>Cache.
          bindE (upd_record (\<lambda>r. add_A_multi_record now r data) rec Cache) (\<lambda>Cache.
            Inr (1, Cache))))))"

text \<open>Moving a record found by \<open>_get_cache_A_record\<close> to the front of the list.\<close>

definition relink_front :: "int \<Rightarrow> int \<Rightarrow> cache \<Rightarrow> cache result" where
  "relink_front rec addr Cache =
     bindE (linklist_remove_node addr Cache) (\<lambda>Cache.
     bindE (upd_record (\<lambda>x. x\<lparr>r_next := addr\<rparr>) LRU_BUFFER_HEAD_POINT Cache) (\<lambda>Cache.
     bindE (upd_record (\<lambda>x. x\<lparr>r_last := LRU_BUFFER_HEAD_POINT, r_next := c_first Cache\<rparr>) rec Cache)
       (\<lambda>Cache.
     bindE (upd_record (\<lambda>x. x\<lparr>r_last := addr\<rparr>) (c_first Cache) Cache) (\<lambda>Cache.
       Inr (Cache\<lparr>c_first := addr\<rparr>)))))"

text \<open>\<open>_get_cache_A_record\<close>: the chain found, empty for a null result.\<close>

definition get_cache_A_record_unlocked ::
  "int \<Rightarrow> cstring \<Rightarrow> cache \<Rightarrow> (record_data list \<times> cache) result" where
  "get_cache_A_record_unlocked now label Cache =
     (if \<not> c_is_init Cache then Inr ([], Cache)
      else bindE (find_record (cache_compare Cache) (c_label_hash Cache) label) (\<lambda>rp.
        case rp of None \<Rightarrow> Inr ([], Cache)
        | Some rec \<Rightarrow>
          bindE (arr_get (c_records Cache) rec) (\<lambda>r.
          bindE (check_A_record now r) (\<lambda>expired.
            if expired then bindE (remove_record rec Cache) (\<lambda>Cache. Inr ([], Cache))
            else
              let addr = get_record_addr Cache rec in
              bindE (if addr \<noteq> c_first Cache then relink_front rec addr Cache else Inr Cache) (\<lambda>Cache.
              bindE (arr_get (c_records Cache) rec) (\<lambda>r.
                case r_data r of Chain ds \<Rightarrow> Inr (ds, Cache) | Freed \<Rightarrow> Inl UseAfterFree))))))"

text \<open>The public operations hold the mutex around the work.\<close>

definition cache_lock :: "cache \<Rightarrow> cache result" where
  "cache_lock Cache = (if c_locked Cache then Inl SelfDeadlock else Inr (Cache\<lparr>c_locked := True\<rparr>))"

definition cache_unlock :: "cache \<Rightarrow> cache" where
  "cache_unlock Cache = Cache\<lparr>c_locked := False\<rparr>"

definition set_cache_A_record ::
  "int \<Rightarrow> cstring \<Rightarrow> record_data \<Rightarrow> cache \<Rightarrow> (int \<times> cache) prog" where
  "set_cache_A_record now label data Cache =
     bindP (Some (cache_lock Cache)) (\<lambda>Cache.
     bindP (set_cache_A_record_unlocked now label data Cache) (\<lambda>(val, Cache).
     Some (Inr (val, cache_unlock Cache))))"

definition set_cache_A_multi_record ::
  "int \<Rightarrow> cstring \<Rightarrow> record_data list \<Rightarrow> cache \<Rightarrow> (int \<times> cache) prog" where
  "set_cache_A_multi_record now label data Cache =
     bindP (Some (cache_lock Cache)) (\<lambda>Cache.
     bindP (set_cache_A_multi_record_unlocked now label data Cache) (\<lambda>(val, Cache).
     Some (Inr (val, cache_unlock Cache))))"

definition get_cache_A_record ::
  "int \<Rightarrow> cstring \<Rightarrow> cache \<Rightarrow> (record_data list \<times> cache) result" where
  "get_cache_A_record now label Cache =
     bindE (cache_lock Cache) (\<lambda>Cache.
     bindE (get_cache_A_record_unlocked now label Cache) (\<lambda>(tmp, Cache).
     Inr (tmp, cache_unlock Cache)))"

section \<open>Initialisation, disposal, self-test\<close>

definition null_record :: cache_record where
  "null_record = \<lparr>r_data = Chain [], r_next = 0, r_last = 0, r_size = 0, r_valid = False\<rparr>"

definition blank_hashtable :: "(cstring, int) hashtable" where
  "blank_hashtable = \<lparr>ht_nodes = [], ht_filling_factor = 0, ht_hash = (\<lambda>_. 0), ht_size = 0\<rparr>"

definition init_cache :: "int \<Rightarrow> int \<Rightarrow> rat \<Rightarrow> cache result" where
  "init_cache record_length max_size filling_factor =
     (let record_length = (if record_length \<le> 0 then LRU_BUFFER_LENGTH else record_length);
          max_size = (if max_size \<le> 0 then CACHE_SIZE else max_size);
          n = nat record_length;
          records = (replicate (n + 1) null_record)
            [nat LRU_BUFFER_HEAD_POINT := null_record\<lparr>r_last := - 1, r_next := - 1, r_valid := True\<rparr>];
          stack = map (\<lambda>i. record_length - int i) [0..<n];
          filling_factor =
            (if filling_factor \<le> 0 \<or> filling_factor > 1 then CACHE_FILLING_FACTOR else filling_factor)
      in bindE (init_hashtable blank_hashtable record_length filling_factor hash_label) (\<lambda>(_, h).
           Inr \<lparr>c_records = records, c_stack = stack, c_stack_top = record_length - 1,
                c_length = 0, c_max_length = n, c_used_size = 0, c_max_size = nat max_size,
                c_first = - 1, c_last = - 1, c_is_init = True, c_label_hash = h,
                c_locked = False\<rparr>))"

definition init_A_record_cache :: "int \<Rightarrow> int \<Rightarrow> rat \<Rightarrow> cache result" where
  "init_A_record_cache record_length max_size filling_factor =
     init_cache record_length max_size filling_factor"

definition init_A_record_cache_default :: "cache result" where
  "init_A_record_cache_default = init_cache LRU_BUFFER_LENGTH CACHE_SIZE CACHE_FILLING_FACTOR"

fun release_slots :: "nat \<Rightarrow> cache_record list \<Rightarrow> cache_record list result" where
  "release_slots 0 rs = Inr rs"
| "release_slots (Suc n) [] = Inl OutOfBounds"
| "release_slots (Suc n) (r # rs) =
     bindE (if r_valid r then realse_A_record r else Inr r) (\<lambda>r'.
     bindE (release_slots n rs) (\<lambda>rs'. Inr (r' # rs')))"

definition free_cache :: "cache \<Rightarrow> cache result" where
  "free_cache Cache =
     (if c_is_init Cache then
        bindE (release_slots (c_max_length Cache) (c_records Cache)) (\<lambda>rs.
          Inr (Cache\<lparr>c_is_init := False, c_records := [], c_stack := [],
                     c_label_hash := free_hashtable (c_label_hash Cache)\<rparr>))
      else Inr Cache)"

text \<open>
  \<open>test_normal\<close>: walk forward over at most \<open>length\<close> records, then backward, and compare the
  counts and the two ends with the structure's fields. Each walk returns the number of
  steps and the record it stopped at; the forward walk also the last link it followed.
\<close>

fun walk_next :: "cache_record list \<Rightarrow> nat \<Rightarrow> int \<Rightarrow> int \<Rightarrow> nat \<Rightarrow> (nat \<times> int \<times> int) result" where
  "walk_next rs 0 rec lst count = Inr (count, rec, lst)"
| "walk_next rs (Suc n) rec lst count =
     bindE (arr_get rs rec) (\<lambda>r.
       if r_next r \<noteq> - 1 then walk_next rs n (r_next r) (r_next r) (Suc count)
       else Inr (count, rec, lst))"

fun walk_last :: "cache_record list \<Rightarrow> nat \<Rightarrow> int \<Rightarrow> nat \<Rightarrow> (nat \<times> int) result" where
  "walk_last rs 0 rec count = Inr (count, rec)"
| "walk_last rs (Suc n) rec count =
     bindE (arr_get rs rec) (\<lambda>r.
       if r_last r \<ge> 0 then walk_last rs n (r_last r) (Suc count) else Inr (count, rec))"

definition test_normal :: "cache \<Rightarrow> unit result" where
  "test_normal Cache =
     bindE (walk_next (c_records Cache) (c_length Cache) LRU_BUFFER_HEAD_POINT 0 0)
       (\<lambda>(count, rec, lst).
     bindE (arr_get (c_records Cache) rec) (\<lambda>r.
     if count \<noteq> c_length Cache \<or> r_next r > 0 then Inl (Exit 1)
     else
       bindE (walk_last (c_records Cache) (c_length Cache) rec 0) (\<lambda>(count, rec').
       if count \<noteq> c_length Cache then Inl (Exit 1)
       else
         bindE (arr_get (c_records Cache) LRU_BUFFER_HEAD_POINT) (\<lambda>headr.
         if c_length Cache > 1 \<and> (c_first Cache \<noteq> r_next headr \<or> c_last Cache \<noteq> lst)
         then Inl (Exit 1) else Inr ()))))"

end
