(* ===== verification/LruList.thy ===== *)
theory LruList
  imports LruCache
begin

text \<open>
  The doubly linked list inside the record array. \<open>nx\<close> and \<open>pv\<close> read the two link fields;
  \<open>dl N P p xs\<close> says that following the links after node \<open>p\<close> visits exactly \<open>xs\<close>, with
  matching back links, and ends in \<open>-1\<close>; \<open>path\<close> is the same for an initial segment.
  The primitives of the code are shown to remove a node and to insert one at the front.
\<close>

section \<open>Lists in the array\<close>

definition nx :: "cache_record list \<Rightarrow> nat \<Rightarrow> int" where
  "nx rs i = r_next (rs ! i)"

definition pv :: "cache_record list \<Rightarrow> nat \<Rightarrow> int" where
  "pv rs i = r_last (rs ! i)"

fun path :: "(nat \<Rightarrow> int) \<Rightarrow> (nat \<Rightarrow> int) \<Rightarrow> nat \<Rightarrow> nat list \<Rightarrow> bool" where
  "path N P p [] \<longleftrightarrow> True"
| "path N P p (x # xs) \<longleftrightarrow> N p = int x \<and> P x = int p \<and> path N P x xs"

fun dl :: "(nat \<Rightarrow> int) \<Rightarrow> (nat \<Rightarrow> int) \<Rightarrow> nat \<Rightarrow> nat list \<Rightarrow> bool" where
  "dl N P p [] \<longleftrightarrow> N p = - 1"
| "dl N P p (x # xs) \<longleftrightarrow> N p = int x \<and> P x = int p \<and> dl N P x xs"

lemma dl_append: "dl N P p (xs @ ys) \<longleftrightarrow> path N P p xs \<and> dl N P (last (p # xs)) ys"
  by (induction xs arbitrary: p) auto

lemma path_append: "path N P p (xs @ ys) \<longleftrightarrow> path N P p xs \<and> path N P (last (p # xs)) ys"
  by (induction xs arbitrary: p) auto

lemma dl_path: "dl N P p xs \<longleftrightarrow> path N P p xs \<and> N (last (p # xs)) = - 1"
  by (induction xs arbitrary: p) auto

lemma path_upd_next [simp]: "i \<notin> set (butlast (p # xs)) \<Longrightarrow> path (N(i := v)) P p xs = path N P p xs"
  by (induction xs arbitrary: p) (auto split: if_splits)

lemma path_upd_prev [simp]: "i \<notin> set xs \<Longrightarrow> path N (P(i := v)) p xs = path N P p xs"
  by (induction xs arbitrary: p) auto

lemma dl_upd_next [simp]: "i \<notin> set (p # xs) \<Longrightarrow> dl (N(i := v)) P p xs = dl N P p xs"
  by (induction xs arbitrary: p) auto

lemma dl_upd_prev [simp]: "i \<notin> set xs \<Longrightarrow> dl N (P(i := v)) p xs = dl N P p xs"
  by (induction xs arbitrary: p) auto

lemma last_notin_butlast: "distinct xs \<Longrightarrow> xs \<noteq> [] \<Longrightarrow> last xs \<notin> set (butlast xs)"
  by (induction xs) (auto simp: last_in_set)

text \<open>Cutting a node out, and putting one in front.\<close>

lemma dl_cut:
  assumes "dl N P p (as @ x # bs)" and "distinct (p # as @ x # bs)"
  shows "N (last (p # as)) = int x" and "P x = int (last (p # as))"
    and "bs = [] \<Longrightarrow> N x = - 1" and "bs = b # bs' \<Longrightarrow> N x = int b"
    and "bs = [] \<Longrightarrow> dl (N(last (p # as) := - 1)) P p as"
    and "bs = b # bs' \<Longrightarrow> dl (N(last (p # as) := int b)) (P(b := int (last (p # as)))) p (as @ bs)"
proof -
  define l where "l = last (p # as)"
  have d: "path N P p as" "N l = int x" "P x = int l" "dl N P x bs"
    using assms(1) by (auto simp: dl_append l_def)
  have l: "l \<in> set (p # as)" "l \<notin> set (butlast (p # as))"
    using assms(2) last_notin_butlast [of "p # as"] by (auto simp: l_def)
  show "N (last (p # as)) = int x" "P x = int (last (p # as))" using d(2,3) by (simp_all add: l_def)
  show "bs = [] \<Longrightarrow> N x = - 1" "bs = b # bs' \<Longrightarrow> N x = int b" using d(4) by auto
  show "bs = [] \<Longrightarrow> dl (N(last (p # as) := - 1)) P p as"
    using d(1) l(2) by (simp add: dl_path l_def [symmetric] del: last.simps butlast.simps)
  assume bs: "bs = b # bs'"
  have "path (N(l := int b)) (P(b := int l)) p as"
    using d(1) l(2) assms(2) bs by simp
  moreover have "l \<notin> set (b # bs')" using l(1) assms(2) bs by auto
  then have "dl (N(l := int b)) (P(b := int l)) b bs'" using d(4) assms(2) bs by simp
  ultimately show "dl (N(last (p # as) := int b)) (P(b := int (last (p # as)))) p (as @ bs)"
    unfolding dl_append l_def [symmetric] using bs by simp
qed

lemma dl_push_Nil: "dl (N(x := - 1, p := int x)) (P(x := int p)) p [x]" if "x \<noteq> p"
  using that by simp

lemma dl_push_Cons:
  assumes "dl N P p (y # ys)" and "distinct (p # x # y # ys)"
  shows "dl (N(x := int y, p := int x)) (P(x := int p, y := int x)) p (x # y # ys)"
  using assms by auto

section \<open>Records that differ in their links only\<close>

definition same_data :: "cache_record list \<Rightarrow> cache_record list \<Rightarrow> bool" where
  "same_data rs rs' \<longleftrightarrow> length rs' = length rs \<and> (\<forall>i < length rs.
     r_data (rs' ! i) = r_data (rs ! i) \<and> r_size (rs' ! i) = r_size (rs ! i)
     \<and> r_valid (rs' ! i) = r_valid (rs ! i))"

lemma same_data_refl [simp]: "same_data rs rs"
  by (simp add: same_data_def)

lemma same_data_trans: "same_data rs rs' \<Longrightarrow> same_data rs' rs'' \<Longrightarrow> same_data rs rs''"
  by (simp add: same_data_def)

lemma same_data_link [intro]:
  "same_data rs rs' \<Longrightarrow> r_data r = r_data (rs' ! i) \<Longrightarrow> r_size r = r_size (rs' ! i)
     \<Longrightarrow> r_valid r = r_valid (rs' ! i) \<Longrightarrow> same_data rs (rs'[i := r])"
proof -
  assume a: "r_data r = r_data (rs' ! i)" "r_size r = r_size (rs' ! i)" "r_valid r = r_valid (rs' ! i)"
  have "r_data (rs'[i := r] ! j) = r_data (rs' ! j) \<and> r_size (rs'[i := r] ! j) = r_size (rs' ! j)
      \<and> r_valid (rs'[i := r] ! j) = r_valid (rs' ! j)" if "j < length rs'" for j
    using that a by (cases "j = i") simp_all
  then show "same_data rs rs' \<Longrightarrow> same_data rs (rs'[i := r])" by (simp add: same_data_def)
qed

lemma nx_upd [simp]: "i < length rs \<Longrightarrow> nx (rs[i := r]) = (nx rs)(i := r_next r)"
  by (rule ext) (simp add: nx_def nth_list_update)

lemma pv_upd [simp]: "i < length rs \<Longrightarrow> pv (rs[i := r]) = (pv rs)(i := r_last r)"
  by (rule ext) (simp add: pv_def nth_list_update)

lemma upd_record_nat [simp]:
  "i < length (c_records c) \<Longrightarrow> upd_record f (int i) c =
     Inr (c\<lparr>c_records := (c_records c)[i := f (c_records c ! i)]\<rparr>)"
  by (simp add: upd_record_def)

lemma upd_record_head [simp]:
  "0 < length (c_records c) \<Longrightarrow> upd_record f LRU_BUFFER_HEAD_POINT c =
     Inr (c\<lparr>c_records := (c_records c)[0 := f (c_records c ! 0)]\<rparr>)"
  by (simp add: upd_record_def LRU_BUFFER_HEAD_POINT_def)

section \<open>The primitives on the list\<close>

lemma linklist_remove_node_ok:
  assumes dl: "dl (nx rs) (pv rs) 0 (as @ x # bs)" and dist: "distinct (0 # as @ x # bs)"
    and len: "\<And>y. y \<in> set (as @ x # bs) \<Longrightarrow> y < length rs" and rs: "rs = c_records c"
  shows "\<exists>rs'. linklist_remove_node (int x) c =
      Inr (c\<lparr>c_records := rs', c_last := (if bs = [] then int (last (0 # as)) else c_last c)\<rparr>)
    \<and> same_data rs rs' \<and> dl (nx rs') (pv rs') 0 (as @ bs)"
proof -
  define l where "l = last (0 # as)"
  note cut = dl_cut [OF dl dist, folded l_def]
  have x: "x < length rs" and l: "l < length rs" "l \<noteq> x"
    using len [of x] len [of l] dist by (auto simp: l_def split: if_splits)
  have fields: "r_last (rs ! x) = int l" "r_next (rs ! l) = int x"
    using cut(1,2) by (simp_all add: nx_def pv_def)
  show ?thesis
  proof (cases bs)
    case Nil
    then have "r_next (rs ! x) = - 1" using cut(3) by (simp add: nx_def)
    then have "linklist_remove_node (int x) c =
        Inr (c\<lparr>c_records := rs[l := (rs ! l)\<lparr>r_next := - 1\<rparr>], c_last := int l\<rparr>)"
      using x l fields by (simp add: linklist_remove_node_def rs)
    moreover have "pv rs = (pv rs)(l := r_last (rs ! l))" by (auto simp: pv_def)
    moreover have "same_data rs (rs[l := (rs ! l)\<lparr>r_next := - 1\<rparr>])" by (intro same_data_link) simp_all
    ultimately show ?thesis
      unfolding l_def [symmetric] using cut(5) Nil l
      by (intro exI [of _ "rs[l := (rs ! l)\<lparr>r_next := - 1\<rparr>]"]) simp
  next
    case (Cons b bs')
    have b: "b < length rs" "0 < b" "b \<noteq> l" "b \<noteq> x"
      using len [of b] dist Cons by (auto simp: l_def split: if_splits)
    let ?rs1 = "rs[l := (rs ! l)\<lparr>r_next := int b\<rparr>]"
    let ?rs' = "?rs1[b := (?rs1 ! b)\<lparr>r_last := int l\<rparr>]"
    have "r_next (rs ! x) = int b" using cut(4) Cons by (simp add: nx_def)
    then have "linklist_remove_node (int x) c = Inr (c\<lparr>c_records := ?rs'\<rparr>)"
      using x l b fields by (simp add: linklist_remove_node_def rs)
    moreover have "nx ?rs' = (nx rs)(l := int b)" "pv ?rs' = (pv rs)(b := int l)"
      using l b by (auto simp: nx_def pv_def fun_eq_iff nth_list_update)
    moreover have "same_data rs ?rs'" by (intro same_data_link) simp_all
    ultimately show ?thesis
      using cut(6) [OF Cons] Cons by (intro exI [of _ ?rs']) simp
  qed
qed

lemma link_first_ok:
  assumes dl: "dl (nx rs) (pv rs) 0 ys" and dist: "distinct (0 # x # ys)"
    and len: "\<And>y. y \<in> set (x # ys) \<Longrightarrow> y < length rs" and rs: "rs = c_records c"
    and first: "ys \<noteq> [] \<Longrightarrow> c_first c = int (hd ys)"
    and n: "1 < c_length c \<longleftrightarrow> ys \<noteq> []"
  shows "\<exists>rs'. link_first (int x) (int x) c =
      Inr (c\<lparr>c_records := rs', c_first := int x, c_last := (if ys = [] then int x else c_last c)\<rparr>)
    \<and> same_data rs rs' \<and> dl (nx rs') (pv rs') 0 (x # ys)"
proof (cases ys)
  case Nil
  let ?rs1 = "rs[x := (rs ! x)\<lparr>r_next := - 1, r_last := 0\<rparr>]"
  let ?rs' = "?rs1[0 := (?rs1 ! 0)\<lparr>r_next := int x\<rparr>]"
  have x: "x < length rs" "0 < x" "0 < length rs" using len [of x] dist by auto
  then have "link_first (int x) (int x) c =
      Inr (c\<lparr>c_records := ?rs', c_first := int x, c_last := int x\<rparr>)"
    using n Nil by (simp add: link_first_def rs) (simp add: LRU_BUFFER_HEAD_POINT_def)
  moreover have "nx ?rs' = (nx rs)(x := - 1, 0 := int x)" "pv ?rs' = (pv rs)(x := int 0)"
    using x by (auto simp: nx_def pv_def fun_eq_iff nth_list_update)
  moreover have "same_data rs ?rs'" by (intro same_data_link) simp_all
  ultimately show ?thesis
    using x Nil by (intro exI [of _ ?rs']) simp
next
  case (Cons y ys')
  let ?rs1 = "rs[x := (rs ! x)\<lparr>r_next := int y, r_last := 0\<rparr>]"
  let ?rs2 = "?rs1[y := (?rs1 ! y)\<lparr>r_last := int x\<rparr>]"
  let ?rs' = "?rs2[0 := (?rs2 ! 0)\<lparr>r_next := int x\<rparr>]"
  have x: "x < length rs" "0 < x" "y < length rs" "0 < y" "x \<noteq> y" "0 < length rs"
    using len [of x] len [of y] dist Cons by auto
  then have "link_first (int x) (int x) c = Inr (c\<lparr>c_records := ?rs', c_first := int x\<rparr>)"
    using n first Cons by (simp add: link_first_def rs) (simp add: LRU_BUFFER_HEAD_POINT_def)
  moreover have "nx ?rs' = (nx rs)(x := int y, 0 := int x)"
    "pv ?rs' = (pv rs)(x := int 0, y := int x)"
    using x by (auto simp: nx_def pv_def fun_eq_iff nth_list_update)
  moreover have "same_data rs ?rs'" by (intro same_data_link) simp_all
  ultimately show ?thesis
    using dl_push_Cons [of "nx rs" "pv rs" 0 y ys' x] dl dist Cons by (intro exI [of _ ?rs']) simp
qed

lemma relink_front_ok:
  assumes dl: "dl (nx rs) (pv rs) 0 (as @ x # bs)" and dist: "distinct (0 # as @ x # bs)"
    and len: "\<And>y. y \<in> set (as @ x # bs) \<Longrightarrow> y < length rs" and rs: "rs = c_records c"
    and as: "as \<noteq> []" and first: "c_first c = int (hd as)"
  shows "\<exists>rs'. relink_front (int x) (int x) c =
      Inr (c\<lparr>c_records := rs', c_first := int x,
             c_last := (if bs = [] then int (last as) else c_last c)\<rparr>)
    \<and> same_data rs rs' \<and> dl (nx rs') (pv rs') 0 (x # as @ bs)"
proof -
  obtain rs1 where rem: "linklist_remove_node (int x) c =
      Inr (c\<lparr>c_records := rs1, c_last := (if bs = [] then int (last (0 # as)) else c_last c)\<rparr>)"
    and sd: "same_data rs rs1" and dl1: "dl (nx rs1) (pv rs1) 0 (as @ bs)"
    using linklist_remove_node_ok [OF dl dist len rs] by blast
  obtain y ys where ys: "as @ bs = y # ys" "y = hd as" using as by (cases as) auto
  let ?rs2 = "rs1[0 := (rs1 ! 0)\<lparr>r_next := int x\<rparr>]"
  let ?rs3 = "?rs2[x := (?rs2 ! x)\<lparr>r_last := 0, r_next := int y\<rparr>]"
  let ?rs' = "?rs3[y := (?rs3 ! y)\<lparr>r_last := int x\<rparr>]"
  have yin: "y \<in> set (as @ bs)" using ys(1) by simp
  have x: "x < length rs1" "0 < x" "y < length rs1" "0 < y" "x \<noteq> y" "0 < length rs1"
    using len [of x] len [of y] dist yin sd by (auto simp: same_data_def)
  then have "relink_front (int x) (int x) c =
      Inr (c\<lparr>c_records := ?rs', c_first := int x,
             c_last := (if bs = [] then int (last as) else c_last c)\<rparr>)"
    using first as ys(2) by (simp add: relink_front_def rem) (simp add: LRU_BUFFER_HEAD_POINT_def)
  moreover have "nx ?rs' = (nx rs1)(x := int y, 0 := int x)"
    "pv ?rs' = (pv rs1)(x := int 0, y := int x)"
    using x by (auto simp: nx_def pv_def fun_eq_iff nth_list_update)
  moreover have "same_data rs ?rs'" by (intro same_data_link sd) simp_all
  moreover have "distinct (0 # x # y # ys)" using dist by (simp flip: ys(1))
  then have "dl ((nx rs1)(x := int y, 0 := int x)) ((pv rs1)(x := int 0, y := int x)) 0 (x # y # ys)"
    using dl1 ys(1) by (intro dl_push_Cons) simp_all
  ultimately show ?thesis
    using ys(1) by (intro exI [of _ ?rs']) simp
qed

end
