(* ===== verification/LruInvariant.thy ===== *)
theory LruInvariant
  imports LruList
begin

text \<open>
  The invariant of the LRU cache and the fact that every operation that does not evict or
  expire keeps it. \<open>xs\<close> is the list of the occupied slots, most recently used first.
\<close>

section \<open>The invariant\<close>

definition rec_chain :: "cache_record \<Rightarrow> record_data list" where
  "rec_chain r = (case r_data r of Chain ds \<Rightarrow> ds | Freed \<Rightarrow> [])"

definition rec_label :: "cache_record \<Rightarrow> cstring" where
  "rec_label r = (case rec_chain r of [] \<Rightarrow> [] | d # _ \<Rightarrow> rd_label d)"

definition live :: "cache_record \<Rightarrow> bool" where
  "live r \<longleftrightarrow> r_valid r \<and> r_size r > 0 \<and> rec_chain r \<noteq> []"

definition key_of :: "cache_record list \<Rightarrow> int \<Rightarrow> cstring" where
  "key_of rs i = rec_label (rs ! nat i)"

text \<open>\<open>cache_stack_pop\<close> never hands out the bottom entry of the stack.\<close>

definition free_slots :: "cache \<Rightarrow> int list" where
  "free_slots c = take (nat (c_stack_top c)) (drop 1 (c_stack c))"

definition slots_ok :: "nat list \<Rightarrow> cache \<Rightarrow> bool" where
  "slots_ok xs c \<longleftrightarrow>
     1 \<le> c_max_length c \<and> c_max_length c < 2 ^ 31
     \<and> length (c_records c) = c_max_length c + 1 \<and> length (c_stack c) = c_max_length c
     \<and> distinct xs \<and> set xs \<subseteq> {0<..<c_max_length c} \<and> c_length c = length xs
     \<and> c_stack_top c = int (c_max_length c) - 1 - int (length xs)
     \<and> distinct (free_slots c) \<and> set (free_slots c) \<subseteq> int ` ({0<..<c_max_length c} - set xs)"

definition links_ok :: "nat list \<Rightarrow> cache \<Rightarrow> bool" where
  "links_ok xs c \<longleftrightarrow> dl (nx (c_records c)) (pv (c_records c)) 0 xs
     \<and> (xs \<noteq> [] \<longrightarrow> c_first c = int (hd xs) \<and> c_last c = int (last xs))"

definition head_ok :: "cache_record list \<Rightarrow> bool" where
  "head_ok rs \<longleftrightarrow> r_data (rs ! 0) = Chain [] \<and> r_size (rs ! 0) = 0"

definition store_ok :: "nat list \<Rightarrow> cache \<Rightarrow> bool" where
  "store_ok xs c \<longleftrightarrow> (\<forall>x\<in>set xs. live (c_records c ! x)) \<and> head_ok (c_records c)
     \<and> ht_invar (key_of (c_records c)) (int ` set xs) (c_label_hash c)"

definition lru_inv :: "nat list \<Rightarrow> cache \<Rightarrow> bool" where
  "lru_inv xs c \<longleftrightarrow> c_is_init c \<and> slots_ok xs c \<and> links_ok xs c \<and> store_ok xs c"

lemma lru_invI:
  "c_is_init c \<Longrightarrow> slots_ok xs c \<Longrightarrow> links_ok xs c \<Longrightarrow> (\<And>x. x \<in> set xs \<Longrightarrow> live (c_records c ! x))
     \<Longrightarrow> head_ok (c_records c) \<Longrightarrow> ht_invar (key_of (c_records c)) (int ` set xs) (c_label_hash c)
     \<Longrightarrow> lru_inv xs c"
  by (simp add: lru_inv_def store_ok_def)

lemmas lru_inv_defs = lru_inv_def slots_ok_def links_ok_def store_ok_def

text \<open>Room for one more entry without eviction.\<close>

definition has_room :: "cache \<Rightarrow> bool" where
  "has_room c \<longleftrightarrow> \<not> is_full c \<and> size_add (c_used_size c) 1024 \<le> c_max_size c"

section \<open>Consequences\<close>

lemma first_data_live: "live r \<Longrightarrow> \<exists>d. first_data r = Inr d \<and> rd_label d = rec_label r"
  by (auto simp: live_def first_data_def rec_label_def rec_chain_def
      split: data_ptr.splits list.splits)

lemma label_live: "live r \<Longrightarrow> get_cache_A_record_label r = Inr (rec_label r)"
  using first_data_live [of r] by (auto simp: get_cache_A_record_label_def)

lemma agrees_live:
  assumes "\<And>x. x \<in> S \<Longrightarrow> x < length rs \<and> live (rs ! x)"
  shows "agrees (compare_record_with_label rs) (key_of rs) (int ` S)"
  using assms
  by (auto simp: agrees_def compare_record_with_label_def key_of_def label_live)
    (auto simp: live_def)

lemma lru_inv_in:
  assumes "lru_inv xs c" and "x \<in> set xs"
  shows "0 < x" and "x < c_max_length c" and "x < length (c_records c)" and "live (c_records c ! x)"
  using assms by (auto simp: lru_inv_defs)

lemma lru_inv_agrees:
  "lru_inv xs c \<Longrightarrow> agrees (cache_compare c) (key_of (c_records c)) (int ` set xs)"
  unfolding cache_compare_def by (rule agrees_live) (auto dest: lru_inv_in)

lemma get_record_addr_in [simp]:
  "0 < x \<Longrightarrow> x \<le> c_max_length c \<Longrightarrow> get_record_addr c (int x) = int x"
  by (simp add: get_record_addr_def)

lemma lru_inv_length: "lru_inv xs c \<Longrightarrow> length xs < c_max_length c"
proof -
  assume inv: "lru_inv xs c"
  then have "card (set xs) \<le> card {0<..<c_max_length c}"
    by (intro card_mono) (auto simp: lru_inv_defs)
  with inv show ?thesis by (auto simp: lru_inv_defs distinct_card)
qed

lemma is_full_iff: "lru_inv xs c \<Longrightarrow> is_full c \<longleftrightarrow> Suc (length xs) = c_max_length c"
  using lru_inv_length [of xs c] by (auto simp: is_full_def lru_inv_defs)

lemma same_data_key:
  "same_data rs rs' \<Longrightarrow> x < length rs \<Longrightarrow> key_of rs' (int x) = key_of rs (int x)"
  by (simp add: same_data_def key_of_def rec_label_def rec_chain_def)

lemma same_data_live: "same_data rs rs' \<Longrightarrow> x < length rs \<Longrightarrow> live (rs' ! x) = live (rs ! x)"
  by (simp add: same_data_def live_def rec_chain_def)

lemma same_data_chain:
  "same_data rs rs' \<Longrightarrow> x < length rs \<Longrightarrow> rec_chain (rs' ! x) = rec_chain (rs ! x)"
  by (simp add: same_data_def rec_chain_def)

lemma ht_invar_same_data:
  assumes "ht_invar (key_of rs) (int ` S) h" and "same_data rs rs'"
    and "\<And>y. y \<in> S \<Longrightarrow> y < length rs"
  shows "ht_invar (key_of rs') (int ` S) h"
proof (rule ht.invar_key [OF assms(1)])
  show "key_of rs' r = key_of rs r" if "r \<in> int ` S" for r
    using that assms(2,3) by (auto simp: same_data_key)
qed

lemma same_data_sym: "same_data rs rs' \<Longrightarrow> same_data rs' rs"
  by (simp add: same_data_def)

lemma store_ok_same_data:
  assumes "same_data (c_records c) (c_records c')" and "store_ok xs c" and "set ys \<subseteq> set xs"
    and "set xs \<subseteq> set ys"
    and "\<And>x. x \<in> set xs \<Longrightarrow> x < length (c_records c)" and "0 < length (c_records c)"
    and "c_label_hash c' = c_label_hash c"
  shows "store_ok ys c'"
proof -
  have "set ys = set xs" using assms(3,4) by blast
  moreover have "ht_invar (key_of (c_records c')) (int ` set xs) (c_label_hash c)"
    using assms(2) by (intro ht_invar_same_data [OF _ assms(1,5)]) (simp add: store_ok_def)
  ultimately show ?thesis
    using assms by (auto simp: store_ok_def same_data_live head_ok_def same_data_def)
qed

section \<open>Free slots\<close>

lemma free_slots_cong: "c_stack c' = c_stack c \<Longrightarrow> c_stack_top c' = c_stack_top c
    \<Longrightarrow> free_slots c' = free_slots c"
  by (simp add: free_slots_def)

lemma free_slots_pop:
  assumes "0 < c_stack_top c" and "c_stack_top c < int (length (c_stack c))"
  shows "free_slots c = free_slots (c\<lparr>c_stack_top := c_stack_top c - 1\<rparr>)
    @ [c_stack c ! nat (c_stack_top c)]"
proof -
  define k where "k = nat (c_stack_top c) - 1"
  have k: "nat (c_stack_top c) = Suc k" "nat (c_stack_top c - 1) = k" "Suc k < length (c_stack c)"
    using assms by (auto simp: k_def)
  then show ?thesis by (simp add: free_slots_def take_Suc_conv_app_nth)
qed

lemma free_slots_push:
  assumes "0 \<le> c_stack_top c" and "c_stack_top c + 1 < int (length (c_stack c))"
  shows "free_slots (c\<lparr>c_stack := (c_stack c)[nat (c_stack_top c + 1) := x],
      c_stack_top := c_stack_top c + 1\<rparr>) = free_slots c @ [x]"
proof -
  define k where "k = nat (c_stack_top c)"
  have k: "nat (c_stack_top c + 1) = Suc k" "nat (c_stack_top c) = k" "Suc k < length (c_stack c)"
    using assms by (auto simp: k_def)
  have "take (Suc k) (drop 1 ((c_stack c)[Suc k := x])) = take k (drop 1 (c_stack c)) @ [x]"
    using k(3) by (simp add: take_Suc_conv_app_nth drop_update_swap)
  with k show ?thesis by (simp add: free_slots_def)
qed

text \<open>Taking a slot for a new entry.\<close>

lemma cache_stack_pop_ok:
  assumes inv: "slots_ok xs c" and room: "Suc (length xs) < c_max_length c"
  shows "\<exists>x. cache_stack_pop c = Inr (int x, c\<lparr>c_stack_top := c_stack_top c - 1\<rparr>)
    \<and> 0 < x \<and> x < c_max_length c \<and> x \<notin> set xs
    \<and> slots_ok (x # xs) (c\<lparr>c_stack_top := c_stack_top c - 1, c_length := Suc (length xs)\<rparr>)"
proof -
  have top: "0 < c_stack_top c" "c_stack_top c < int (length (c_stack c))"
    using inv room by (auto simp: slots_ok_def)
  note fs = free_slots_pop [OF top]
  have "c_stack c ! nat (c_stack_top c) \<in> set (free_slots c)" by (simp add: fs)
  then obtain x where x: "c_stack c ! nat (c_stack_top c) = int x" "0 < x" "x < c_max_length c"
      "x \<notin> set xs"
    using inv by (auto simp: slots_ok_def)
  let ?c = "c\<lparr>c_stack_top := c_stack_top c - 1, c_length := Suc (length xs)\<rparr>"
  have "free_slots ?c = free_slots (c\<lparr>c_stack_top := c_stack_top c - 1\<rparr>)"
    by (simp add: free_slots_def)
  then have fs': "free_slots c = free_slots ?c @ [int x]" using fs x(1) by simp
  have "distinct (free_slots c)" "set (free_slots c) \<subseteq> int ` ({0<..<c_max_length c} - set xs)"
    using inv by (auto simp: slots_ok_def)
  then have "distinct (free_slots ?c)"
    "set (free_slots ?c) \<subseteq> int ` ({0<..<c_max_length c} - set (x # xs))"
    unfolding fs' by auto
  then have "slots_ok (x # xs) ?c"
    using inv x by (auto simp: slots_ok_def)
  then show ?thesis
    using top x by (auto simp: cache_stack_pop_def)
qed

section \<open>Reserving the first place for a label\<close>

text \<open>\<open>pushed label xs x c c'\<close>: slot \<open>x\<close> heads the list and is indexed under \<open>label\<close>, the
  other entries are as before; the data of a fresh slot are still to be written.\<close>

definition pushed :: "cstring \<Rightarrow> nat list \<Rightarrow> nat \<Rightarrow> cache \<Rightarrow> cache \<Rightarrow> bool" where
  "pushed label xs x c c' \<longleftrightarrow>
     c_is_init c' \<and> slots_ok (x # removeAll x xs) c' \<and> links_ok (x # removeAll x xs) c'
     \<and> ht_invar ((key_of (c_records c'))(int x := label)) (int ` insert x (set xs)) (c_label_hash c')
     \<and> head_ok (c_records c')
     \<and> (\<forall>y\<in>set xs. y \<noteq> x \<longrightarrow> live (c_records c' ! y)
          \<and> rec_chain (c_records c' ! y) = rec_chain (c_records c ! y))
     \<and> r_valid (c_records c' ! x)
     \<and> (if x \<in> set xs then live (c_records c' ! x) \<and> rec_label (c_records c ! x) = label
        else r_size (c_records c' ! x) = 0 \<and> label \<notin> (\<lambda>y. rec_label (c_records c ! y)) ` set xs)
     \<and> c_used_size c' = c_used_size c \<and> c_max_size c' = c_max_size c
     \<and> c_max_length c' = c_max_length c \<and> c_locked c' = c_locked c"

lemma slots_ok_cong:
  assumes "slots_ok xs c" and "distinct ys" and "set ys = set xs"
    and "c_max_length c' = c_max_length c" and "length (c_records c') = length (c_records c)"
    and "c_stack c' = c_stack c" and "c_stack_top c' = c_stack_top c" and "c_length c' = c_length c"
  shows "slots_ok ys c'"
proof -
  have "length ys = length xs"
    using assms(1-3) by (metis distinct_card slots_ok_def)
  then show ?thesis
    using assms free_slots_cong [OF assms(6,7)] by (simp add: slots_ok_def)
qed

lemma removeAll_split: "distinct (as @ x # bs) \<Longrightarrow> removeAll x (as @ x # bs) = as @ bs"
  by simp

lemma has_room_push:
  "has_room c \<Longrightarrow> push_front label c =
     Some (bindE (claim_record label c) (\<lambda>(rec, addr, to_link, Cache).
       if to_link then bindE (link_first rec addr Cache) (\<lambda>Cache. Inr (rec, Cache))
       else Inr (rec, Cache)))"
  by (simp add: has_room_def push_front_def reserve_loop.simps)

text \<open>A label that is present.\<close>

lemma lru_inv_front:
  assumes inv: "lru_inv (as @ x # bs) c" and dl: "dl (nx rs') (pv rs') 0 (x # as @ bs)"
    and sd: "same_data (c_records c) rs'" and ne: "as \<noteq> []"
    and c': "c' = c\<lparr>c_records := rs', c_first := int x,
      c_last := (if bs = [] then int (last as) else c_last c)\<rparr>"
  shows "lru_inv (x # as @ bs) c'"
proof -
  have sl: "slots_ok (as @ x # bs) c" using inv by (simp add: lru_inv_def)
  have "slots_ok (x # as @ bs) c'"
    by (rule slots_ok_cong [OF sl]) (use sl sd c' in \<open>auto simp: slots_ok_def same_data_def\<close>)
  moreover have "links_ok (x # as @ bs) c'"
    using inv dl ne by (simp add: links_ok_def lru_inv_def c' last_append)
  moreover have "store_ok (x # as @ bs) c'"
    by (rule store_ok_same_data [of c _ "as @ x # bs"])
      (use inv sd lru_inv_in(3) [OF inv] in \<open>auto simp: lru_inv_defs c'\<close>)
  ultimately show ?thesis using inv by (simp add: lru_inv_def c')
qed

lemma pushed_front:
  assumes inv: "lru_inv xs c" and inv': "lru_inv (x # removeAll x xs) c'" and x: "x \<in> set xs"
    and sd: "same_data (c_records c) (c_records c')" and "label = rec_label (c_records c ! x)"
    and "c_used_size c' = c_used_size c" and "c_max_size c' = c_max_size c"
    and "c_max_length c' = c_max_length c" and "c_locked c' = c_locked c"
  shows "pushed label xs x c c'"
proof -
  have len: "y < length (c_records c)" if "y \<in> set xs" for y using inv that by (rule lru_inv_in)
  have "insert x (set (removeAll x xs)) = set xs" using x by auto
  then have "ht_invar (key_of (c_records c')) (int ` set xs) (c_label_hash c')"
    using inv' by (simp add: lru_inv_def store_ok_def)
  moreover have "(key_of (c_records c'))(int x := label) = key_of (c_records c')"
    using same_data_key [OF sd len [OF x]] assms(5) by (auto simp: key_of_def)
  ultimately have "ht_invar ((key_of (c_records c'))(int x := label)) (int ` insert x (set xs))
      (c_label_hash c')"
    using x by (simp add: insert_absorb)
  moreover have "live (c_records c' ! y)" "rec_chain (c_records c' ! y) = rec_chain (c_records c ! y)"
    if "y \<in> set xs" for y
    using lru_inv_in(4) [OF inv that] same_data_live [OF sd len [OF that]]
      same_data_chain [OF sd len [OF that]] by simp_all
  ultimately show ?thesis
    using inv' x assms(5-) by (auto simp: pushed_def lru_inv_def store_ok_def live_def)
qed

lemma push_front_present:
  assumes inv: "lru_inv xs c" and room: "has_room c" and x: "x \<in> set xs"
    and label: "label = rec_label (c_records c ! x)"
  shows "\<exists>c'. push_front label c = Some (Inr (int x, c')) \<and> pushed label xs x c c'"
proof -
  have key: "label = key_of (c_records c) (int x)" by (simp add: key_of_def label)
  have hash: "ht_invar (key_of (c_records c)) (int ` set xs) (c_label_hash c)"
    using inv by (simp add: lru_inv_def store_ok_def)
  obtain node where node: "set_hashnode (cache_compare c) (c_label_hash c) label None
      = Inr ((node, True), c_label_hash c)" "node_record (c_label_hash c) node = Inr (Some (int x))"
    using set_hashnode_present [OF hash lru_inv_agrees [OF inv], of "int x"] x
    by (auto simp: key)
  obtain as bs where xs: "xs = as @ x # bs" using x by (auto dest: split_list)
  have dist: "distinct (0 # as @ x # bs)" and dl: "dl (nx (c_records c)) (pv (c_records c)) 0 (as @ x # bs)"
    and first: "c_first c = int (hd xs)"
    using inv xs by (auto simp: lru_inv_defs)
  have addr: "get_record_addr c (int x) = int x"
    using lru_inv_in [OF inv x] by simp
  show ?thesis
  proof (cases as)
    case Nil
    then have "claim_record label c = Inr (int x, int x, False, c)"
      using node addr first xs by (simp add: claim_record_def Let_def)
    moreover have "x # removeAll x xs = xs" using xs Nil dist by simp
    then have "pushed label xs x c c"
      using inv x label by (intro pushed_front) simp_all
    ultimately show ?thesis by (simp add: has_room_push [OF room])
  next
    case (Cons y ys)
    have ne: "int x \<noteq> c_first c" using first xs Cons dist by auto
    obtain rs1 where rem: "linklist_remove_node (int x) c = Inr (c\<lparr>c_records := rs1,
          c_last := (if bs = [] then int (last (0 # as)) else c_last c)\<rparr>)" (is "_ = Inr ?c1")
      and sd1: "same_data (c_records c) rs1" and dl1: "dl (nx rs1) (pv rs1) 0 (as @ bs)"
      using linklist_remove_node_ok [OF dl dist _ refl] lru_inv_in(3) [OF inv] xs by auto
    have len1: "z < length rs1" if "z \<in> set xs" for z
      using lru_inv_in(3) [OF inv that] sd1 by (simp add: same_data_def)
    obtain rs2 where lf: "link_first (int x) (int x) ?c1 = Inr (?c1\<lparr>c_records := rs2,
          c_first := int x, c_last := c_last ?c1\<rparr>)" (is "_ = Inr ?c2")
      and sd2: "same_data rs1 rs2" and dl2: "dl (nx rs2) (pv rs2) 0 (x # as @ bs)"
      using link_first_ok [OF dl1, of x ?c1] dist len1 xs Cons first inv
      by (auto simp: lru_inv_defs)
    have "claim_record label c = Inr (int x, int x, True, ?c1)"
      using node addr ne rem by (simp add: claim_record_def Let_def)
    then have "push_front label c = Some (Inr (int x, ?c2))"
      by (simp add: has_room_push [OF room] lf)
    moreover have sd: "same_data (c_records c) rs2" using sd1 sd2 by (rule same_data_trans)
    have "lru_inv (x # as @ bs) ?c2"
      by (rule lru_inv_front [of as x bs c rs2]) (use inv dl2 sd xs Cons in auto)
    then have "pushed label xs x c ?c2"
      using inv x label sd xs dist by (intro pushed_front) simp_all
    ultimately show ?thesis by blast
  qed
qed

text \<open>A label that is absent takes a free slot.\<close>

lemma claim_record_new:
  assumes inv: "lru_inv xs c" and room: "has_room c"
    and label: "label \<notin> (\<lambda>y. rec_label (c_records c ! y)) ` set xs"
  obtains x h where "claim_record label c = Inr (int x, int x, True,
      c\<lparr>c_label_hash := h, c_stack_top := c_stack_top c - 1, c_length := Suc (length xs),
        c_records := (c_records c)[x := (c_records c ! x)\<lparr>r_valid := True, r_size := 0\<rparr>]\<rparr>)"
    and "0 < x" and "x < c_max_length c" and "x \<notin> set xs"
    and "slots_ok (x # xs) (c\<lparr>c_stack_top := c_stack_top c - 1, c_length := Suc (length xs)\<rparr>)"
    and "ht_invar ((key_of (c_records c))(int x := label)) (int ` insert x (set xs)) h"
proof -
  have hash: "ht_invar (key_of (c_records c)) (int ` set xs) (c_label_hash c)"
    and len: "c_length c = length xs" "c_max_length c < 2 ^ 31" "length (c_records c) = Suc (c_max_length c)"
    and sl: "slots_ok xs c"
    using inv by (auto simp: lru_inv_defs)
  have "label \<notin> key_of (c_records c) ` int ` set xs" using label by (auto simp: key_of_def)
  then obtain node h1 where node: "set_hashnode (cache_compare c) (c_label_hash c) label None
      = Inr ((node, False), h1)"
    and fill: "\<And>r. r \<notin> int ` set xs \<Longrightarrow> \<exists>h2. set_node_record h1 node (Some r) = Inr h2
      \<and> ht_invar ((key_of (c_records c))(r := label)) (insert r (int ` set xs)) h2"
    using set_hashnode_then_fill [OF hash lru_inv_agrees [OF inv]] by metis
  have "\<not> is_full c" using room by (simp add: has_room_def)
  then have lt: "Suc (length xs) < c_max_length c"
    using is_full_iff [OF inv] lru_inv_length [OF inv] by simp
  obtain x where pop: "cache_stack_pop c = Inr (int x, c\<lparr>c_stack_top := c_stack_top c - 1\<rparr>)"
    and x: "0 < x" "x < c_max_length c" "x \<notin> set xs"
    and sl': "slots_ok (x # xs) (c\<lparr>c_stack_top := c_stack_top c - 1, c_length := Suc (length xs)\<rparr>)"
    using cache_stack_pop_ok [OF sl lt] by blast
  obtain h2 where h2: "set_node_record h1 node (Some (int x)) = Inr h2"
    "ht_invar ((key_of (c_records c))(int x := label)) (int ` insert x (set xs)) h2"
    using fill [of "int x"] x(3) by (auto simp: image_iff)
  have "cache_stack_pop (c\<lparr>c_label_hash := h1\<rparr>) =
      Inr (int x, c\<lparr>c_label_hash := h1, c_stack_top := c_stack_top c - 1\<rparr>)"
    using pop by (auto simp: cache_stack_pop_def bindE_Inr_iff split: if_splits)
  then have "claim_record label c = Inr (int x, int x, True,
      c\<lparr>c_label_hash := h2, c_stack_top := c_stack_top c - 1, c_length := Suc (length xs),
        c_records := (c_records c)[x := (c_records c ! x)\<lparr>r_valid := True, r_size := 0\<rparr>]\<rparr>)"
    using h2(1) x len lt by (simp add: claim_record_def node Let_def)
  with that x sl' h2(2) show ?thesis by blast
qed

lemma push_front_new:
  assumes inv: "lru_inv xs c" and room: "has_room c"
    and label: "label \<notin> (\<lambda>y. rec_label (c_records c ! y)) ` set xs"
  shows "\<exists>x c'. push_front label c = Some (Inr (int x, c')) \<and> x \<notin> set xs \<and> pushed label xs x c c'"
proof -
  define rs where "rs = c_records c"
  obtain x h where claim: "claim_record label c = Inr (int x, int x, True,
      c\<lparr>c_label_hash := h, c_stack_top := c_stack_top c - 1, c_length := Suc (length xs),
        c_records := rs[x := (rs ! x)\<lparr>r_valid := True, r_size := 0\<rparr>]\<rparr>)" (is "_ = Inr (_, _, _, ?c1)")
    and x: "0 < x" "x < c_max_length c" "x \<notin> set xs"
    and sl: "slots_ok (x # xs) (c\<lparr>c_stack_top := c_stack_top c - 1, c_length := Suc (length xs)\<rparr>)"
    and hash: "ht_invar ((key_of rs)(int x := label)) (int ` insert x (set xs)) h"
    using claim_record_new [OF assms] unfolding rs_def by metis
  have len: "length rs = Suc (c_max_length c)" "\<And>y. y \<in> set xs \<Longrightarrow> y < length rs"
    and dl: "dl (nx rs) (pv rs) 0 xs" and dist: "distinct (0 # x # xs)"
    using inv x by (auto simp: lru_inv_defs rs_def)
  let ?rs1 = "c_records ?c1"
  have "nx ?rs1 = nx rs" "pv ?rs1 = pv rs"
    using x(2) len(1) by (auto simp: nx_def pv_def fun_eq_iff nth_list_update)
  then have "\<exists>rs'. link_first (int x) (int x) ?c1 = Inr (?c1\<lparr>c_records := rs', c_first := int x,
        c_last := (if xs = [] then int x else c_last ?c1)\<rparr>)
      \<and> same_data ?rs1 rs' \<and> dl (nx rs') (pv rs') 0 (x # xs)"
    using dl dist x(2) len inv by (intro link_first_ok) (auto simp: lru_inv_defs)
  then obtain rs2 where lf: "link_first (int x) (int x) ?c1 = Inr (?c1\<lparr>c_records := rs2,
        c_first := int x, c_last := (if xs = [] then int x else c_last ?c1)\<rparr>)" (is "_ = Inr ?c2")
    and sd: "same_data ?rs1 rs2" and dl2: "dl (nx rs2) (pv rs2) 0 (x # xs)"
    by blast
  have push: "push_front label c = Some (Inr (int x, ?c2))"
    by (simp add: has_room_push [OF room] claim lf)
  have other: "live (rs2 ! y)" "rec_chain (rs2 ! y) = rec_chain (rs ! y)"
      "key_of rs2 (int y) = key_of rs (int y)" if "y \<in> set xs" for y
  proof -
    have "x \<noteq> y" using that x(3) by auto
    then show "live (rs2 ! y)" "rec_chain (rs2 ! y) = rec_chain (rs ! y)"
      "key_of rs2 (int y) = key_of rs (int y)"
      using len(2) [OF that] lru_inv_in(4) [OF inv that] same_data_live [OF sd, of y]
        same_data_chain [OF sd, of y] same_data_key [OF sd, of y]
      by (simp_all add: rs_def key_of_def)
  qed
  have new: "r_valid (rs2 ! x)" "r_size (rs2 ! x) = 0"
    using sd x(2) len(1) by (auto simp: same_data_def)
  have "head_ok rs2"
    using inv sd x len(1) by (simp add: lru_inv_defs head_ok_def same_data_def rs_def)
  moreover have "slots_ok (x # xs) ?c2"
    by (rule slots_ok_cong [OF sl]) (use sl sd in \<open>auto simp: slots_ok_def same_data_def rs_def\<close>)
  moreover have "links_ok (x # xs) ?c2"
    using dl2 inv by (simp add: links_ok_def lru_inv_defs)
  moreover have "ht_invar ((key_of rs2)(int x := label)) (int ` insert x (set xs)) h"
    by (rule ht.invar_key [OF hash]) (use other(3) in auto)
  ultimately have "pushed label xs x c ?c2"
    using inv x(3) other(1,2) new label by (auto simp: pushed_def lru_inv_def rs_def)
  with push x(3) show ?thesis by blast
qed

section \<open>Storing data in the reserved record\<close>

text \<open>Writing a live record for the label completes an insertion.\<close>

lemma pushed_store:
  assumes p: "pushed label xs x c c'" and r: "r_valid r" "r_size r > 0" "rec_chain r \<noteq> []"
    "rec_label r = label"
    and links: "r_next r = r_next (c_records c' ! x)" "r_last r = r_last (c_records c' ! x)"
  shows "lru_inv (x # removeAll x xs) (c'\<lparr>c_records := (c_records c')[x := r]\<rparr>)"
proof (rule lru_invI)
  let ?rs = "c_records c'" and ?ys = "removeAll x xs"
  let ?c = "c'\<lparr>c_records := ?rs[x := r]\<rparr>"
  have x: "0 < x" "x < length ?rs" using p by (auto simp: pushed_def slots_ok_def)
  have "live r" using r by (simp add: live_def)
  show "c_is_init ?c" using p by (simp add: pushed_def)
  have "nx (?rs[x := r]) = nx ?rs" "pv (?rs[x := r]) = pv ?rs"
    using x(2) links by (auto simp: nx_def pv_def fun_eq_iff nth_list_update)
  then show "links_ok (x # ?ys) ?c" using p by (simp add: pushed_def links_ok_def)
  show "slots_ok (x # ?ys) ?c"
    by (rule slots_ok_cong [of "x # ?ys" c']) (use p in \<open>auto simp: pushed_def slots_ok_def\<close>)
  show "head_ok (c_records ?c)" using p x(1) by (simp add: pushed_def head_ok_def)
  show "live (c_records ?c ! y)" if "y \<in> set (x # ?ys)" for y
    using that p x(2) \<open>live r\<close> by (cases "y = x") (simp_all add: pushed_def)
  have "set (x # ?ys) = insert x (set xs)" by auto
  then have "ht_invar ((key_of ?rs)(int x := label)) (int ` set (x # ?ys)) (c_label_hash c')"
    using p unfolding pushed_def by metis
  moreover have "key_of (?rs[x := r]) i = ((key_of ?rs)(int x := label)) i"
    if "i \<in> int ` set (x # ?ys)" for i
    using that r(4) x(2) by (auto simp: key_of_def)
  ultimately show "ht_invar (key_of (c_records ?c)) (int ` set (x # ?ys)) (c_label_hash ?c)"
    by (auto intro: ht.invar_key)
qed

lemma add_multi_loop_eq:
  assumes "\<And>d. d \<in> set ds \<Longrightarrow> rd_label d = l" and "\<And>d. d \<in> set dest \<Longrightarrow> rd_label d = l"
  shows "add_multi_loop now dest ds = dest @ filter (\<lambda>d. now \<le> rd_ttl d) ds"
  using assms
proof (induction ds arbitrary: dest)
  case (Cons d ds)
  note IH = Cons.IH and prems = Cons.prems
  have d: "d\<lparr>rd_label := l\<rparr> = d" using prems(1) [of d] by (cases d) simp
  have skip: "add_multi_loop now dest ds = dest @ filter (\<lambda>d. now \<le> rd_ttl d) ds"
    by (rule IH) (use prems in auto)
  have add: "add_multi_loop now (dest @ [d]) ds = (dest @ [d]) @ filter (\<lambda>d. now \<le> rd_ttl d) ds"
    by (rule IH) (use prems in auto)
  show ?case
  proof (cases dest)
    case Nil
    then show ?thesis using skip add by simp
  next
    case (Cons f fs)
    then have "rd_label f = l" using prems(2) by simp
    then show ?thesis using skip add d Cons by simp
  qed
qed simp

lemma release_if_used_ok:
  assumes "x < length (c_records c)" and "r_size (c_records c ! x) = 0 \<or> live (c_records c ! x)"
  shows "\<exists>r. release_if_used (int x) c = Inr (c\<lparr>c_records := (c_records c)[x := r]\<rparr>)
    \<and> r_size r = 0 \<and> r_valid r = r_valid (c_records c ! x)
    \<and> r_next r = r_next (c_records c ! x) \<and> r_last r = r_last (c_records c ! x)"
proof (cases "r_size (c_records c ! x) = 0")
  case True
  then show ?thesis
    using assms(1) by (intro exI [of _ "c_records c ! x"]) (simp add: release_if_used_def)
next
  case False
  then obtain d ds where "r_data (c_records c ! x) = Chain (d # ds)" "r_size (c_records c ! x) > 0"
    using assms(2) by (auto simp: live_def rec_chain_def neq_Nil_conv split: data_ptr.splits)
  then show ?thesis
    using assms(1) by (auto simp: release_if_used_def realse_A_record_def)
qed

end
