(* ===== verification/LruOps.thy ===== *)
theory LruOps
  imports LruInvariant
begin

text \<open>
  What the cache promises: \<open>cache_contents\<close> is the association list of its entries, most
  recently used first, and setting or getting an entry is the abstract operation
  \<open>lru_put\<close> on it, as long as no eviction is due and no stale entry is read.
\<close>

section \<open>Contents in order of recency\<close>

fun collect :: "cache_record list \<Rightarrow> nat \<Rightarrow> nat \<Rightarrow> nat list" where
  "collect rs 0 p = []"
| "collect rs (Suc n) p =
     (if 0 \<le> r_next (rs ! p) then nat (r_next (rs ! p)) # collect rs n (nat (r_next (rs ! p))) else [])"

definition lru_order :: "cache \<Rightarrow> nat list" where
  "lru_order c = collect (c_records c) (c_length c) 0"

definition cache_ok :: "cache \<Rightarrow> bool" where
  "cache_ok c \<longleftrightarrow> lru_inv (lru_order c) c"

definition entry :: "cache_record list \<Rightarrow> nat \<Rightarrow> cstring \<times> record_data list" where
  "entry rs x = (rec_label (rs ! x), rec_chain (rs ! x))"

definition cache_contents :: "cache \<Rightarrow> (cstring \<times> record_data list) list" where
  "cache_contents c = map (entry (c_records c)) (lru_order c)"

definition expired :: "int \<Rightarrow> record_data list \<Rightarrow> bool" where
  "expired now ds \<longleftrightarrow> rd_ttl (hd ds) < now \<and> rd_ttl (hd ds) \<noteq> DNS_CACHE_PERMANENT"

text \<open>The abstract store: an association list, most recently used entry first.\<close>

definition lru_put :: "'k \<Rightarrow> 'v \<Rightarrow> ('k \<times> 'v) list \<Rightarrow> ('k \<times> 'v) list" where
  "lru_put k v st = (k, v) # filter (\<lambda>e. fst e \<noteq> k) st"

lemma collect_dl: "dl (nx rs) (pv rs) p xs \<Longrightarrow> collect rs (length xs) p = xs"
  by (induction xs arbitrary: p) (auto simp: nx_def)

lemma lru_inv_order: "lru_inv xs c \<Longrightarrow> lru_order c = xs"
  by (simp add: lru_order_def lru_inv_defs collect_dl)

lemma cache_okI: "lru_inv xs c \<Longrightarrow> cache_ok c"
  by (simp add: cache_ok_def lru_inv_order)

lemma contents_lru_inv: "lru_inv xs c \<Longrightarrow> cache_contents c = map (entry (c_records c)) xs"
  by (simp add: cache_contents_def lru_inv_order)

lemma lru_inv_locked [simp]: "lru_inv xs (c\<lparr>c_locked := b\<rparr>) = lru_inv xs c"
  by (simp add: lru_inv_defs free_slots_def)

lemma cache_ok_locked [simp]: "cache_ok (c\<lparr>c_locked := b\<rparr>) = cache_ok c"
  by (simp add: cache_ok_def lru_order_def)

lemma contents_locked [simp]: "cache_contents (c\<lparr>c_locked := b\<rparr>) = cache_contents c"
  by (simp add: cache_contents_def lru_order_def)

lemma has_room_locked [simp]: "has_room (c\<lparr>c_locked := b\<rparr>) = has_room c"
  by (simp add: has_room_def is_full_def)

lemma label_inj: "lru_inv xs c \<Longrightarrow> inj_on (\<lambda>y. rec_label (c_records c ! y)) (set xs)"
proof -
  assume "lru_inv xs c"
  then have "inj_on (key_of (c_records c)) (int ` set xs)"
    by (auto simp: lru_inv_def store_ok_def dest: ht.invar_inj)
  then show ?thesis by (auto simp: inj_on_def key_of_def)
qed

lemma filter_removeAll:
  assumes "inj_on f (set xs)" and "x \<in> set xs \<Longrightarrow> f x = k" and "x \<notin> set xs \<Longrightarrow> k \<notin> f ` set xs"
  shows "filter (\<lambda>y. f y \<noteq> k) xs = removeAll x xs"
proof -
  have "f y \<noteq> k \<longleftrightarrow> x \<noteq> y" if "y \<in> set xs" for y
    using assms that by (auto dest: inj_onD)
  then show ?thesis by (simp add: removeAll_filter_not_eq cong: filter_cong)
qed

text \<open>What a completed insertion leaves in the cache.\<close>

lemma contents_store:
  assumes inv: "lru_inv xs c" and p: "pushed label xs x c c'" and "rec_label r = label"
    and inv': "lru_inv (x # removeAll x xs) (c'\<lparr>c_records := (c_records c')[x := r]\<rparr>)"
  shows "cache_contents (c'\<lparr>c_records := (c_records c')[x := r]\<rparr>)
    = lru_put label (rec_chain r) (cache_contents c)"
proof -
  have x: "x < length (c_records c')" using p by (simp add: pushed_def slots_ok_def)
  have "entry ((c_records c')[x := r]) y = entry (c_records c) y" if "y \<in> set (removeAll x xs)" for y
    using that p by (auto simp: entry_def pushed_def rec_label_def)
  moreover have "filter (\<lambda>y. rec_label (c_records c ! y) \<noteq> label) xs = removeAll x xs"
    using p by (intro filter_removeAll label_inj [OF inv]) (auto simp: pushed_def)
  ultimately show ?thesis
    using x assms(3)
    by (simp add: contents_lru_inv [OF inv'] contents_lru_inv [OF inv] lru_put_def filter_map
        comp_def entry_def)
qed

section \<open>Setting an entry\<close>

lemma push_front_ok:
  assumes inv: "lru_inv xs c" and "has_room c"
  shows "\<exists>x c'. push_front label c = Some (Inr (int x, c')) \<and> pushed label xs x c c'"
proof (cases "label \<in> (\<lambda>y. rec_label (c_records c ! y)) ` set xs")
  case True
  then show ?thesis using push_front_present [OF assms] by blast
next
  case False
  then show ?thesis using push_front_new [OF assms False] by blast
qed

lemma pushed_release:
  assumes "pushed label xs x c c'"
  shows "\<exists>r. release_if_used (int x) c' = Inr (c'\<lparr>c_records := (c_records c')[x := r]\<rparr>)
    \<and> r_size r = 0 \<and> r_valid r \<and> x < length (c_records c')
    \<and> r_next r = r_next (c_records c' ! x) \<and> r_last r = r_last (c_records c' ! x)"
proof -
  have "x < length (c_records c')" "r_size (c_records c' ! x) = 0 \<or> live (c_records c' ! x)"
    using assms by (auto simp: pushed_def slots_ok_def split: if_splits)
  then show ?thesis using release_if_used_ok [of x c'] assms by (auto simp: pushed_def)
qed

lemma pushed_frame:
  "pushed label xs x c c' \<Longrightarrow> c_used_size c' = c_used_size c \<and> c_max_size c' = c_max_size c
     \<and> c_max_length c' = c_max_length c"
  by (simp add: pushed_def)

lemma set_multi_unlocked_ok:
  assumes ok: "cache_ok c" and room: "has_room c"
    and labels: "\<And>d. d \<in> set data \<Longrightarrow> rd_label d = label"
    and stored: "filter (\<lambda>d. now \<le> rd_ttl d) data \<noteq> []"
  shows "\<exists>c'. set_cache_A_multi_record_unlocked now label data c = Some (Inr (1, c'))
    \<and> cache_ok c' \<and> c_used_size c' = c_used_size c \<and> c_max_size c' = c_max_size c
    \<and> c_max_length c' = c_max_length c
    \<and> cache_contents c' = lru_put label (filter (\<lambda>d. now \<le> rd_ttl d) data) (cache_contents c)"
proof -
  define xs where "xs = lru_order c"
  define ds where "ds = filter (\<lambda>d. now \<le> rd_ttl d) data"
  have inv: "lru_inv xs c" using ok by (simp add: cache_ok_def xs_def)
  obtain x c1 where push: "push_front label c = Some (Inr (int x, c1))" and p: "pushed label xs x c c1"
    using push_front_ok [OF inv room] by blast
  obtain r where rel: "release_if_used (int x) c1 = Inr (c1\<lparr>c_records := (c_records c1)[x := r]\<rparr>)"
    and r: "r_size r = 0" "r_valid r" "x < length (c_records c1)"
      "r_next r = r_next (c_records c1 ! x)" "r_last r = r_last (c_records c1 ! x)"
    using pushed_release [OF p] by blast
  define r' where "r' = add_A_multi_record now r data"
  let ?c = "c1\<lparr>c_records := (c_records c1)[x := r']\<rparr>"
  have "add_multi_loop now [] data = ds"
    using add_multi_loop_eq [of data label "[]"] labels by (simp add: ds_def)
  then have r': "rec_chain r' = ds" "r_size r' = int (length ds) * 64" "r_valid r'"
      "r_next r' = r_next r" "r_last r' = r_last r"
    using stored r by (simp_all add: r'_def add_A_multi_record_def rec_chain_def sizeof_record_data_def ds_def Let_def)
  have ne: "ds \<noteq> []" using stored by (simp add: ds_def)
  have "hd ds \<in> set data" using ne hd_in_set [of ds] by (auto simp: ds_def)
  then have "rec_label r' = label"
    using labels ne by (auto simp: rec_label_def r'(1) split: list.splits)
  then have "lru_inv (x # removeAll x xs) ?c" "cache_contents ?c = lru_put label ds (cache_contents c)"
    using pushed_store [OF p] contents_store [OF inv p] r r' ne by simp_all
  moreover have "set_cache_A_multi_record_unlocked now label data c = Some (Inr (1, ?c))"
    using inv push rel r(3) by (simp add: set_cache_A_multi_record_unlocked_def lru_inv_def r'_def)
  ultimately show ?thesis
    using pushed_frame [OF p] cache_okI by (auto simp: ds_def)
qed

lemma set_single_unlocked_ok:
  assumes ok: "cache_ok c" and room: "has_room c" and ttl: "now \<le> rd_ttl d"
  shows "\<exists>c'. set_cache_A_record_unlocked now (rd_label d) d c
      = Some (Inr (65 + int (length (rd_label d)), c'))
    \<and> cache_ok c' \<and> c_used_size c' = c_used_size c \<and> c_max_size c' = c_max_size c
    \<and> c_max_length c' = c_max_length c
    \<and> cache_contents c' = lru_put (rd_label d) [d] (cache_contents c)"
proof -
  define xs where "xs = lru_order c"
  define label where "label = rd_label d"
  have inv: "lru_inv xs c" using ok by (simp add: cache_ok_def xs_def)
  obtain x c1 where push: "push_front label c = Some (Inr (int x, c1))" and p: "pushed label xs x c c1"
    using push_front_ok [OF inv room] by blast
  obtain r where rel: "release_if_used (int x) c1 = Inr (c1\<lparr>c_records := (c_records c1)[x := r]\<rparr>)"
    and r: "r_size r = 0" "r_valid r" "x < length (c_records c1)"
      "r_next r = r_next (c_records c1 ! x)" "r_last r = r_last (c_records c1 ! x)"
    using pushed_release [OF p] by blast
  define r' where "r' = r\<lparr>r_data := Chain [d], r_size := 65 + int (length label)\<rparr>"
  let ?c = "c1\<lparr>c_records := (c_records c1)[x := r']\<rparr>"
  have r': "rec_chain r' = [d]" "r_size r' > 0" "r_valid r'" "rec_label r' = label"
      "r_next r' = r_next r" "r_last r' = r_last r"
    using r(2) by (simp_all add: r'_def rec_chain_def rec_label_def label_def)
  have "add_A_record now r d = Inr (65 + int (length label), r')"
    using r(1) ttl by (simp add: add_A_record_def r'_def label_def sizeof_record_data_def Let_def)
  then have "set_cache_A_record_unlocked now label d c = Some (Inr (65 + int (length label), ?c))"
    using inv push rel r(3) by (simp add: set_cache_A_record_unlocked_def lru_inv_def)
  moreover have "lru_inv (x # removeAll x xs) ?c" "cache_contents ?c = lru_put label [d] (cache_contents c)"
    using pushed_store [OF p] contents_store [OF inv p] r r' by simp_all
  ultimately show ?thesis
    using pushed_frame [OF p] cache_okI by (auto simp: label_def)
qed

section \<open>Getting an entry\<close>

lemma contents_lookup:
  assumes inv: "lru_inv xs c" and "map_of (cache_contents c) label = Some ds"
  obtains x where "x \<in> set xs" and "rec_label (c_records c ! x) = label"
    and "rec_chain (c_records c ! x) = ds"
proof -
  have "(label, ds) \<in> set (cache_contents c)" using assms(2) by (rule map_of_SomeD)
  with that show ?thesis by (auto simp: contents_lru_inv [OF inv] entry_def)
qed

lemma find_present:
  assumes inv: "lru_inv xs c" and x: "x \<in> set xs"
  shows "find_record (cache_compare c) (c_label_hash c) (rec_label (c_records c ! x)) = Inr (Some (int x))"
proof -
  have "ht_invar (key_of (c_records c)) (int ` set xs) (c_label_hash c)"
    using inv by (simp add: lru_inv_def store_ok_def)
  from ht.lookup_hit [OF this lru_inv_agrees [OF inv], of "int x"] x
  show ?thesis by (simp add: key_of_def)
qed

lemma find_absent:
  assumes inv: "lru_inv xs c" and "label \<notin> (\<lambda>y. rec_label (c_records c ! y)) ` set xs"
  shows "find_record (cache_compare c) (c_label_hash c) label = Inr None"
proof -
  have "ht_invar (key_of (c_records c)) (int ` set xs) (c_label_hash c)"
    using inv by (simp add: lru_inv_def store_ok_def)
  from ht.lookup_miss [OF this lru_inv_agrees [OF inv], of label] assms(2)
  show ?thesis by (simp add: key_of_def image_image)
qed

lemma check_live:
  "live r \<Longrightarrow> check_A_record now r = Inr (expired now (rec_chain r))"
  by (auto simp: live_def check_A_record_def first_data_def rec_chain_def expired_def
      split: data_ptr.splits list.splits)

lemma contents_front:
  assumes inv: "lru_inv xs c" and inv': "lru_inv (x # removeAll x xs) c'" and x: "x \<in> set xs"
    and sd: "same_data (c_records c) (c_records c')"
  shows "cache_contents c' = lru_put (rec_label (c_records c ! x)) (rec_chain (c_records c ! x))
    (cache_contents c)"
proof -
  have e: "entry (c_records c') y = entry (c_records c) y" if "y \<in> set xs" for y
    using same_data_chain [OF sd lru_inv_in(3) [OF inv that]] by (simp add: entry_def rec_label_def)
  have "filter (\<lambda>y. rec_label (c_records c ! y) \<noteq> rec_label (c_records c ! x)) xs = removeAll x xs"
    by (rule filter_removeAll [OF label_inj [OF inv]]) (use x in auto)
  with e x show ?thesis
    by (simp add: contents_lru_inv [OF inv'] contents_lru_inv [OF inv] lru_put_def filter_map
        comp_def entry_def cong: map_cong)
qed

lemma get_unlocked_hit:
  assumes ok: "cache_ok c" and ds: "map_of (cache_contents c) label = Some ds"
    and fresh: "\<not> expired now ds"
  shows "\<exists>c'. get_cache_A_record_unlocked now label c = Inr (ds, c') \<and> cache_ok c'
    \<and> c_used_size c' = c_used_size c \<and> c_max_size c' = c_max_size c
    \<and> c_max_length c' = c_max_length c \<and> c_length c' = c_length c
    \<and> cache_contents c' = lru_put label ds (cache_contents c)"
proof -
  define xs where "xs = lru_order c"
  have inv: "lru_inv xs c" using ok by (simp add: cache_ok_def xs_def)
  obtain x where x: "x \<in> set xs" and lab: "rec_label (c_records c ! x) = label"
    and ch: "rec_chain (c_records c ! x) = ds"
    using contents_lookup [OF inv ds] by blast
  note inx = lru_inv_in [OF inv x]
  have chk: "check_A_record now (c_records c ! x) = Inr False"
    using check_live [OF inx(4)] fresh ch by simp
  have data: "r_data (c_records c ! x) = Chain ds"
    using inx(4) ch by (auto simp: live_def rec_chain_def split: data_ptr.splits)
  obtain as bs where xs: "xs = as @ x # bs" using x by (auto dest: split_list)
  have dist: "distinct (0 # as @ x # bs)" and dl: "dl (nx (c_records c)) (pv (c_records c)) 0 (as @ x # bs)"
    and first: "c_first c = int (hd xs)"
    using inv xs by (auto simp: lru_inv_defs)
  have rem: "removeAll x xs = as @ bs" using xs dist by simp
  note fnd = find_present [OF inv x, unfolded lab]
  have init: "c_is_init c" using inv by (simp add: lru_inv_def)
  show ?thesis
  proof (cases as)
    case Nil
    then have "get_cache_A_record_unlocked now label c = Inr (ds, c)"
      using init fnd inx chk data first xs by (simp add: get_cache_A_record_unlocked_def)
    moreover have "cache_contents c = lru_put label ds (cache_contents c)"
      using contents_front [OF inv, of x c] inv x rem xs Nil lab ch by simp
    ultimately show ?thesis using ok by blast
  next
    case (Cons y ys)
    then have ne: "int x \<noteq> c_first c" using first xs dist by auto
    obtain rs' where rl: "relink_front (int x) (int x) c = Inr (c\<lparr>c_records := rs', c_first := int x,
          c_last := (if bs = [] then int (last as) else c_last c)\<rparr>)" (is "_ = Inr ?c")
      and sd: "same_data (c_records c) rs'" and dl': "dl (nx rs') (pv rs') 0 (x # as @ bs)"
      using relink_front_ok [OF dl dist _ refl] lru_inv_in(3) [OF inv] first xs Cons by auto
    have inv': "lru_inv (x # removeAll x xs) ?c"
      unfolding rem by (rule lru_inv_front [of as x bs c rs']) (use inv dl' sd xs Cons in auto)
    have "r_data (rs' ! x) = Chain ds" "x < length rs'"
      using sd inx(3) data by (auto simp: same_data_def)
    then have "get_cache_A_record_unlocked now label c = Inr (ds, ?c)"
      using init fnd inx chk ne rl by (simp add: get_cache_A_record_unlocked_def)
    moreover have "cache_contents ?c = lru_put label ds (cache_contents c)"
      using contents_front [OF inv inv' x] sd lab ch by simp
    ultimately show ?thesis using cache_okI [OF inv'] by auto
  qed
qed

lemma get_unlocked_miss:
  assumes ok: "cache_ok c" and "map_of (cache_contents c) label = None"
  shows "get_cache_A_record_unlocked now label c = Inr ([], c)"
proof -
  have inv: "lru_inv (lru_order c) c" using ok by (simp add: cache_ok_def)
  have "label \<notin> fst ` set (cache_contents c)" using assms(2) by (simp add: map_of_eq_None_iff)
  then have "label \<notin> (\<lambda>y. rec_label (c_records c ! y)) ` set (lru_order c)"
    by (auto simp: contents_lru_inv [OF inv] entry_def image_iff)
  from find_absent [OF inv this] show ?thesis
    by (simp add: get_cache_A_record_unlocked_def)
qed

end
