(* ===== verification/LruRemoval.thy ===== *)
theory LruRemoval
  imports LruOps
begin

text \<open>
  The remaining paths of the cache: initialisation, removal of an expired entry, and
  eviction. Removal releases the data of the wrong record whenever another entry remains,
  and eviction always ends the process; both are stated as they are.
\<close>

section \<open>A fresh cache\<close>

lemma init_cache_inv:
  assumes "0 < n" and "n < 2 ^ 31" and "0 < ff" and "ff \<le> 1" and "of_int n / ff < 2 ^ 31 - 1"
    and "0 < m"
  shows "\<exists>c. init_cache n m ff = Inr c \<and> lru_inv [] c \<and> \<not> c_locked c \<and> c_max_length c = nat n
    \<and> c_used_size c = 0 \<and> c_max_size c = nat m \<and> c_length c = 0"
proof -
  obtain h where h: "init_hashtable blank_hashtable n ff hash_label = Inr (True, h)"
    and "ht_invar (\<lambda>_ :: int. [] :: cstring) {} h"
    using init_hashtable_invar [OF assms(1,3-5), of blank_hashtable hash_label "\<lambda>_. []"] by auto
  then have hinv: "ht_invar key {} h" for key :: "int \<Rightarrow> cstring"
    by (auto intro: ht.invar_key)
  define rs where "rs = (replicate (Suc (nat n)) null_record)
    [0 := null_record\<lparr>r_last := - 1, r_next := - 1, r_valid := True\<rparr>]"
  define st where "st = map (\<lambda>i. n - int i) [0..<nat n]"
  define c where "c = \<lparr>c_records = rs, c_stack = st, c_stack_top = n - 1, c_length = 0,
    c_max_length = nat n, c_used_size = 0, c_max_size = nat m, c_first = - 1, c_last = - 1,
    c_is_init = True, c_label_hash = h, c_locked = False\<rparr>"
  have init: "init_cache n m ff = Inr c"
    using assms by (simp add: init_cache_def h c_def rs_def st_def LRU_BUFFER_HEAD_POINT_def Let_def)
  have "free_slots c = map (\<lambda>i. n - int i) [1..<nat n]"
    using assms(1) by (simp add: free_slots_def c_def st_def drop_map take_map)
  moreover have "n - int i \<in> int ` {0<..<nat n}" if "1 \<le> i" "i < nat n" for i
    using that by (intro image_eqI [of _ _ "nat n - i"]) auto
  ultimately have "slots_ok [] c"
    using assms(1,2) by (auto simp: slots_ok_def c_def rs_def st_def distinct_map inj_on_def)
  moreover have "links_ok [] c" "head_ok (c_records c)"
    by (simp_all add: links_ok_def head_ok_def c_def rs_def nx_def null_record_def)
  ultimately have "lru_inv [] c"
    using hinv by (intro lru_invI) (simp_all add: c_def)
  with init show ?thesis by (simp add: c_def)
qed

section \<open>Unlinking and removal\<close>

lemma unlink_record_ok:
  assumes inv: "lru_inv (as @ x # bs) c"
  shows "\<exists>rs' f l. unlink_record (int x) c = Inr (c\<lparr>c_records := rs', c_first := f, c_last := l\<rparr>)
    \<and> same_data (c_records c) rs' \<and> dl (nx rs') (pv rs') 0 (as @ bs)
    \<and> l = int (last (0 # as @ bs)) \<and> (as @ bs \<noteq> [] \<longrightarrow> f = int (hd (as @ bs)))"
proof -
  define rs where "rs = c_records c"
  have dl: "dl (nx rs) (pv rs) 0 (as @ x # bs)" and dist: "distinct (0 # as @ x # bs)"
    and ends: "c_first c = int (hd (as @ [x]))" "c_last c = int (last (x # bs))"
    using inv by (auto simp: lru_inv_defs rs_def hd_append)
  note cut = dl_cut [OF dl dist]
  have len: "y < length rs" if "y \<in> set (as @ x # bs)" for y
    using inv that unfolding rs_def by (rule lru_inv_in)
  have x: "x < length rs" "0 < length rs" using len [of x] by auto
  have addr: "get_record_addr c (int x) = int x" using lru_inv_in [OF inv, of x] by simp
  show ?thesis
  proof (cases bs)
    case Nil
    define l where "l = last (0 # as)"
    have l: "l < length rs" using len x by (auto simp: l_def)
    have "r_last (rs ! x) = int l" using cut(2) by (simp add: pv_def l_def)
    then have "unlink_record (int x) c =
        Inr (c\<lparr>c_records := rs[l := (rs ! l)\<lparr>r_next := - 1\<rparr>], c_last := int l\<rparr>)"
      using addr ends(2) Nil x l by (simp add: unlink_record_def rs_def)
    moreover have "pv (rs[l := (rs ! l)\<lparr>r_next := - 1\<rparr>]) = pv rs" "nx (rs[l := (rs ! l)\<lparr>r_next := - 1\<rparr>])
        = (nx rs)(l := - 1)" using l by (auto simp: pv_def fun_eq_iff nth_list_update)
    moreover have "same_data rs (rs[l := (rs ! l)\<lparr>r_next := - 1\<rparr>])" by (intro same_data_link) simp_all
    ultimately show ?thesis
      using cut(5) Nil ends(1) unfolding l_def [symmetric]
      by (intro exI [of _ "rs[l := (rs ! l)\<lparr>r_next := - 1\<rparr>]"] exI [of _ "c_first c"] exI [of _ "int l"])
        (auto simp: rs_def l_def)
  next
    case (Cons b bs')
    have b: "b < length rs" "0 < b" using len [of b] dist Cons by auto
    have last: "int x \<noteq> c_last c" "c_last c = int (last (0 # as @ bs))"
      using ends(2) dist Cons last_in_set [of bs] by (auto split: if_splits)
    show ?thesis
    proof (cases as)
      case Nil
      let ?rs' = "(rs[b := (rs ! b)\<lparr>r_last := 0\<rparr>])[0 := (rs ! 0)\<lparr>r_next := int b\<rparr>]"
      have "r_next (rs ! x) = int b" using cut(4) Cons by (simp add: nx_def)
      then have "unlink_record (int x) c = Inr (c\<lparr>c_records := ?rs', c_first := int b\<rparr>)"
        using addr ends(1) last(1) Nil x b
        by (simp add: unlink_record_def rs_def) (simp add: LRU_BUFFER_HEAD_POINT_def Let_def)
      moreover have "nx ?rs' = (nx rs)(0 := int b)" "pv ?rs' = (pv rs)(b := 0)"
        using x b by (auto simp: nx_def pv_def fun_eq_iff nth_list_update)
      moreover have "same_data rs ?rs'" using b(2) by (intro same_data_link) simp_all
      ultimately show ?thesis
        using cut(6) [OF Cons] Nil Cons last(2)
        by (intro exI [of _ ?rs'] exI [of _ "int b"] exI [of _ "c_last c"]) (simp add: rs_def)
    next
      case (Cons a as')
      have "int x \<noteq> c_first c" using ends(1) Cons dist by auto
      then have "unlink_record (int x) c = linklist_remove_node (int x) c"
        using addr last(1) by (simp add: unlink_record_def)
      moreover obtain rs' where "linklist_remove_node (int x) c = Inr (c\<lparr>c_records := rs'\<rparr>)"
        "same_data rs rs'" "dl (nx rs') (pv rs') 0 (as @ bs)"
        using linklist_remove_node_ok [OF dl dist len rs_def] \<open>bs = b # bs'\<close> by auto
      ultimately show ?thesis
        using ends(1) last(2) Cons
        by (intro exI [of _ rs'] exI [of _ "c_first c"] exI [of _ "c_last c"]) (simp add: rs_def)
    qed
  qed
qed

lemma cache_stack_push_ok:
  assumes sl: "slots_ok xs c" and x: "x \<in> set xs"
    and c': "c_stack c' = c_stack c" "c_stack_top c' = c_stack_top c" "c_max_length c' = c_max_length c"
    "length (c_records c') = length (c_records c)" "c_length c' = length (removeAll x xs)"
  shows "\<exists>c''. cache_stack_push (int x) c' = Inr c'' \<and> slots_ok (removeAll x xs) c''
    \<and> c'' = c'\<lparr>c_stack := c_stack c'', c_stack_top := c_stack_top c''\<rparr>"
proof -
  let ?ys = "removeAll x xs"
  have len: "length xs = Suc (length ?ys)"
    using sl x by (simp add: slots_ok_def distinct_remove1_removeAll [symmetric] length_remove1)
      (use length_pos_if_in_set [OF x] in simp)
  have ltm: "length xs < c_max_length c"
  proof -
    have "card (set xs) \<le> card {0<..<c_max_length c}"
      using sl by (intro card_mono) (auto simp: slots_ok_def)
    then show ?thesis using sl by (auto simp: slots_ok_def distinct_card)
  qed
  have top: "0 \<le> c_stack_top c'" "c_stack_top c' + 1 < int (length (c_stack c'))"
    using sl len ltm c' by (auto simp: slots_ok_def)
  let ?c = "c'\<lparr>c_stack := (c_stack c')[nat (c_stack_top c' + 1) := int x],
    c_stack_top := c_stack_top c' + 1\<rparr>"
  have push: "cache_stack_push (int x) c' = Inr ?c"
    using top sl x c' by (auto simp: cache_stack_push_def slots_ok_def)
  have "free_slots ?c = free_slots c @ [int x]"
    using free_slots_push [OF top] free_slots_cong [OF c'(1,2)] by simp
  moreover have "int x \<notin> set (free_slots c)" "distinct (free_slots c)"
    "set (free_slots c) \<subseteq> int ` ({0<..<c_max_length c} - set xs)" "x \<in> {0<..<c_max_length c}"
    using sl x by (auto simp: slots_ok_def)
  ultimately have "distinct (free_slots ?c)"
    "set (free_slots ?c) \<subseteq> int ` ({0<..<c_max_length c} - set ?ys)" by auto
  then have "slots_ok ?ys ?c"
    using sl len c' by (simp add: slots_ok_def distinct_removeAll) auto
  with push show ?thesis by (intro exI [of _ ?c]) simp
qed

text \<open>
  The outcome of \<open>remove_record\<close>: list, stack and index drop the record, and the data of
  the tail \<open>t\<close> of the remaining list (the head node if nothing remains) are released.
\<close>

definition removed :: "nat list \<Rightarrow> nat \<Rightarrow> cache \<Rightarrow> cache \<Rightarrow> bool" where
  "removed xs x c c' \<longleftrightarrow>
     (let ys = removeAll x xs; t = last (0 # ys); rs = c_records c; rs' = c_records c' in
      c_is_init c' \<and> slots_ok ys c' \<and> links_ok ys c'
      \<and> ht_invar (key_of rs) (int ` set ys) (c_label_hash c')
      \<and> (\<forall>y < length rs. y \<noteq> x \<longrightarrow> y \<noteq> t \<longrightarrow> r_data (rs' ! y) = r_data (rs ! y)
           \<and> r_size (rs' ! y) = r_size (rs ! y) \<and> r_valid (rs' ! y) = r_valid (rs ! y))
      \<and> r_data (rs' ! t) = (if ys = [] then Chain [] else Freed)
      \<and> r_size (rs' ! t) = 0 \<and> r_valid (rs' ! t) = r_valid (rs ! t)
      \<and> r_data (rs' ! x) = r_data (rs ! x)
      \<and> c_used_size c' = size_sub (c_used_size c) (nat (r_size (rs ! t) mod 2 ^ 64))
      \<and> c_max_length c' = c_max_length c \<and> c_max_size c' = c_max_size c)"

text \<open>The facts about the three slots involved: the removed one, the tail, the rest.\<close>

lemma removal_facts:
  assumes inv: "lru_inv xs c" and x: "x \<in> set xs"
  shows "set (removeAll x xs) = set xs - {x}" and "last (0 # removeAll x xs) \<noteq> x"
    and "last (0 # removeAll x xs) < length (c_records c)" and "x < length (c_records c)"
    and "length (removeAll x xs) = size_sub (c_length c) 1"
    and "removeAll x xs \<noteq> [] \<Longrightarrow> live (c_records c ! last (0 # removeAll x xs))"
proof -
  have sl: "slots_ok xs c" using inv by (simp add: lru_inv_def)
  show st: "set (removeAll x xs) = set xs - {x}" by simp
  have in_ys: "removeAll x xs \<noteq> [] \<Longrightarrow> last (removeAll x xs) \<in> set xs - {x}"
    using last_in_set [of "removeAll x xs"] by simp
  then show "last (0 # removeAll x xs) \<noteq> x" using lru_inv_in(1) [OF inv x] by auto
  show "last (0 # removeAll x xs) < length (c_records c)"
    using in_ys lru_inv_in(3) [OF inv] lru_inv_in(3) [OF inv x] by (cases "removeAll x xs = []") auto
  show "x < length (c_records c)" using inv x by (rule lru_inv_in)
  have "length (removeAll x xs) = length xs - 1"
    using sl x by (simp add: slots_ok_def distinct_remove1_removeAll [symmetric] length_remove1)
  moreover have "size_sub (length xs) 1 = length xs - 1"
    using sl lru_inv_length [OF inv] length_pos_if_in_set [OF x]
    by (intro size_sub_id) (auto simp: slots_ok_def Suc_le_eq)
  ultimately show "length (removeAll x xs) = size_sub (c_length c) 1"
    using sl by (simp add: slots_ok_def)
  show "removeAll x xs \<noteq> [] \<Longrightarrow> live (c_records c ! last (0 # removeAll x xs))"
    using in_ys lru_inv_in(4) [OF inv] by simp
qed

lemma reset_after_unlink:
  assumes inv: "lru_inv xs c" and x: "x \<in> set xs" and sd: "same_data (c_records c) rs1"
  obtains h where "reset_hash_node (compare_record_with_label rs1) (c_label_hash c) (rec_label (rs1 ! x))
      = Inr (True, h)"
    and "ht_invar (key_of (c_records c)) (int ` set (removeAll x xs)) h"
proof -
  have live: "y < length rs1 \<and> live (rs1 ! y)" if "y \<in> set xs" for y
    using same_data_live [OF sd, of y] lru_inv_in [OF inv that] sd by (simp add: same_data_def)
  have cmp: "agrees (compare_record_with_label rs1) (key_of rs1) (int ` set xs)"
    by (simp add: agrees_live live)
  have hash: "ht_invar (key_of rs1) (int ` set xs) (c_label_hash c)"
    using inv lru_inv_in(3) [OF inv]
    by (intro ht_invar_same_data [OF _ sd]) (simp_all add: lru_inv_def store_ok_def)
  have "int ` set xs - {int x} = int ` set (removeAll x xs)" by (simp add: image_set_diff)
  then obtain h where "reset_hash_node (compare_record_with_label rs1) (c_label_hash c) (rec_label (rs1 ! x))
      = Inr (True, h)" "ht_invar (key_of rs1) (int ` set (removeAll x xs)) h"
    using ht.remove_hit [OF hash cmp, of "int x"] x by (auto simp: key_of_def)
  moreover from this(2) have "ht_invar (key_of (c_records c)) (int ` set (removeAll x xs)) h"
    by (rule ht_invar_same_data [OF _ same_data_sym [OF sd]]) (simp add: live)
  ultimately show ?thesis using that by blast
qed

lemma realse_tail:
  assumes "r_data r = Chain [] \<or> live r"
  shows "realse_A_record r = Inr (r\<lparr>r_data := (if r_data r = Chain [] then Chain [] else Freed), r_size := 0\<rparr>)"
  using assms by (auto simp: realse_A_record_def live_def rec_chain_def split: data_ptr.splits list.splits)

lemma remove_record_run:
  assumes inv: "lru_inv xs c" and x: "x \<in> set xs"
  defines "ys \<equiv> removeAll x xs" and "t \<equiv> last (0 # removeAll x xs)"
  obtains rs1 f h lr where
    "remove_record (int x) c = cache_stack_push (int x) (c\<lparr>c_first := f, c_last := int t,
      c_label_hash := h,
      c_used_size := size_sub (c_used_size c) (nat (r_size (c_records c ! t) mod 2 ^ 64)),
      c_records := (rs1[t := lr])[x := (rs1 ! x)\<lparr>r_valid := False\<rparr>],
      c_length := size_sub (c_length c) 1\<rparr>)"
    and "same_data (c_records c) rs1" and "dl (nx rs1) (pv rs1) 0 ys" and "ys \<noteq> [] \<Longrightarrow> f = int (hd ys)"
    and "ht_invar (key_of (c_records c)) (int ` set ys) h"
    and "lr = (rs1 ! t)\<lparr>r_data := (if ys = [] then Chain [] else Freed), r_size := 0\<rparr>"
proof -
  obtain as bs where xs: "xs = as @ x # bs" using x by (auto dest: split_list)
  have ys: "ys = as @ bs" using xs inv by (simp add: ys_def lru_inv_defs)
  have tl: "last (0 # ys) = t" by (simp add: t_def ys_def)
  note f = removal_facts [OF inv x, folded ys_def t_def]
  obtain rs1 fst where unl: "unlink_record (int x) c =
      Inr (c\<lparr>c_records := rs1, c_first := fst, c_last := int t\<rparr>)"
    and sd: "same_data (c_records c) rs1" and dl: "dl (nx rs1) (pv rs1) 0 ys"
    and fst: "ys \<noteq> [] \<longrightarrow> fst = int (hd ys)"
    using unlink_record_ok [OF inv [unfolded xs]] unfolding ys [symmetric] tl by blast
  obtain h where reset: "reset_hash_node (compare_record_with_label rs1) (c_label_hash c)
      (rec_label (rs1 ! x)) = Inr (True, h)" and h: "ht_invar (key_of (c_records c)) (int ` set ys) h"
    unfolding ys_def by (rule reset_after_unlink [OF inv x sd]) blast
  define lr where "lr = (rs1 ! t)\<lparr>r_data := (if ys = [] then Chain [] else Freed), r_size := 0\<rparr>"
  have len: "x < length rs1" "t < length rs1" using f(3,4) sd by (auto simp: same_data_def)
  have tail: "if ys = [] then r_data (rs1 ! t) = Chain [] else live (rs1 ! t)"
  proof (cases "ys = []")
    case True
    then have "t = 0" by (simp add: t_def ys_def)
    then show ?thesis using True inv sd len(2) by (auto simp: lru_inv_defs head_ok_def same_data_def)
  next
    case False
    then show ?thesis using f(3,6) same_data_live [OF sd, of t] by simp
  qed
  have rel: "realse_A_record (rs1 ! t) = Inr lr"
    using tail realse_tail [of "rs1 ! t"] by (auto simp: lr_def live_def rec_chain_def split: if_splits)
  have lab: "get_cache_A_record_label (rs1 ! x) = Inr (rec_label (rs1 ! x))"
    using lru_inv_in(3,4) [OF inv x] same_data_live [OF sd] by (simp add: label_live)
  have sz: "r_size (rs1 ! t) = r_size (c_records c ! t)" using sd f(3) by (simp add: same_data_def)
  have "remove_record (int x) c = cache_stack_push (int x) (c\<lparr>c_first := fst, c_last := int t,
      c_label_hash := h,
      c_used_size := size_sub (c_used_size c) (nat (r_size (c_records c ! t) mod 2 ^ 64)),
      c_records := (rs1[t := lr])[x := (rs1 ! x)\<lparr>r_valid := False\<rparr>],
      c_length := size_sub (c_length c) 1\<rparr>)"
    using lru_inv_in [OF inv x] unl len lab reset rel f(2) sz
    by (simp add: remove_record_def cache_compare_def drop_used_def Let_def)
  from that [OF this sd dl _ h lr_def] fst show ?thesis by simp
qed

lemma remove_record_ok:
  assumes inv: "lru_inv xs c" and x: "x \<in> set xs"
  shows "\<exists>c'. remove_record (int x) c = Inr c' \<and> removed xs x c c'"
proof -
  define ys where "ys = removeAll x xs"
  define t where "t = last (0 # ys)"
  note f = removal_facts [OF inv x, folded ys_def, folded t_def]
  obtain rs1 fst h lr where run: "remove_record (int x) c = cache_stack_push (int x)
     (c\<lparr>c_first := fst, c_last := int t, c_label_hash := h,
      c_used_size := size_sub (c_used_size c) (nat (r_size (c_records c ! t) mod 2 ^ 64)),
      c_records := (rs1[t := lr])[x := (rs1 ! x)\<lparr>r_valid := False\<rparr>],
      c_length := size_sub (c_length c) 1\<rparr>)" (is "_ = cache_stack_push _ ?c2")
    and sd: "same_data (c_records c) rs1" and dl: "dl (nx rs1) (pv rs1) 0 ys"
    and fst: "ys \<noteq> [] \<Longrightarrow> fst = int (hd ys)"
    and h: "ht_invar (key_of (c_records c)) (int ` set ys) h"
    and lr: "lr = (rs1 ! t)\<lparr>r_data := (if ys = [] then Chain [] else Freed), r_size := 0\<rparr>"
    using remove_record_run [OF inv x] unfolding ys_def t_def by metis
  have len: "x < length rs1" "t < length rs1" "length rs1 = length (c_records c)"
    using f(3,4) sd by (auto simp: same_data_def)
  have sl: "slots_ok xs c" using inv by (simp add: lru_inv_def)
  obtain c3 where push: "cache_stack_push (int x) ?c2 = Inr c3" and sl3: "slots_ok ys c3"
    and c3: "c3 = ?c2\<lparr>c_stack := c_stack c3, c_stack_top := c_stack_top c3\<rparr>"
    using cache_stack_push_ok [OF sl x, of ?c2] len(3) f(5) unfolding ys_def [symmetric] by auto
  have proj: "c_records c3 = (rs1[t := lr])[x := (rs1 ! x)\<lparr>r_valid := False\<rparr>]" "c_first c3 = fst"
    "c_last c3 = int t" "c_label_hash c3 = h"
    "c_used_size c3 = size_sub (c_used_size c) (nat (r_size (c_records c ! t) mod 2 ^ 64))"
    "c_is_init c3 = c_is_init c" "c_max_length c3 = c_max_length c" "c_max_size c3 = c_max_size c"
    by (subst c3, simp)+
  have slot: "c_records c3 ! t = lr" "c_records c3 ! x = (rs1 ! x)\<lparr>r_valid := False\<rparr>"
    "\<And>y. y \<noteq> x \<Longrightarrow> y \<noteq> t \<Longrightarrow> c_records c3 ! y = rs1 ! y"
    using len f(2) by (simp_all add: proj)
  have d: "r_data (rs1 ! y) = r_data (c_records c ! y)" "r_size (rs1 ! y) = r_size (c_records c ! y)"
    "r_valid (rs1 ! y) = r_valid (c_records c ! y)" if "y < length (c_records c)" for y
    using sd that by (simp_all add: same_data_def)
  have "nx (c_records c3) = nx rs1" "pv (c_records c3) = pv rs1"
    using len f(2) by (auto simp: proj nx_def pv_def fun_eq_iff nth_list_update lr)
  then have "links_ok ys c3" using dl fst by (auto simp: links_ok_def proj t_def ys_def)
  moreover have "c_is_init c3" using inv by (simp add: lru_inv_def proj)
  ultimately have "removed xs x c c3"
    unfolding removed_def Let_def ys_def [symmetric] t_def [symmetric]
    using sl3 h d f(3,4) by (intro conjI allI impI) (simp_all add: slot proj(4,5,7,8) lr)
  with run push show ?thesis by auto
qed

section \<open>Expiry\<close>

lemma get_unlocked_expired:
  assumes inv: "lru_inv xs c" and x: "x \<in> set xs"
    and exp: "expired now (rec_chain (c_records c ! x))"
  shows "\<exists>c'. get_cache_A_record_unlocked now (rec_label (c_records c ! x)) c = Inr ([], c')
    \<and> removed xs x c c'"
proof -
  obtain c' where "remove_record (int x) c = Inr c'" "removed xs x c c'"
    using remove_record_ok [OF inv x] by blast
  then show ?thesis
    using find_present [OF inv x] lru_inv_in [OF inv x] check_live [of "c_records c ! x" now] exp inv
    by (simp add: get_cache_A_record_unlocked_def lru_inv_def)
qed

lemma removed_single:
  assumes "lru_inv [x] c" and "removed [x] x c c'"
  shows "lru_inv [] c'"
proof (rule lru_invI)
  show "ht_invar (key_of (c_records c')) (int ` set []) (c_label_hash c')"
    using assms(2) by (auto simp: removed_def Let_def intro: ht.invar_key)
qed (use assms in \<open>auto simp: removed_def Let_def head_ok_def\<close>)

text \<open>Any lookup of the remaining tail then reads freed memory.\<close>

lemma removed_dangling:
  assumes inv: "lru_inv xs c" and x: "x \<in> set xs" and r: "removed xs x c c'"
    and t: "removeAll x xs \<noteq> []" "t = last (removeAll x xs)"
  shows "get_cache_A_record_unlocked now (rec_label (c_records c ! t)) c' = Inl UseAfterFree"
proof -
  have tin: "t \<in> set xs" "t \<noteq> x" using t last_in_set [OF t(1)] by auto
  have len: "length (c_records c') = length (c_records c)"
    using r inv by (simp add: removed_def Let_def slots_ok_def lru_inv_defs)
  have hash: "ht_invar (key_of (c_records c)) (int ` set (removeAll x xs)) (c_label_hash c')"
    and rt: "r_data (c_records c' ! t) = Freed" "r_valid (c_records c' ! t)"
    using r t lru_inv_in(4) [OF inv tin(1)] by (simp_all add: removed_def Let_def live_def)
  have "cache_compare c' (Some s) (key_of (c_records c) (int t)) = Inr False"
    if s: "s \<in> int ` set (removeAll x xs)" "s \<noteq> int t" for s
  proof -
    obtain y where y: "s = int y" "y \<in> set xs" "y \<noteq> x" "y \<noteq> t" using s by auto
    note iny = lru_inv_in [OF inv y(2)]
    have "r_data (c_records c' ! y) = r_data (c_records c ! y)"
      "r_size (c_records c' ! y) = r_size (c_records c ! y)"
      "r_valid (c_records c' ! y) = r_valid (c_records c ! y)"
      using r y t iny(3) by (simp_all add: removed_def Let_def)
    then have "live (c_records c' ! y)" "rec_label (c_records c' ! y) = rec_label (c_records c ! y)"
      using iny(4) by (simp_all add: live_def rec_chain_def rec_label_def)
    moreover have "rec_label (c_records c ! y) \<noteq> rec_label (c_records c ! t)"
      using label_inj [OF inv] y tin by (auto dest: inj_onD)
    ultimately show ?thesis
      using y(1) iny(3) len
      by (simp add: cache_compare_def compare_record_with_label_def label_live key_of_def)
        (simp add: live_def)
  qed
  moreover have "cache_compare c' (Some (int t)) (key_of (c_records c) (int t)) = Inl UseAfterFree"
    using rt len lru_inv_in(3) [OF inv tin(1)]
    by (simp add: cache_compare_def compare_record_with_label_def get_cache_A_record_label_def
        first_data_def)
  ultimately have "get_hashnode (cache_compare c') (c_label_hash c') (key_of (c_records c) (int t))
      = Inl UseAfterFree"
    using tin by (intro bucket_error [OF hash, of "int t"]) auto
  then show ?thesis
    using r by (simp add: get_cache_A_record_unlocked_def find_record_def key_of_def removed_def Let_def)
qed

section \<open>Eviction\<close>

text \<open>\<open>pop_back\<close> marks the tail invalid before it looks the tail up in the hash table, and the
  comparison callback exits on an invalid record.\<close>

lemma pop_back_one_exits:
  assumes inv: "lru_inv xs c" and ne: "xs \<noteq> []"
  shows "pop_back_one c = Inl (Exit 0)"
proof -
  define t where "t = last xs"
  have t: "t \<in> set xs" using ne by (simp add: t_def)
  note int = lru_inv_in [OF inv t]
  have sl: "slots_ok xs c" and last: "c_last c = int t"
    using inv ne by (simp_all add: lru_inv_defs t_def)
  let ?rs = "(c_records c)[t := (c_records c ! t)\<lparr>r_valid := False\<rparr>]"
  have "0 \<le> c_stack_top c" "c_stack_top c + 1 < int (c_max_length c)"
    using sl lru_inv_length [OF inv] ne by (auto simp: slots_ok_def)
  then obtain st where push: "cache_stack_push (int t) (c\<lparr>c_records := ?rs\<rparr>)
      = Inr (c\<lparr>c_records := ?rs, c_stack := st, c_stack_top := c_stack_top c + 1\<rparr>)"
    using sl int by (simp add: cache_stack_push_def slots_ok_def)
  have "get_cache_A_record_label ((c_records c ! t)\<lparr>r_valid := False\<rparr>) = Inr (rec_label (c_records c ! t))"
    using label_live [OF int(4)] by (simp add: get_cache_A_record_label_def first_data_def)
  moreover have "reset_hash_node (compare_record_with_label ?rs) (c_label_hash c)
      (key_of (c_records c) (int t)) = Inl (Exit 0)"
  proof (rule bucket_error)
    show "ht_invar (key_of (c_records c)) (int ` set xs) (c_label_hash c)"
      using inv by (simp add: lru_inv_def store_ok_def)
    show "int t \<in> int ` set xs" using t by simp
    show "compare_record_with_label ?rs (Some (int t)) (key_of (c_records c) (int t)) = Inl (Exit 0)"
      using int by (simp add: compare_record_with_label_def)
    show "compare_record_with_label ?rs (Some s) (key_of (c_records c) (int t)) = Inr False"
      if s: "s \<in> int ` set xs" "s \<noteq> int t" for s
    proof -
      obtain y where y: "s = int y" "y \<in> set xs" "y \<noteq> t" using s by auto
      moreover have "rec_label (c_records c ! y) \<noteq> rec_label (c_records c ! t)"
        using label_inj [OF inv] y t by (auto dest: inj_onD)
      ultimately show ?thesis
        using lru_inv_in [OF inv y(2)]
        by (simp add: compare_record_with_label_def label_live key_of_def) (simp add: live_def)
    qed
  qed
  ultimately show ?thesis
    using push last int by (simp add: pop_back_one_def cache_compare_def key_of_def)
qed

lemma pop_back_loop_error:
  "0 < t \<Longrightarrow> 0 < c_length c \<Longrightarrow> pop_back_one c = Inl e \<Longrightarrow> pop_back_loop t c = Inl e"
  by (cases t) auto

lemma pop_back_exits: "lru_inv xs c \<Longrightarrow> xs \<noteq> [] \<Longrightarrow> pop_back c = Inl (Exit 0)"
  unfolding pop_back_def
  by (rule pop_back_loop_error) (simp_all add: LRU_POP_ITEM_def pop_back_one_exits, simp add: lru_inv_defs)

lemma pop_back_loop_empty: "c_length c = 0 \<Longrightarrow> pop_back_loop t c = Inr c"
  by (induction t) auto

lemma push_front_full:
  "lru_inv xs c \<Longrightarrow> is_full c \<Longrightarrow> 2 \<le> c_max_length c \<Longrightarrow> push_front label c = Some (Inl (Exit 0))"
  using is_full_iff [of xs c] pop_back_exits [of xs c]
  by (cases xs) (auto simp: push_front_def)

end
