(* ===== verification/LruSpec.thy ===== *)
theory LruSpec
  imports LruRemoval
begin

text \<open>
  The contract of the LRU cache as a locale, its client lemmas, and its two
  interpretations on the locked operations of \<open>src/src/cache.c\<close>: writing one record with
  \<open>set_cache_A_record\<close> and a list of records with \<open>set_cache_A_multi_record\<close>.
\<close>

section \<open>Sequences of calls\<close>

datatype ('k, 'd) cache_op = Put int 'k 'd | Get int 'k
  \<comment> \<open>the clock reading of the call, the key, and the data to write\<close>

text \<open>The calls on a store, with what each of them returns to its caller: nothing of interest
  for a write, the value (or the null value) for a read.\<close>

fun store_step :: "(int \<Rightarrow> 'k \<Rightarrow> 'd \<Rightarrow> 's \<Rightarrow> (int \<times> 's) prog)
    \<Rightarrow> (int \<Rightarrow> 'k \<Rightarrow> 's \<Rightarrow> ('v \<times> 's) result) \<Rightarrow> ('k, 'd) cache_op \<Rightarrow> 's \<Rightarrow> ('v option \<times> 's) prog" where
  "store_step put get (Put now k d) s = bindP (put now k d s) (\<lambda>(_, s). Some (Inr (None, s)))"
| "store_step put get (Get now k) s = bindP (Some (get now k s)) (\<lambda>(v, s). Some (Inr (Some v, s)))"

fun store_run :: "(int \<Rightarrow> 'k \<Rightarrow> 'd \<Rightarrow> 's \<Rightarrow> (int \<times> 's) prog)
    \<Rightarrow> (int \<Rightarrow> 'k \<Rightarrow> 's \<Rightarrow> ('v \<times> 's) result) \<Rightarrow> ('k, 'd) cache_op list \<Rightarrow> 's
    \<Rightarrow> ('v option list \<times> 's) prog" where
  "store_run put get [] s = Some (Inr ([], s))"
| "store_run put get (x # xs) s = bindP (store_step put get x s) (\<lambda>(r, s).
     bindP (store_run put get xs s) (\<lambda>(rs, s). Some (Inr (r # rs, s))))"

text \<open>The same calls on an association list of bounded length, most recently used entry
  first. \<open>None\<close>: the call is outside the contract (the list is full, nothing would be
  stored, or the entry read is stale).\<close>

fun lru_step :: "nat \<Rightarrow> (int \<Rightarrow> 'k \<Rightarrow> 'd \<Rightarrow> 'v option) \<Rightarrow> (int \<Rightarrow> 'v \<Rightarrow> bool) \<Rightarrow> 'v
    \<Rightarrow> ('k, 'd) cache_op \<Rightarrow> ('k \<times> 'v) list \<Rightarrow> ('v option \<times> ('k \<times> 'v) list) option" where
  "lru_step n stored stale none (Put now k d) st =
     (case stored now k d of None \<Rightarrow> None
      | Some v \<Rightarrow> if length st < n then Some (None, lru_put k v st) else None)"
| "lru_step n stored stale none (Get now k) st =
     (case map_of st k of None \<Rightarrow> Some (Some none, st)
      | Some v \<Rightarrow> if stale now v then None else Some (Some v, lru_put k v st))"

fun lru_run :: "nat \<Rightarrow> (int \<Rightarrow> 'k \<Rightarrow> 'd \<Rightarrow> 'v option) \<Rightarrow> (int \<Rightarrow> 'v \<Rightarrow> bool) \<Rightarrow> 'v
    \<Rightarrow> ('k, 'd) cache_op list \<Rightarrow> ('k \<times> 'v) list \<Rightarrow> ('v option list \<times> ('k \<times> 'v) list) option" where
  "lru_run n stored stale none [] st = Some ([], st)"
| "lru_run n stored stale none (x # xs) st =
     Option.bind (lru_step n stored stale none x st) (\<lambda>(r, st).
     Option.bind (lru_run n stored stale none xs st) (\<lambda>(rs, st). Some (r # rs, st)))"

text \<open>What a write stores, for the two entry points.\<close>

definition stored_multi :: "int \<Rightarrow> cstring \<Rightarrow> record_data list \<Rightarrow> record_data list option" where
  "stored_multi now label data =
     (let ds = filter (\<lambda>d. now \<le> rd_ttl d) data
      in if ds \<noteq> [] \<and> list_all (\<lambda>d. rd_label d = label) data then Some ds else None)"

definition stored_single :: "int \<Rightarrow> cstring \<Rightarrow> record_data \<Rightarrow> record_data list option" where
  "stored_single now label d =
     (if now \<le> rd_ttl d \<and> rd_label d = label then Some [d] else None)"

text \<open>The states the operations keep: the invariant, with the lock free and a size limit
  that the size counter, which stays at zero, never meets.\<close>

definition cache_ready :: "cache \<Rightarrow> bool" where
  "cache_ready c \<longleftrightarrow> cache_ok c \<and> \<not> c_locked c \<and> c_used_size c = 0 \<and> 1024 \<le> c_max_size c"

definition cache_capacity :: "cache \<Rightarrow> nat" where
  "cache_capacity c = c_max_length c - 1"

section \<open>The contract\<close>

lemma map_of_lru_put [simp]: "map_of (lru_put k v st) = (map_of st)(k \<mapsto> v)"
proof
  show "map_of (lru_put k v st) j = ((map_of st)(k \<mapsto> v)) j" for j
    by (induction st) (auto simp: lru_put_def)
qed

lemma length_lru_put:
  "length (lru_put k v st) \<le> Suc (length st)"
  by (simp add: lru_put_def le_SucI)

locale lru_store =
  fixes ready :: "'s \<Rightarrow> bool"
    and capacity :: "'s \<Rightarrow> nat"
    and contents :: "'s \<Rightarrow> ('k \<times> 'v) list"
    and stored :: "int \<Rightarrow> 'k \<Rightarrow> 'd \<Rightarrow> 'v option"
    and stale :: "int \<Rightarrow> 'v \<Rightarrow> bool"
    and none :: 'v
    and put :: "int \<Rightarrow> 'k \<Rightarrow> 'd \<Rightarrow> 's \<Rightarrow> (int \<times> 's) prog"
    and get :: "int \<Rightarrow> 'k \<Rightarrow> 's \<Rightarrow> ('v \<times> 's) result"
  assumes put_ok: "ready s \<Longrightarrow> length (contents s) < capacity s \<Longrightarrow> stored now k d = Some v \<Longrightarrow>
      \<exists>r s'. put now k d s = Some (Inr (r, s')) \<and> ready s' \<and> capacity s' = capacity s
        \<and> contents s' = lru_put k v (contents s)"
    and get_hit: "ready s \<Longrightarrow> map_of (contents s) k = Some v \<Longrightarrow> \<not> stale now v \<Longrightarrow>
      \<exists>s'. get now k s = Inr (v, s') \<and> ready s' \<and> capacity s' = capacity s
        \<and> contents s' = lru_put k v (contents s)"
    and get_miss: "ready s \<Longrightarrow> map_of (contents s) k = None \<Longrightarrow> get now k s = Inr (none, s)"
begin

text \<open>A read after a write of the same key returns what was written; reads of other keys are
  not affected.\<close>

lemma get_after_put:
  assumes "ready s" and "length (contents s) < capacity s" and "stored now k d = Some v"
    and "\<not> stale now' v"
  shows "\<exists>r s' s''. put now k d s = Some (Inr (r, s')) \<and> get now' k s' = Inr (v, s'')
    \<and> contents s'' = contents s'"
proof -
  obtain r s' where s': "put now k d s = Some (Inr (r, s'))" "ready s'"
    "contents s' = lru_put k v (contents s)"
    using put_ok [OF assms(1-3)] by blast
  then obtain s'' where "get now' k s' = Inr (v, s'')" "contents s'' = lru_put k v (contents s')"
    using get_hit [OF s'(2), of k v now'] assms(4) by auto
  with s' show ?thesis by (auto simp: lru_put_def)
qed

lemma get_other_after_put:
  assumes "ready s" and "length (contents s) < capacity s" and "stored now k d = Some v"
    and "k' \<noteq> k" and "map_of (contents s) k' = Some w" and "\<not> stale now' w"
  shows "\<exists>r s' s''. put now k d s = Some (Inr (r, s')) \<and> get now' k' s' = Inr (w, s'')"
proof -
  obtain r s' where s': "put now k d s = Some (Inr (r, s'))" "ready s'"
    "contents s' = lru_put k v (contents s)"
    using put_ok [OF assms(1-3)] by blast
  then show ?thesis using get_hit [OF s'(2), of k' w now'] assms(4-6) by auto
qed

lemma step_refines:
  assumes "ready s" and "lru_step (capacity s) stored stale none x (contents s) = Some (r, st)"
  shows "\<exists>s'. store_step put get x s = Some (Inr (r, s')) \<and> ready s' \<and> capacity s' = capacity s
    \<and> contents s' = st"
proof (cases x)
  case (Put now k d)
  then obtain v where v: "stored now k d = Some v" "length (contents s) < capacity s"
    and "r = None" "st = lru_put k v (contents s)"
    using assms(2) by (auto split: option.splits if_splits)
  moreover obtain i s' where "put now k d s = Some (Inr (i, s'))" "ready s'" "capacity s' = capacity s"
    "contents s' = lru_put k v (contents s)"
    using put_ok [OF assms(1) v(2,1)] by blast
  ultimately show ?thesis using Put by auto
next
  case (Get now k)
  show ?thesis
  proof (cases "map_of (contents s) k")
    case None
    then show ?thesis using get_miss [OF assms(1)] Get assms by auto
  next
    case (Some v)
    then have v: "\<not> stale now v" "r = Some v" "st = lru_put k v (contents s)"
      using Get assms(2) by (auto split: if_splits)
    moreover obtain s' where "get now k s = Inr (v, s')" "ready s'" "capacity s' = capacity s"
      "contents s' = lru_put k v (contents s)"
      using get_hit [OF assms(1) Some v(1)] by blast
    ultimately show ?thesis using Get by auto
  qed
qed

text \<open>Every sequence of calls inside the contract returns what the association list returns.\<close>

lemma run_refines:
  "ready s \<Longrightarrow> lru_run (capacity s) stored stale none xs (contents s) = Some (rs, st) \<Longrightarrow>
    \<exists>s'. store_run put get xs s = Some (Inr (rs, s')) \<and> ready s' \<and> capacity s' = capacity s
      \<and> contents s' = st"
proof (induction xs arbitrary: s rs)
  case Nil
  then show ?case by simp
next
  case (Cons x xs)
  from Cons.prems(2) obtain r st1 rs' where
    one: "lru_step (capacity s) stored stale none x (contents s) = Some (r, st1)"
    and rest: "lru_run (capacity s) stored stale none xs st1 = Some (rs', st)" and "rs = r # rs'"
    by (auto simp: bind_eq_Some_conv)
  obtain s1 where "store_step put get x s = Some (Inr (r, s1))" "ready s1"
    "capacity s1 = capacity s" "contents s1 = st1"
    using step_refines [OF Cons.prems(1) one] by blast
  moreover from this obtain s' where "store_run put get xs s1 = Some (Inr (rs', s'))" "ready s'"
    "capacity s' = capacity s" "contents s' = st"
    using Cons.IH [of s1 rs'] rest by auto
  ultimately show ?case using \<open>rs = r # rs'\<close> by auto
qed

end

section \<open>The cache keeps the contract\<close>

lemma length_contents: "cache_ok c \<Longrightarrow> length (cache_contents c) = c_length c"
  by (simp add: cache_ok_def cache_contents_def lru_inv_defs)

lemma ready_room:
  "cache_ready c \<Longrightarrow> length (cache_contents c) < cache_capacity c \<Longrightarrow> has_room c"
  using is_full_iff [of "lru_order c" c]
  by (auto simp: cache_ready_def has_room_def cache_ok_def cache_contents_def cache_capacity_def)

lemma set_multi_ready:
  assumes "cache_ready c" and "length (cache_contents c) < cache_capacity c"
    and "stored_multi now label data = Some ds"
  shows "\<exists>r c'. set_cache_A_multi_record now label data c = Some (Inr (r, c')) \<and> cache_ready c'
    \<and> cache_capacity c' = cache_capacity c \<and> cache_contents c' = lru_put label ds (cache_contents c)"
proof -
  let ?c = "c\<lparr>c_locked := True\<rparr>"
  have ok: "cache_ok ?c" "has_room ?c" "\<not> c_locked c"
    using assms ready_room [of c] by (simp_all add: cache_ready_def)
  have st: "\<And>d. d \<in> set data \<Longrightarrow> rd_label d = label" "filter (\<lambda>d. now \<le> rd_ttl d) data \<noteq> []"
    and ds: "ds = filter (\<lambda>d. now \<le> rd_ttl d) data"
    using assms(3) by (auto simp: stored_multi_def Let_def list_all_iff split: if_splits)
  obtain c1 where "set_cache_A_multi_record_unlocked now label data ?c = Some (Inr (1, c1))"
    and "cache_ok c1 \<and> c_used_size c1 = c_used_size ?c \<and> c_max_size c1 = c_max_size ?c
      \<and> c_max_length c1 = c_max_length ?c
      \<and> cache_contents c1 = lru_put label (filter (\<lambda>d. now \<le> rd_ttl d) data) (cache_contents ?c)"
    using set_multi_unlocked_ok [OF ok(1,2) st] by blast
  then show ?thesis
    using assms(1) ok(3) ds
    by (simp add: set_cache_A_multi_record_def cache_lock_def cache_unlock_def cache_ready_def
        cache_capacity_def)
qed

lemma set_single_ready:
  assumes "cache_ready c" and "length (cache_contents c) < cache_capacity c"
    and "stored_single now label d = Some ds"
  shows "\<exists>r c'. set_cache_A_record now label d c = Some (Inr (r, c')) \<and> cache_ready c'
    \<and> cache_capacity c' = cache_capacity c \<and> cache_contents c' = lru_put label ds (cache_contents c)"
proof -
  let ?c = "c\<lparr>c_locked := True\<rparr>"
  have ok: "cache_ok ?c" "has_room ?c" "\<not> c_locked c"
    using assms ready_room [of c] by (simp_all add: cache_ready_def)
  have st: "now \<le> rd_ttl d" "rd_label d = label" "ds = [d]"
    using assms(3) by (auto simp: stored_single_def split: if_splits)
  obtain c1 i where "set_cache_A_record_unlocked now label d ?c = Some (Inr (i, c1))"
    and "cache_ok c1 \<and> c_used_size c1 = c_used_size ?c \<and> c_max_size c1 = c_max_size ?c
      \<and> c_max_length c1 = c_max_length ?c
      \<and> cache_contents c1 = lru_put label [d] (cache_contents ?c)"
    using set_single_unlocked_ok [OF ok(1,2) st(1)] st(2) by auto
  then show ?thesis
    using assms(1) ok(3) st(3)
    by (simp add: set_cache_A_record_def cache_lock_def cache_unlock_def cache_ready_def
        cache_capacity_def)
qed

lemma get_ready_hit:
  assumes "cache_ready c" and "map_of (cache_contents c) label = Some ds" and "\<not> expired now ds"
  shows "\<exists>c'. get_cache_A_record now label c = Inr (ds, c') \<and> cache_ready c'
    \<and> cache_capacity c' = cache_capacity c \<and> cache_contents c' = lru_put label ds (cache_contents c)"
proof -
  let ?c = "c\<lparr>c_locked := True\<rparr>"
  obtain c1 where "get_cache_A_record_unlocked now label ?c = Inr (ds, c1)"
    and "cache_ok c1 \<and> c_used_size c1 = c_used_size ?c \<and> c_max_size c1 = c_max_size ?c
      \<and> c_max_length c1 = c_max_length ?c \<and> c_length c1 = c_length ?c
      \<and> cache_contents c1 = lru_put label ds (cache_contents ?c)"
    using get_unlocked_hit [of ?c label ds now] assms by (auto simp: cache_ready_def)
  then show ?thesis
    using assms(1)
    by (simp add: get_cache_A_record_def cache_lock_def cache_unlock_def cache_ready_def
        cache_capacity_def)
qed

lemma get_ready_miss:
  assumes "cache_ready c" and "map_of (cache_contents c) label = None"
  shows "get_cache_A_record now label c = Inr ([], c)"
  using get_unlocked_miss [of "c\<lparr>c_locked := True\<rparr>" label now] assms
  by (simp add: get_cache_A_record_def cache_lock_def cache_unlock_def cache_ready_def)

interpretation multi: lru_store cache_ready cache_capacity cache_contents stored_multi expired "[]"
  set_cache_A_multi_record get_cache_A_record
  by unfold_locales (rule set_multi_ready get_ready_hit get_ready_miss; assumption)+

interpretation single: lru_store cache_ready cache_capacity cache_contents stored_single expired "[]"
  set_cache_A_record get_cache_A_record
  by unfold_locales (rule set_single_ready get_ready_hit get_ready_miss; assumption)+

lemma init_ready:
  assumes "0 < n" and "n < 2 ^ 31" and "0 < ff" and "ff \<le> 1" and "of_int n / ff < 2 ^ 31 - 1"
    and "1024 \<le> m"
  shows "\<exists>c. init_cache n m ff = Inr c \<and> cache_ready c \<and> cache_contents c = []
    \<and> cache_capacity c = nat n - 1"
proof -
  obtain c where c: "init_cache n m ff = Inr c \<and> lru_inv [] c \<and> \<not> c_locked c \<and> c_max_length c = nat n
    \<and> c_used_size c = 0 \<and> c_max_size c = nat m \<and> c_length c = 0"
    using init_cache_inv [OF assms(1-5), of m] assms(6) by auto
  moreover from c have "cache_contents c = []"
    using contents_lru_inv [of "[]" c] by simp
  ultimately show ?thesis
    using cache_okI [of "[]" c] assms(6) by (auto simp: cache_ready_def cache_capacity_def)
qed

end
