(* ===== verification/LruProperties.thy ===== *)
theory LruProperties
  imports LruSpec "HOL-Library.Code_Target_Nat"
begin

text \<open>
  The properties of the LRU cache (\<open>src/src/cache.c\<close>), each over the operations as a caller
  sees them: the lock is taken and given back inside.
\<close>

section \<open>Helper lemmas\<close>

lemma walk_next_dl:
  "dl (nx rs) (pv rs) p xs \<Longrightarrow> set (p # xs) \<subseteq> {..<length rs} \<Longrightarrow>
    walk_next rs (length xs) (int p) lst n
      = Inr (n + length xs, int (last (p # xs)), if xs = [] then lst else int (last xs))"
  by (induction xs arbitrary: p lst n) (auto simp: nx_def)

lemma walk_last_path:
  "path (nx rs) (pv rs) p xs \<Longrightarrow> set xs \<subseteq> {..<length rs} \<Longrightarrow>
    walk_last rs (length xs) (int (last (p # xs))) n = Inr (n + length xs, int p)"
proof (induction xs arbitrary: n rule: rev_induct)
  case Nil
  then show ?case by simp
next
  case (snoc x xs)
  then have "r_last (rs ! x) = int (last (p # xs))" by (auto simp: path_append pv_def)
  with snoc show ?case by (simp add: path_append del: last.simps) simp
qed

lemma test_normal_lru_inv:
  assumes inv: "lru_inv xs c"
  shows "test_normal c = Inr ()"
proof -
  let ?rs = "c_records c"
  have dl: "dl (nx ?rs) (pv ?rs) 0 xs" and len: "c_length c = length xs"
    and ends: "xs \<noteq> [] \<Longrightarrow> c_first c = int (hd xs) \<and> c_last c = int (last xs)"
    and bnd: "set (0 # xs) \<subseteq> {..<length ?rs}"
    using inv by (auto simp: lru_inv_defs)
  define l where "l = last (0 # xs)"
  have l: "l < length ?rs" "r_next (?rs ! l) = - 1"
    using bnd last_in_set [of "0 # xs"] dl by (auto simp: l_def dl_path nx_def simp del: last.simps)
  have head: "length xs > 1 \<Longrightarrow> r_next (?rs ! 0) = int (hd xs)"
    using dl by (cases xs) (auto simp: nx_def)
  have fwd: "walk_next ?rs (c_length c) LRU_BUFFER_HEAD_POINT 0 0
      = Inr (length xs, int l, if xs = [] then 0 else int (last xs))"
    using walk_next_dl [OF dl bnd, of 0 0] by (simp add: len LRU_BUFFER_HEAD_POINT_def l_def)
  have bwd: "walk_last ?rs (c_length c) (int l) 0 = Inr (length xs, 0)"
    using walk_last_path [of ?rs 0 xs 0] dl bnd by (simp add: len dl_path l_def)
  have "0 < length ?rs" using bnd by auto
  then show ?thesis
    using fwd bwd l head ends len
    by (simp add: test_normal_def) (auto simp: LRU_BUFFER_HEAD_POINT_def)
qed

lemma removed_locked [simp]: "removed xs x c (c'\<lparr>c_locked := b\<rparr>) = removed xs x c c'"
  by (simp add: removed_def slots_ok_def links_ok_def free_slots_def)

lemma lru_order_locked [simp]: "lru_order (c\<lparr>c_locked := b\<rparr>) = lru_order c"
  by (simp add: lru_order_def)

text \<open>A read of a stale entry, by slot.\<close>

lemma get_ready_expired:
  assumes ready: "cache_ready c" and ds: "map_of (cache_contents c) label = Some ds"
    and exp: "expired now ds"
  obtains x c' where "x \<in> set (lru_order c)" and "rec_label (c_records c ! x) = label"
    and "get_cache_A_record now label c = Inr ([], c'\<lparr>c_locked := False\<rparr>)"
    and "removed (lru_order c) x (c\<lparr>c_locked := True\<rparr>) c'"
proof -
  have inv: "lru_inv (lru_order c) c" and lock: "\<not> c_locked c"
    using ready by (simp_all add: cache_ready_def cache_ok_def)
  obtain x where x: "x \<in> set (lru_order c)" "rec_label (c_records c ! x) = label"
    "rec_chain (c_records c ! x) = ds"
    using contents_lookup [OF inv ds] by blast
  obtain c' where "get_cache_A_record_unlocked now label (c\<lparr>c_locked := True\<rparr>) = Inr ([], c')"
    "removed (lru_order c) x (c\<lparr>c_locked := True\<rparr>) c'"
    using get_unlocked_expired [of "lru_order c" "c\<lparr>c_locked := True\<rparr>" x now] inv x exp by auto
  with that x lock show ?thesis
    by (simp add: get_cache_A_record_def cache_lock_def cache_unlock_def)
qed

text \<open>A cache with given entries, as a sequence of writes leaves it.\<close>

definition sample :: "cstring \<Rightarrow> int \<Rightarrow> record_data" where
  "sample label ttl = \<lparr>rd_label = label, rd_ip = \<lparr>ip_addr = replicate 16 0, ip_type = 4\<rparr>, rd_ttl = ttl\<rparr>"

lemma sample_ready:
  assumes "lru_run 3 stored_single expired [] xs [] = Some (rs, st)"
  shows "\<exists>c. cache_ready c \<and> cache_capacity c = 3 \<and> cache_contents c = st"
proof -
  obtain c where "init_cache 4 2048 (1 / 2) = Inr c \<and> cache_ready c \<and> cache_contents c = []
    \<and> cache_capacity c = nat 4 - 1"
    using init_ready [of 4 "1 / 2" 2048] by auto
  then show ?thesis using single.run_refines [of c xs rs st] assms by auto
qed

text \<open>A write on a cache with room, without the loops of \<open>push_front\<close> that make room.\<close>

definition write_direct ::
  "int \<Rightarrow> cstring \<Rightarrow> record_data list \<Rightarrow> cache \<Rightarrow> (int \<times> cache) result" where
  "write_direct now label data c =
     bindE (claim_record label (c\<lparr>c_locked := True\<rparr>)) (\<lambda>(rec, addr, to_link, Cache).
     bindE (if to_link then link_first rec addr Cache else Inr Cache) (\<lambda>Cache.
     bindE (release_if_used rec Cache) (\<lambda>Cache.
     bindE (upd_record (\<lambda>r. add_A_multi_record now r data) rec Cache) (\<lambda>Cache.
     Inr (1, cache_unlock Cache)))))"

lemma bindP_Some: "bindP (Some m) (\<lambda>x. Some (f x)) = Some (bindE m f)"
  by (cases m) simp_all

lemma write_direct_eq:
  assumes "has_room c" and "c_is_init c" and "\<not> c_locked c"
  shows "set_cache_A_multi_record now label data c = Some (write_direct now label data c)"
  using assms
  by (cases "claim_record label (c\<lparr>c_locked := True\<rparr>)")
    (auto simp: set_cache_A_multi_record_def set_cache_A_multi_record_unlocked_def has_room_push
      write_direct_def cache_lock_def bindP_Some split_def)

section \<open>Properties\<close>



text \<open>Writing one record: on a ready cache below its capacity, a record that is not
  already out of date is stored under its label in front of all other entries, a previous
  entry of the label is replaced, every other entry is kept in its order, and the return
  value is the space of the record.\<close>

theorem set_cache_A_record_refines:
  assumes "cache_ready c" and "length (cache_contents c) < cache_capacity c"
    and "now \<le> rd_ttl d"
  shows "\<exists>r c'. set_cache_A_record now (rd_label d) d c = Some (Inr (r, c')) \<and> cache_ready c'
    \<and> cache_capacity c' = cache_capacity c
    \<and> cache_contents c' = lru_put (rd_label d) [d] (cache_contents c)"
  using single.put_ok [OF assms(1,2), of now "rd_label d" d "[d]"] assms(3)
  by (simp add: stored_single_def)

theorem set_cache_A_record_refines_witness:
  "\<exists>c r c'. cache_contents c = [([98], [sample [98] 7]), ([97], [sample [97] 9])]
    \<and> set_cache_A_record 5 [97] (sample [97] 6) c = Some (Inr (r, c'))
    \<and> cache_contents c' = [([97], [sample [97] 6]), ([98], [sample [98] 7])]"
proof -
  obtain c where c: "cache_ready c" "cache_capacity c = 3"
    "cache_contents c = [([98], [sample [98] 7]), ([97], [sample [97] 9])]"
    using sample_ready [of "[Put 5 [97] (sample [97] 9), Put 5 [98] (sample [98] 7)]"]
    by (auto simp: stored_single_def sample_def lru_put_def)
  then show ?thesis
    using set_cache_A_record_refines [OF c(1), of 5 "sample [97] 6"]
    by (auto simp: sample_def lru_put_def)
qed

text \<open>Read your writes: after \<open>set_cache_A_multi_record\<close> of data of which some are in
  date, \<open>get_cache_A_record\<close> of the label, at any later time at which the first of them is
  not stale, returns exactly the data that were in date when written, in their order.\<close>

theorem cache_read_your_writes:
  assumes "cache_ready c" and "length (cache_contents c) < cache_capacity c"
    and "\<forall>d \<in> set data. rd_label d = label"
    and "filter (\<lambda>d. now \<le> rd_ttl d) data \<noteq> []"
    and "\<not> expired now' (filter (\<lambda>d. now \<le> rd_ttl d) data)"
  shows "\<exists>r c' c''. set_cache_A_multi_record now label data c = Some (Inr (r, c'))
    \<and> get_cache_A_record now' label c' = Inr (filter (\<lambda>d. now \<le> rd_ttl d) data, c'')
    \<and> cache_contents c'' = cache_contents c'"
  by (rule multi.get_after_put [OF assms(1,2) _ assms(5)])
    (use assms(3,4) in \<open>simp add: stored_multi_def Let_def list_all_iff\<close>)

theorem cache_read_your_writes_witness:
  "\<exists>c r c' c''. set_cache_A_multi_record 5 [97] [sample [97] 3, sample [97] 6] c = Some (Inr (r, c'))
    \<and> get_cache_A_record 6 [97] c' = Inr ([sample [97] 6], c'')
    \<and> cache_contents c'' = cache_contents c'"
proof -
  obtain c where c: "cache_ready c" "cache_capacity c = 3" "cache_contents c = []"
    using sample_ready [of "[]"] by auto
  then show ?thesis
    using cache_read_your_writes [OF c(1), of "[sample [97] 3, sample [97] 6]" "[97]" 5 6]
    by (auto simp: sample_def expired_def)
qed

text \<open>A write does not disturb the other labels: an entry of another label that is
  present and not stale is still returned after \<open>set_cache_A_multi_record\<close>.\<close>

theorem cache_write_keeps_others:
  assumes "cache_ready c" and "length (cache_contents c) < cache_capacity c"
    and "stored_multi now label data = Some ds"
    and "label' \<noteq> label" and "map_of (cache_contents c) label' = Some es" and "\<not> expired now' es"
  shows "\<exists>r c' c''. set_cache_A_multi_record now label data c = Some (Inr (r, c'))
    \<and> get_cache_A_record now' label' c' = Inr (es, c'')"
  by (rule multi.get_other_after_put [OF assms])

theorem cache_write_keeps_others_witness:
  "\<exists>c r c' c''. cache_contents c = [([97], [sample [97] 9])]
    \<and> set_cache_A_multi_record 5 [98] [sample [98] 7] c = Some (Inr (r, c'))
    \<and> get_cache_A_record 9 [97] c' = Inr ([sample [97] 9], c'')"
proof -
  obtain c where c: "cache_ready c" "cache_capacity c = 3" "cache_contents c = [([97], [sample [97] 9])]"
    using sample_ready [of "[Put 5 [97] (sample [97] 9)]"]
    by (auto simp: stored_single_def sample_def lru_put_def)
  then show ?thesis
    using cache_write_keeps_others [OF c(1), of 5 "[98]" "[sample [98] 7]" "[sample [98] 7]" "[97]"
        "[sample [97] 9]" 9]
    by (auto simp: sample_def stored_multi_def expired_def)
qed

text \<open>Reading: a label that is not cached gives the null result and changes nothing; an
  entry that is not stale is returned and moved to the front of the recency order.\<close>

theorem get_cache_A_record_cases:
  assumes "cache_ready c"
  shows "case map_of (cache_contents c) label of
      None \<Rightarrow> get_cache_A_record now label c = Inr ([], c)
    | Some ds \<Rightarrow> expired now ds \<or>
        (\<exists>c'. get_cache_A_record now label c = Inr (ds, c') \<and> cache_ready c'
          \<and> cache_contents c' = lru_put label ds (cache_contents c))"
  using single.get_miss [OF assms, of label now] single.get_hit [OF assms, of label _ now]
  by (cases "map_of (cache_contents c) label") auto

theorem get_cache_A_record_cases_witness:
  "\<exists>c c'. cache_contents c = [([98], [sample [98] 7]), ([97], [sample [97] 9])]
    \<and> get_cache_A_record 8 [97] c = Inr ([sample [97] 9], c')
    \<and> cache_contents c' = [([97], [sample [97] 9]), ([98], [sample [98] 7])]
    \<and> get_cache_A_record 8 [99] c = Inr ([], c)"
proof -
  obtain c where c: "cache_ready c"
    "cache_contents c = [([98], [sample [98] 7]), ([97], [sample [97] 9])]"
    using sample_ready [of "[Put 5 [97] (sample [97] 9), Put 5 [98] (sample [98] 7)]"]
    by (auto simp: stored_single_def sample_def lru_put_def)
  then show ?thesis
    using get_cache_A_record_cases [OF c(1), of 8 "[97]"] get_cache_A_record_cases [OF c(1), of 8 "[99]"]
    by (auto simp: sample_def lru_put_def expired_def)
qed

text \<open>C24. The structure check built into the program, \<open>test_normal\<close>, which walks the record
  list forward and backward and compares the counts and both ends with the fields of the
  cache, passes in every state that satisfies the invariant: it neither leaves the array
  nor exits.\<close>

theorem test_normal_passes:
  assumes "cache_ok c"
  shows "test_normal c = Inr ()"
  using assms test_normal_lru_inv by (simp add: cache_ok_def)

theorem test_normal_passes_witness:
  "\<exists>c. length (cache_contents c) = 2 \<and> test_normal c = Inr ()"
proof -
  obtain c where "cache_ready c" "length (cache_contents c) = 2"
    using sample_ready [of "[Put 5 [97] (sample [97] 9), Put 5 [98] (sample [98] 7)]"]
    by (auto simp: stored_single_def sample_def lru_put_def)
  then show ?thesis using test_normal_passes [of c] by (auto simp: cache_ready_def)
qed

text \<open>Reading a stale entry that is the only entry gives the null result and leaves a
  well-formed empty cache that can be used on.\<close>

theorem expired_only_entry_removed:
  assumes "cache_ready c" and "cache_contents c = [(label, ds)]" and "expired now ds"
  shows "\<exists>c'. get_cache_A_record now label c = Inr ([], c') \<and> cache_ready c'
    \<and> cache_contents c' = []"
proof -
  obtain x c' where x: "x \<in> set (lru_order c)"
    and get: "get_cache_A_record now label c = Inr ([], c'\<lparr>c_locked := False\<rparr>)"
    and rem: "removed (lru_order c) x (c\<lparr>c_locked := True\<rparr>) c'"
    by (rule get_ready_expired [OF assms(1) _ assms(3), of label]) (simp_all add: assms(2))
  have inv: "lru_inv [x] (c\<lparr>c_locked := True\<rparr>)" and ord: "lru_order c = [x]"
    using x assms(1,2) by (auto simp: cache_ready_def cache_ok_def cache_contents_def)
  then have "lru_inv [] c'" using rem removed_single [OF inv] by simp
  moreover have "c_used_size c' = 0" "c_max_size c' = c_max_size c"
    using rem inv assms(1) by (simp_all add: ord removed_def lru_inv_defs head_ok_def cache_ready_def Let_def)
  ultimately show ?thesis
    using get assms(1) contents_lru_inv [of "[]" c'] cache_okI [of "[]" c']
    by (auto simp: cache_ready_def)
qed

theorem expired_only_entry_removed_witness:
  "\<exists>c c'. cache_contents c = [([97], [sample [97] 9])]
    \<and> get_cache_A_record 10 [97] c = Inr ([], c') \<and> cache_contents c' = []"
proof -
  obtain c where c: "cache_ready c" "cache_contents c = [([97], [sample [97] 9])]"
    using sample_ready [of "[Put 5 [97] (sample [97] 9)]"]
    by (auto simp: stored_single_def sample_def lru_put_def)
  then show ?thesis
    using expired_only_entry_removed [OF c, of 10]
    by (auto simp: sample_def expired_def DNS_CACHE_PERMANENT_def)
qed

text \<open>C27. Reading a stale entry while other entries exist corrupts the cache:
  \<open>remove_record\<close> releases the data of the least recently used of the remaining entries in
  place of the removed one, and the next read of that entry's label reads freed memory.\<close>

theorem expired_read_frees_another:
  assumes "cache_ready c" and "map_of (cache_contents c) label = Some ds" and "expired now ds"
    and "filter (\<lambda>e. fst e \<noteq> label) (cache_contents c) = rest" and "rest \<noteq> []"
  shows "\<exists>c'. get_cache_A_record now label c = Inr ([], c')
    \<and> get_cache_A_record now' (fst (last rest)) c' = Inl UseAfterFree"
proof -
  let ?c = "c\<lparr>c_locked := True\<rparr>"
  obtain x c' where x: "x \<in> set (lru_order c)" "rec_label (c_records c ! x) = label"
    and get: "get_cache_A_record now label c = Inr ([], c'\<lparr>c_locked := False\<rparr>)"
    and rem: "removed (lru_order c) x ?c c'"
    using get_ready_expired [OF assms(1-3)] by blast
  have inv: "lru_inv (lru_order c) ?c" and inv': "lru_inv (lru_order c) c"
    using assms(1) by (simp_all add: cache_ready_def cache_ok_def)
  have flt: "filter (\<lambda>y. rec_label (c_records c ! y) \<noteq> label) (lru_order c) = removeAll x (lru_order c)"
    by (rule filter_removeAll [OF label_inj [OF inv']]) (use x in auto)
  then have rest: "rest = map (entry (c_records c)) (removeAll x (lru_order c))"
    using assms(4) by (simp add: cache_contents_def filter_map comp_def entry_def)
  then have ne: "removeAll x (lru_order c) \<noteq> []" using assms(5) by auto
  define t where "t = last (removeAll x (lru_order c))"
  have "rec_label (c_records c ! t) = fst (last rest)"
    using ne by (simp add: rest last_map entry_def t_def)
  moreover have "removed (lru_order c) x ?c (c'\<lparr>c_locked := True\<rparr>)" using rem by simp
  from removed_dangling [OF inv x(1) this ne t_def]
  have "get_cache_A_record_unlocked now' (rec_label (c_records c ! t)) (c'\<lparr>c_locked := True\<rparr>)
      = Inl UseAfterFree" by simp
  ultimately show ?thesis
    using get by (intro exI [of _ "c'\<lparr>c_locked := False\<rparr>"])
      (simp add: get_cache_A_record_def cache_lock_def)
qed

theorem expired_read_frees_another_witness:
  "\<exists>c c'. cache_contents c = [([98], [sample [98] 20]), ([97], [sample [97] 9])]
    \<and> get_cache_A_record 10 [97] c = Inr ([], c')
    \<and> get_cache_A_record 10 [98] c' = Inl UseAfterFree"
proof -
  obtain c where c: "cache_ready c"
    "cache_contents c = [([98], [sample [98] 20]), ([97], [sample [97] 9])]"
    using sample_ready [of "[Put 5 [97] (sample [97] 9), Put 5 [98] (sample [98] 20)]"]
    by (auto simp: stored_single_def sample_def lru_put_def)
  then show ?thesis
    using expired_read_frees_another [OF c(1), of "[97]" "[sample [97] 9]" 10 _ 10]
    by (auto simp: sample_def expired_def DNS_CACHE_PERMANENT_def)
qed

text \<open>C28. A cache that has reached its capacity does not evict: the next write, whatever its
  label and data, ends the process with \<open>exit (0)\<close>.\<close>

theorem full_cache_write_exits:
  assumes "cache_ready c" and "length (cache_contents c) = cache_capacity c"
    and "0 < cache_capacity c"
  shows "set_cache_A_multi_record now label data c = Some (Inl (Exit 0))
    \<and> set_cache_A_record now label d c = Some (Inl (Exit 0))"
proof -
  let ?c = "c\<lparr>c_locked := True\<rparr>"
  have inv: "lru_inv (lru_order c) ?c" using assms(1) by (simp add: cache_ready_def cache_ok_def)
  have "is_full ?c" "2 \<le> c_max_length ?c"
    using is_full_iff [OF inv] assms(2,3) by (auto simp: cache_capacity_def cache_contents_def)
  then have "push_front label ?c = Some (Inl (Exit 0))" using push_front_full [OF inv] by simp
  moreover have "c_is_init ?c" "\<not> c_locked c"
    using assms(1) inv by (simp_all add: lru_inv_def cache_ready_def)
  ultimately show ?thesis
    by (simp add: set_cache_A_multi_record_def set_cache_A_record_def cache_lock_def
        set_cache_A_multi_record_unlocked_def set_cache_A_record_unlocked_def)
qed

theorem full_cache_write_exits_witness:
  "\<exists>c. length (cache_contents c) = 3
    \<and> set_cache_A_multi_record 5 [100] [sample [100] 9] c = Some (Inl (Exit 0))"
proof -
  obtain c where c: "cache_ready c" "cache_capacity c = 3" "length (cache_contents c) = 3"
    using sample_ready [of "[Put 5 [97] (sample [97] 9), Put 5 [98] (sample [98] 9),
        Put 5 [99] (sample [99] 9)]"]
    by (auto simp: stored_single_def sample_def lru_put_def)
  then show ?thesis using full_cache_write_exits [OF c(1)] by auto
qed


end
