(* ===== verification/Bytes.thy ===== *)
theory Bytes
  imports DnsTypes
begin

text \<open>
  Byte buffers: network-order integers in a buffer (\<open>ntohs\<close>, \<open>htons\<close>, \<open>ntohl\<close>, \<open>htonl\<close>
  applied to a field of an overlaid structure), \<open>memcpy\<close>, and writing a run of bytes.
  A pointer into a buffer is an offset from its start; every access is checked.
\<close>

section \<open>Integers in a buffer\<close>

text \<open>The two bytes of a 16-bit value, and the value of two bytes, most significant first.\<close>

definition be16 :: "byte \<Rightarrow> byte \<Rightarrow> u16" where
  "be16 hi lo = push_bit 8 (ucast hi) OR ucast lo"

definition hi8 :: "u16 \<Rightarrow> byte" where "hi8 v = ucast (drop_bit 8 v)"
definition lo8 :: "u16 \<Rightarrow> byte" where "lo8 v = ucast v"

definition be32 :: "u16 \<Rightarrow> u16 \<Rightarrow> u32" where
  "be32 hi lo = push_bit 16 (ucast hi) OR ucast lo"

definition hi16 :: "u32 \<Rightarrow> u16" where "hi16 v = ucast (drop_bit 16 v)"
definition lo16 :: "u32 \<Rightarrow> u16" where "lo16 v = ucast v"

text \<open>Reading and writing a field in network order at an offset.\<close>

definition get16 :: "byte list \<Rightarrow> int \<Rightarrow> u16 result" where
  "get16 buf p = bindE (arr_get buf p) (\<lambda>hi. bindE (arr_get buf (p + 1)) (\<lambda>lo. Inr (be16 hi lo)))"

definition set16 :: "byte list \<Rightarrow> int \<Rightarrow> u16 \<Rightarrow> byte list result" where
  "set16 buf p v = bindE (arr_set buf p (hi8 v)) (\<lambda>buf. arr_set buf (p + 1) (lo8 v))"

definition get32 :: "byte list \<Rightarrow> int \<Rightarrow> u32 result" where
  "get32 buf p = bindE (get16 buf p) (\<lambda>hi. bindE (get16 buf (p + 2)) (\<lambda>lo. Inr (be32 hi lo)))"

definition set32 :: "byte list \<Rightarrow> int \<Rightarrow> u32 \<Rightarrow> byte list result" where
  "set32 buf p v = bindE (set16 buf p (hi16 v)) (\<lambda>buf. set16 buf (p + 2) (lo16 v))"

text \<open>Reading \<open>n\<close> bytes, and writing a run of bytes, as \<open>memcpy\<close> does.\<close>

definition read_bytes :: "byte list \<Rightarrow> int \<Rightarrow> nat \<Rightarrow> byte list result" where
  "read_bytes buf p n =
     (if n = 0 then Inr []
      else if 0 \<le> p \<and> p + int n \<le> int (length buf) then Inr (take n (drop (nat p) buf))
      else Inl OutOfBounds)"

definition blit :: "nat \<Rightarrow> 'a list \<Rightarrow> 'a list \<Rightarrow> 'a list" where
  "blit d bs buf = take d buf @ bs @ drop (d + length bs) buf"

definition write_bytes :: "byte list \<Rightarrow> int \<Rightarrow> byte list \<Rightarrow> byte list result" where
  "write_bytes buf p bs =
     (if bs = [] then Inr buf
      else if 0 \<le> p \<and> p + int (length bs) \<le> int (length buf) then Inr (blit (nat p) bs buf)
      else Inl OutOfBounds)"

section \<open>Lemmas\<close>

lemma hi8_be16 [simp]: "hi8 (be16 a b) = a"
  unfolding hi8_def be16_def by (rule bit_word_eqI) (auto simp: bit_simps dest: bit_imp_le_length)

lemma lo8_be16 [simp]: "lo8 (be16 a b) = b"
  unfolding lo8_def be16_def by (rule bit_word_eqI) (auto simp: bit_simps)

lemma be16_hi8_lo8 [simp]: "be16 (hi8 v) (lo8 v) = v"
  unfolding hi8_def lo8_def be16_def by (rule bit_word_eqI) (auto simp: bit_simps)

lemma be32_hi16_lo16 [simp]: "be32 (hi16 v) (lo16 v) = v"
  unfolding hi16_def lo16_def be32_def by (rule bit_word_eqI) (auto simp: bit_simps)

lemma unat_be16: "unat (be16 a b) = 256 * unat a + unat b"
proof -
  have "push_bit 8 (ucast a) AND (ucast b :: u16) = 0"
    by (rule bit_word_eqI) (auto simp: bit_simps dest: bit_imp_le_length)
  then have "be16 a b = push_bit 8 (ucast a) + ucast b"
    by (simp add: be16_def disjunctive_add_eq_or)
  moreover have "unat a < 256" "unat b < 256" using unsigned_less [of a] unsigned_less [of b] by simp_all
  ultimately show ?thesis
    by (simp add: push_bit_eq_mult unat_word_ariths unsigned_ucast_eq take_bit_eq_mod)
qed

lemma blit_Nil [simp]: "blit d [] buf = buf"
  by (simp add: blit_def)

lemma length_blit [simp]: "d + length bs \<le> length buf \<Longrightarrow> length (blit d bs buf) = length buf"
  by (simp add: blit_def)

lemma nth_blit:
  "d + length bs \<le> length buf \<Longrightarrow> i < length buf \<Longrightarrow>
    blit d bs buf ! i = (if i < d then buf ! i else if i < d + length bs then bs ! (i - d) else buf ! i)"
  by (auto simp: blit_def nth_append)

lemma blit_snoc:
  assumes "d + length bs < length buf"
  shows "(blit d bs buf)[d + length bs := b] = blit d (bs @ [b]) buf"
  using assms by (auto intro!: nth_equalityI simp: nth_blit nth_list_update nth_append)

lemma blit_blit:
  assumes "d + length bs + length cs \<le> length buf"
  shows "blit (d + length bs) cs (blit d bs buf) = blit d (bs @ cs) buf"
  using assms by (auto intro!: nth_equalityI simp: nth_blit nth_append)

lemma take_drop_blit:
  "d + length bs \<le> length buf \<Longrightarrow> take (length bs) (drop d (blit d bs buf)) = bs"
  by (simp add: blit_def)

lemma arr_set_blit:
  assumes "p = int (d + length bs)" and "d + length bs < length buf"
  shows "arr_set (blit d bs buf) p b = Inr (blit d (bs @ [b]) buf)"
  using assms by (simp add: arr_set_def blit_snoc nat_add_distrib)

lemma set16_blit:
  assumes "p = int (d + length bs)" and "d + length bs + 2 \<le> length buf"
  shows "set16 (blit d bs buf) p v = Inr (blit d (bs @ [hi8 v, lo8 v]) buf)"
  using assms arr_set_blit [of p d bs buf "hi8 v"]
    arr_set_blit [of "p + 1" d "bs @ [hi8 v]" buf "lo8 v"] by (simp add: set16_def)

lemma set32_blit:
  assumes "p = int (d + length bs)" and "d + length bs + 4 \<le> length buf"
  shows "set32 (blit d bs buf) p v
    = Inr (blit d (bs @ [hi8 (hi16 v), lo8 (hi16 v), hi8 (lo16 v), lo8 (lo16 v)]) buf)"
  using assms set16_blit [of p d bs buf]
    set16_blit [of "p + 2" d "bs @ [hi8 (hi16 v), lo8 (hi16 v)]" buf] by (simp add: set32_def)

lemma write_bytes_blit:
  assumes "p = int (d + length bs)" and "d + length bs + length cs \<le> length buf"
  shows "write_bytes (blit d bs buf) p cs = Inr (blit d (bs @ cs) buf)"
  using assms by (simp add: write_bytes_def blit_blit nat_add_distrib)

lemma get16_in [simp]:
  "0 \<le> p \<Longrightarrow> p + 1 < int (length buf) \<Longrightarrow> get16 buf p = Inr (be16 (buf ! nat p) (buf ! nat (p + 1)))"
  by (simp add: get16_def)

lemma read_bytes_in:
  "d + n \<le> length buf \<Longrightarrow> read_bytes buf (int d) n = Inr (take n (drop d buf))"
  by (simp add: read_bytes_def)

end
