(* ===== verification/DnsLabel.thy ===== *)
theory DnsLabel
  imports Bytes "HOL-Library.Code_Target_Nat"
begin

text \<open>
  Domain names on the wire (\<open>src/src/common.c\<close>): \<open>str_to_label\<close> writes a dotted name as
  length-prefixed labels, \<open>fetch_label\<close> reads one, following compression pointers, and
  \<open>jump_label\<close> walks over one. The wire format itself is the inductive relation \<open>name_at\<close>.
\<close>

section \<open>Writing a name\<close>

definition DOT :: byte where "DOT = 46"

text \<open>The loop of \<open>str_to_label\<close> over the characters \<open>host[i..]\<close>; \<open>d\<close> is the offset of
  \<open>dest\<close> in its buffer. The result holds the characters that are left.\<close>

fun str_to_label_loop :: "int \<Rightarrow> int \<Rightarrow> cstring \<Rightarrow> byte list \<Rightarrow> int \<Rightarrow> int \<Rightarrow> int
    \<Rightarrow> (cstring \<times> byte list \<times> int \<times> int \<times> int) result" where
  "str_to_label_loop d maxlen [] buf last_pos cumulate j = Inr ([], buf, last_pos, cumulate, j)"
| "str_to_label_loop d maxlen (h # hs) buf last_pos cumulate j =
     (if j < maxlen then
        if h = DOT then
          bindE (arr_set buf (d + last_pos) (of_int cumulate)) (\<lambda>buf.
            str_to_label_loop d maxlen hs buf j 0 (j + 1))
        else
          bindE (arr_set buf (d + j) h) (\<lambda>buf.
            str_to_label_loop d maxlen hs buf last_pos (cumulate + 1) (j + 1))
      else Inr (h # hs, buf, last_pos, cumulate, j))"

definition str_to_label :: "byte list \<Rightarrow> int \<Rightarrow> cstring \<Rightarrow> int \<Rightarrow> (int \<times> byte list) result" where
  "str_to_label buf d host maxlen =
     bindE (str_to_label_loop d maxlen host buf 0 0 1) (\<lambda>(rest, buf, last_pos, cumulate, j).
       if rest \<noteq> [] then Inr (- 1, buf)
       else
         bindE (arr_set buf (d + last_pos) (of_int cumulate)) (\<lambda>buf.
         bindE (arr_set buf (d + j) 0) (\<lambda>buf. Inr (j + 1, buf))))"

section \<open>Reading a name\<close>

text \<open>\<open>for (short j = 1; j <= src[now]; j++) dest[i++] = src[j + now];\<close> with \<open>n\<close> characters
  left, the next one at offset \<open>s\<close> of the message.\<close>

fun copy_label :: "byte list \<Rightarrow> int \<Rightarrow> nat \<Rightarrow> byte list \<Rightarrow> int \<Rightarrow> int \<Rightarrow> (byte list \<times> int) result" where
  "copy_label msg s 0 dest d i = Inr (dest, i)"
| "copy_label msg s (Suc n) dest d i =
     bindE (arr_get msg s) (\<lambda>b.
     bindE (arr_set dest (d + i) b) (\<lambda>dest.
       copy_label msg (s + 1) n dest d (to_short (i + 1))))"

text \<open>The loop of \<open>fetch_label\<close>. \<open>msg\<close> is the message at \<open>base\<close>, \<open>src\<close> an offset in it,
  \<open>d\<close> the offset of \<open>dest\<close> in the caller's name buffer. The result is the return value,
  the name buffer and the position stored through \<open>next\<close>. A recursive call passes a null
  \<open>next\<close>, so its position is dropped.\<close>

partial_function (option) fetch_loop ::
  "byte list \<Rightarrow> byte list \<Rightarrow> int \<Rightarrow> int \<Rightarrow> int \<Rightarrow> int \<Rightarrow> (int \<times> byte list \<times> int) prog" where
  "fetch_loop msg dest d src now i =
     bindP (Some (arr_get msg (src + now))) (\<lambda>b.
     if b \<noteq> 0 then
       if is_compress b then
         bindP (Some (get16 msg (src + now))) (\<lambda>w.
         bindP (fetch_loop msg dest (d + i) (uint (get_compress_pos w)) 0 0) (\<lambda>(ret, dest, _).
         Some (Inr (ret, dest, src + now + 2))))
       else
         bindP (Some (copy_label msg (src + now + 1) (unat b) dest d i)) (\<lambda>(dest, i).
         bindP (Some (arr_set dest (d + i) DOT)) (\<lambda>dest.
         fetch_loop msg dest d src (to_short (now + uint b + 1)) (to_short (i + 1))))
     else
       bindP (Some (arr_set dest (d + i - 1) 0)) (\<lambda>dest.
       Some (Inr (i - 1, dest, src + now))))"

definition fetch_label :: "byte list \<Rightarrow> byte list \<Rightarrow> int \<Rightarrow> (int \<times> byte list \<times> int) prog" where
  "fetch_label msg dest src = fetch_loop msg dest 0 src 0 0"

text \<open>\<open>jump_label\<close>, which only walks. Only bytes below 64 reach the addition, so their value
  as \<open>char\<close> is the unsigned one.\<close>

partial_function (option) jump_loop :: "byte list \<Rightarrow> int \<Rightarrow> int \<Rightarrow> int prog" where
  "jump_loop msg src now =
     bindP (Some (arr_get msg (src + now))) (\<lambda>b.
     if b \<noteq> 0 then
       if is_compress b then
         bindP (Some (get16 msg (src + now))) (\<lambda>w.
         jump_loop msg (uint (get_compress_pos w)) 0)
       else jump_loop msg src (to_short (now + uint b + 1))
     else Some (Inr now))"

definition jump_label :: "byte list \<Rightarrow> int \<Rightarrow> int prog" where
  "jump_label msg src = jump_loop msg src 0"

text \<open>\<open>skip_to_answer\<close>: the loop over the labels of the question, on \<open>char\<close> values, which are
  signed on the target, and the step over the zero byte and the two question fields.\<close>

partial_function (option) skip_labels :: "byte list \<Rightarrow> int \<Rightarrow> int prog" where
  "skip_labels msg data =
     bindP (Some (arr_get msg data)) (\<lambda>b.
     if b \<noteq> 0 then skip_labels msg (data + sint b + 1) else Some (Inr data))"

definition skip_to_answer :: "byte list \<Rightarrow> int prog" where
  "skip_to_answer msg =
     bindP (skip_labels msg DNS_HEADER_SIZE) (\<lambda>data. Some (Inr (data + 5)))"

section \<open>The wire format\<close>

text \<open>\<open>name_at msg p ls jumped ts e\<close>: at offset \<open>p\<close> of the message there is a name with the
  labels \<open>ls\<close>; \<open>jumped\<close> says whether a compression pointer is followed, \<open>ts\<close> are the
  labels after the last pointer, \<open>e\<close> is the offset of the terminating zero byte or, when a
  pointer is met, the offset after the first pointer.\<close>

inductive name_at :: "byte list \<Rightarrow> nat \<Rightarrow> byte list list \<Rightarrow> bool \<Rightarrow> byte list list \<Rightarrow> nat \<Rightarrow> bool"
  for msg where
  root: "p < length msg \<Longrightarrow> msg ! p = 0 \<Longrightarrow> name_at msg p [] False [] p"
| label: "p + unat b < length msg \<Longrightarrow> b = msg ! p \<Longrightarrow> b \<noteq> 0 \<Longrightarrow> \<not> is_compress b
    \<Longrightarrow> l = take (unat b) (drop (Suc p) msg) \<Longrightarrow> name_at msg (p + unat b + 1) ls jumped ts e
    \<Longrightarrow> name_at msg p (l # ls) jumped (if jumped then ts else l # ts) e"
| pointer: "Suc p < length msg \<Longrightarrow> is_compress (msg ! p)
    \<Longrightarrow> q = unat (get_compress_pos (be16 (msg ! p) (msg ! Suc p)))
    \<Longrightarrow> name_at msg q ls jumped ts e \<Longrightarrow> name_at msg p ls True ts (p + 2)"

inductive_cases name_atE: "name_at msg p ls jumped ts e"

text \<open>The dotted text of a list of labels, with a dot after every label, and without the last
  one; and the wire form without compression.\<close>

definition dots :: "byte list list \<Rightarrow> byte list" where
  "dots ls = concat (map (\<lambda>l. l @ [DOT]) ls)"

definition dotted :: "byte list list \<Rightarrow> cstring" where
  "dotted ls = butlast (dots ls)"

definition wire_labels :: "byte list list \<Rightarrow> byte list" where
  "wire_labels ls = concat (map (\<lambda>l. of_nat (length l) # l) ls)"

definition wire_name :: "byte list list \<Rightarrow> byte list" where
  "wire_name ls = wire_labels ls @ [0]"

text \<open>The labels of a dotted text.\<close>

fun split_dots :: "cstring \<Rightarrow> byte list list" where
  "split_dots [] = [[]]"
| "split_dots (c # cs) =
     (if c = DOT then [] # split_dots cs
      else case split_dots cs of [] \<Rightarrow> [[c]] | l # ls \<Rightarrow> (c # l) # ls)"

text \<open>The value \<open>fetch_label\<close> returns: the length of the text of the last frame.\<close>

definition fetched :: "byte list list \<Rightarrow> int" where
  "fetched ts = int (length (dots ts)) - 1"

section \<open>Reading follows the wire format\<close>

lemma dots_simps [simp]: "dots [] = []" "dots (l # ls) = l @ DOT # dots ls"
  by (simp_all add: dots_def)

lemma copy_label_eq:
  assumes "p + n \<le> length msg" and "k + n \<le> length dest" and "d + i = int k" and "0 \<le> d" and "0 \<le> i"
    and "length dest < 32768"
  shows "copy_label msg (int p) n dest d i = Inr (blit k (take n (drop p msg)) dest, i + int n)"
  using assms
proof (induction n arbitrary: p k i dest)
  case 0
  then show ?case by simp
next
  case (Suc n)
  have "copy_label msg (int (Suc p)) n (dest[k := msg ! p]) d (i + 1)
      = Inr (blit (Suc k) (take n (drop (Suc p) msg)) (dest[k := msg ! p]), i + 1 + int n)"
    using Suc.prems by (intro Suc.IH) auto
  moreover have "blit (Suc k) (take n (drop (Suc p) msg)) (dest[k := msg ! p])
      = blit k (take (Suc n) (drop p msg)) dest"
    using Suc.prems blit_blit [of k "[msg ! p]" "take n (drop (Suc p) msg)" dest]
      blit_snoc [of k "[]" dest "msg ! p"] by (simp add: Cons_nth_drop_Suc [symmetric])
  ultimately show ?case
    using Suc.prems by (simp add: add.commute [of 1])
qed

lemma fetch_loop_name:
  assumes "name_at msg p ls jumped ts e"
    and "src + now = int p" and "0 \<le> src" and "0 \<le> now" and "d + i = int k" and "0 \<le> d" and "0 \<le> i"
    and "k + length (dots ls) \<le> length dest" and "0 < k + length (dots ls)"
    and "length msg < 32768" and "length dest < 32768"
  shows "fetch_loop msg dest d src now i = Some (Inr (if jumped then fetched ts else i + fetched ts,
    (blit k (dots ls) dest)[k + length (dots ls) - 1 := 0], int e))"
  using assms
proof (induction arbitrary: src now d i k dest rule: name_at.induct)
  case (root p)
  then show ?case
    by (subst fetch_loop.simps) (simp add: fetched_def arr_set_def nat_diff_distrib' of_nat_diff)
next
  case (label p b l ls jumped ts e)
  define n where "n = unat b"
  let ?dest = "blit k (l @ [DOT]) dest"
  have ub: "unat (msg ! p) = n" "uint (msg ! p) = int n" using label.hyps(2) by (simp_all add: n_def)
  note hyps = label.hyps [folded n_def] and prems = label.prems [folded n_def]
  have l: "length l = n" "k + length l < length dest" using hyps prems by auto
  have sn: "src + now + 1 = int (Suc p)" using prems by simp
  have copy: "copy_label msg (src + now + 1) n dest d i = Inr (blit k l dest, i + int n)"
    unfolding sn using copy_label_eq [of "Suc p" n msg k dest d i] hyps prems l by simp
  have dot: "arr_set (blit k l dest) (d + (i + int n)) DOT = Inr ?dest"
    using arr_set_blit [of "d + (i + int n)" k l dest DOT] prems l by simp
  have step: "to_short (now + int n + 1) = now + int n + 1" "to_short (i + int n + 1) = i + int n + 1"
    using hyps(1) prems l by simp_all
  have "fetch_loop msg ?dest d src (now + int n + 1) (i + int n + 1)
      = Some (Inr (if jumped then fetched ts else i + int n + 1 + fetched ts,
        (blit (k + n + 1) (dots ls) ?dest)[k + n + 1 + length (dots ls) - 1 := 0], int e))"
    using prems l by (intro label.IH [folded n_def]) auto
  moreover have "blit (k + n + 1) (dots ls) ?dest = blit k (dots (l # ls)) dest"
    using blit_blit [of k "l @ [DOT]" "dots ls" dest] prems l by simp
  ultimately show ?case
    using prems hyps l copy dot step
    by (subst fetch_loop.simps) (simp add: fetched_def add.assoc ub)
next
  case (pointer p q ls jumped ts e)
  have nz: "msg ! p \<noteq> 0" using pointer.hyps(2) by (auto simp: is_compress_def)
  have "fetch_loop msg dest (d + i) (uint (get_compress_pos (be16 (msg ! p) (msg ! Suc p)))) 0 0
      = Some (Inr (if jumped then fetched ts else 0 + fetched ts,
        (blit k (dots ls) dest)[k + length (dots ls) - 1 := 0], int e))"
    using pointer.prems pointer.hyps(3) by (intro pointer.IH) auto
  then show ?case
    using pointer.prems pointer.hyps(1,2) nz
    by (subst fetch_loop.simps) (simp add: nat_add_distrib add.commute)
qed

text \<open>A pointer to itself is followed for ever.\<close>

definition self_pointer :: "byte list \<Rightarrow> nat \<Rightarrow> bool" where
  "self_pointer msg p \<longleftrightarrow> Suc p < length msg \<and> is_compress (msg ! p)
     \<and> unat (get_compress_pos (be16 (msg ! p) (msg ! Suc p))) = p"

lemma fetch_returns_no_self_pointer:
  "fetch_loop msg dest d src now i = Some y \<Longrightarrow> self_pointer msg p \<longrightarrow> src + now \<noteq> int p"
proof (induction rule: fetch_loop.raw_induct [rotated, consumes 1, case_names step])
  case (step f msg dest d src now i y)
  show ?case
  proof (intro impI notI)
    assume self: "self_pointer msg p" and at: "src + now = int p"
    then have "msg ! p \<noteq> 0" by (auto simp: is_compress_def self_pointer_def)
    moreover have "uint (get_compress_pos (be16 (msg ! p) (msg ! Suc p))) = int p"
      using self unfolding self_pointer_def by (metis uint_nat)
    ultimately have "bindP (f msg dest (d + i) (int p) 0 0) (\<lambda>(ret, dest, _).
        Some (Inr (ret, dest, src + now + 2))) = Some y"
      using step(2) at self by (simp add: self_pointer_def nat_add_distrib)
    then obtain z where "f msg dest (d + i) (int p) 0 0 = Some z"
      by (cases "f msg dest (d + i) (int p) 0 0") auto
    with step(1) [of msg dest "d + i" "int p" 0 0 z] self show False by simp
  qed
qed

lemma fetch_self_pointer:
  "self_pointer msg p \<Longrightarrow> src + now = int p \<Longrightarrow> fetch_loop msg dest d src now i = None"
  using fetch_returns_no_self_pointer [of msg dest d src now i _ p]
  by (cases "fetch_loop msg dest d src now i") auto

section \<open>Writing produces the wire format\<close>

lemma wire_simps [simp]:
  "wire_labels [] = []" "wire_labels (l # ls) = of_nat (length l) # l @ wire_labels ls"
  "wire_name [] = [0]" "wire_name (l # ls) = of_nat (length l) # l @ wire_name ls"
  by (simp_all add: wire_labels_def wire_name_def)

lemma dotted_simps [simp]:
  "dotted [l] = l" "dotted (l # m # ls) = l @ DOT # dotted (m # ls)"
  by (simp_all add: dotted_def butlast_append)

lemma length_wire_name: "ls \<noteq> [] \<Longrightarrow> length (wire_name ls) = length (dotted ls) + 2"
  by (induction ls rule: induct_list012) auto

lemma blit_Cons: "Suc k + length l \<le> length buf \<Longrightarrow> (blit (Suc k) l buf)[k := x] = blit k (x # l) buf"
  by (auto intro!: nth_equalityI simp: nth_blit nth_list_update nth_Cons')

lemma str_to_label_loop_label:
  assumes "DOT \<notin> set l" and "int j + int (length l) \<le> maxlen" and "D + j + length l \<le> length buf"
  shows "str_to_label_loop (int D) maxlen (l @ rest) buf q c (int j)
    = str_to_label_loop (int D) maxlen rest (blit (D + j) l buf) q (c + int (length l)) (int (j + length l))"
  using assms
proof (induction l arbitrary: c j buf)
  case Nil
  then show ?case by simp
next
  case (Cons h l)
  have "arr_set buf (int D + int j) h = Inr (blit (D + j) [h] buf)"
    using arr_set_blit [of "int D + int j" "D + j" "[]" buf h] Cons.prems by simp
  moreover have "blit (D + Suc j) l (blit (D + j) [h] buf) = blit (D + j) (h # l) buf"
    using blit_blit [of "D + j" "[h]" l buf] Cons.prems by simp
  moreover have "h \<noteq> DOT" using Cons.prems by auto
  ultimately show ?case
    using Cons.prems Cons.IH [of "Suc j" "blit (D + j) [h] buf" "c + 1"] by (simp add: ac_simps)
qed

lemma str_to_label_from:
  assumes "ls \<noteq> []" and "\<forall>l \<in> set ls. DOT \<notin> set l"
    and "int q + 1 + int (length (dotted ls)) \<le> maxlen"
    and "D + q + length (wire_name ls) \<le> length buf"
  shows "bindE (str_to_label_loop (int D) maxlen (dotted ls) buf (int q) 0 (int q + 1))
      (\<lambda>(rest, buf, last_pos, cumulate, j).
        if rest \<noteq> [] then Inr (- 1, buf)
        else
          bindE (arr_set buf (int D + last_pos) (of_int cumulate)) (\<lambda>buf.
          bindE (arr_set buf (int D + j) 0) (\<lambda>buf. Inr (j + 1, buf))))
    = Inr (int q + int (length (wire_name ls)), blit (D + q) (wire_name ls) buf)"
  using assms
proof (induction ls arbitrary: q buf rule: induct_list012)
  case 1
  then show ?case by simp
next
  case (2 l)
  have "str_to_label_loop (int D) maxlen (dotted [l]) buf (int q) 0 (int q + 1)
      = Inr ([], blit (D + q + 1) l buf, int q, int (length l), int (q + 1 + length l))"
    using str_to_label_loop_label [of l "q + 1" maxlen D buf "[]"] 2 by (simp add: ac_simps)
  moreover have "arr_set (blit (D + q + 1) l buf) (int D + int q) (of_nat (length l))
      = Inr (blit (D + q) (of_nat (length l) # l) buf)"
    using 2 blit_Cons [of "D + q" l buf] by (simp add: arr_set_def nat_add_distrib)
  moreover have "arr_set (blit (D + q) (of_nat (length l) # l) buf) (int D + int (q + 1 + length l)) 0
      = Inr (blit (D + q) (wire_name [l]) buf)"
    using 2 arr_set_blit [of "int D + int (q + 1 + length l)" "D + q" "of_nat (length l) # l" buf 0]
    by simp
  ultimately show ?case by simp
next
  case (3 l m ls)
  let ?q = "q + 1 + length l" and ?buf = "blit (D + q) (of_nat (length l) # l) buf"
  have "str_to_label_loop (int D) maxlen (dotted (l # m # ls)) buf (int q) 0 (int q + 1)
      = str_to_label_loop (int D) maxlen (DOT # dotted (m # ls)) (blit (D + q + 1) l buf) (int q)
          (int (length l)) (int ?q)"
    using str_to_label_loop_label [of l "q + 1" maxlen D buf "DOT # dotted (m # ls)"] 3
    by (simp add: ac_simps)
  moreover have "arr_set (blit (D + q + 1) l buf) (int D + int q) (of_nat (length l)) = Inr ?buf"
    using 3 blit_Cons [of "D + q" l buf] by (simp add: arr_set_def nat_add_distrib)
  ultimately have loop: "str_to_label_loop (int D) maxlen (dotted (l # m # ls)) buf (int q) 0 (int q + 1)
      = str_to_label_loop (int D) maxlen (dotted (m # ls)) ?buf (int ?q) 0 (int ?q + 1)"
    using 3 by simp
  have "blit (D + ?q) (wire_name (m # ls)) ?buf = blit (D + q) (wire_name (l # m # ls)) buf"
    using blit_blit [of "D + q" "of_nat (length l) # l" "wire_name (m # ls)" buf] 3
    by (simp add: ac_simps)
  then show ?case unfolding loop using 3 by (subst 3(2)) auto
qed

lemma str_to_label_dotted:
  assumes "ls \<noteq> []" and "\<forall>l \<in> set ls. DOT \<notin> set l" and "int (length (dotted ls)) < maxlen"
    and "D + length (wire_name ls) \<le> length buf"
  shows "str_to_label buf (int D) (dotted ls) maxlen
    = Inr (int (length (wire_name ls)), blit D (wire_name ls) buf)"
  using str_to_label_from [OF assms(1,2), of 0 maxlen D buf] assms(3,4) by (simp add: str_to_label_def)

lemma split_dots_ne [simp]: "split_dots s \<noteq> []"
  by (cases s) (auto split: list.splits)

lemma dotted_Cons: "ls \<noteq> [] \<Longrightarrow> dotted (l # ls) = l @ DOT # dotted ls"
  by (cases ls) simp_all

lemma dotted_split_dots [simp]: "dotted (split_dots s) = s"
proof (induction s)
  case Nil
  then show ?case by simp
next
  case (Cons c s)
  obtain l ls where "split_dots s = l # ls" using split_dots_ne [of s] by (cases "split_dots s") auto
  with Cons show ?case by (cases ls) (auto simp: dotted_Cons)
qed

lemma split_dots_labels: "\<forall>l \<in> set (split_dots s). DOT \<notin> set l"
  by (induction s) (auto split: list.splits)

lemma length_wire_split: "length (wire_name (split_dots s)) = length s + 2"
  using length_wire_name [of "split_dots s"] by simp

lemma str_to_label_any:
  assumes "int (length host) < maxlen" and "d + length host + 2 \<le> length buf"
  shows "str_to_label buf (int d) host maxlen
    = Inr (int (length host) + 2, blit d (wire_name (split_dots host)) buf)"
  using str_to_label_dotted [of "split_dots host" maxlen d buf] split_dots_labels [of host] assms
  by (simp add: length_wire_split)

lemma str_to_label_loop_long:
  assumes "maxlen - int j < int (length hs)" and "int j \<le> maxlen" and "q < j"
    and "int D + maxlen \<le> int (length buf)"
  shows "\<exists>rest buf' q' c' j'. str_to_label_loop (int D) maxlen hs buf (int q) c (int j)
    = Inr (rest, buf', q', c', j') \<and> rest \<noteq> [] \<and> length buf' = length buf"
  using assms
proof (induction hs arbitrary: buf q c j)
  case Nil
  then show ?case by simp
next
  case (Cons h hs)
  show ?case
  proof (cases "int j < maxlen")
    case False
    then show ?thesis by simp
  next
    case True
    then have "arr_set buf (int D + int q) (of_int c) = Inr (buf[D + q := of_int c])"
      "arr_set buf (int D + int j) h = Inr (buf[D + j := h])"
      using Cons.prems by (simp_all add: nat_add_distrib)
    moreover note Cons.IH [of "Suc j" j "buf[D + q := of_int c]" 0]
      Cons.IH [of "Suc j" q "buf[D + j := h]" "c + 1"]
    ultimately show ?thesis using True Cons.prems by (simp add: add.commute [of 1])
  qed
qed

lemma str_to_label_long:
  assumes "maxlen \<le> int (length host)" and "0 < maxlen" and "int D + maxlen \<le> int (length buf)"
  shows "\<exists>buf'. str_to_label buf (int D) host maxlen = Inr (- 1, buf') \<and> length buf' = length buf"
  using str_to_label_loop_long [of maxlen 1 host 0 D buf 0] assms by (auto simp: str_to_label_def)

section \<open>Uncompressed names\<close>

definition valid_label :: "byte list \<Rightarrow> bool" where
  "valid_label l \<longleftrightarrow> l \<noteq> [] \<and> length l < 64 \<and> DOT \<notin> set l \<and> 0 \<notin> set l"

lemma is_compress_iff: "is_compress b \<longleftrightarrow> 64 \<le> unat b"
proof -
  have "COMPRESS_FLAG = NOT (mask 6)" by code_simp
  then have "\<not> is_compress b \<longleftrightarrow> take_bit 6 b = b"
    by (auto simp: is_compress_def bit_eq_iff bit_simps)
  also have "\<dots> \<longleftrightarrow> take_bit 6 (unat b) = unat b"
    by (simp add: word_eq_iff_unsigned [where 'a = nat] unsigned_take_bit_eq)
  also have "\<dots> \<longleftrightarrow> unat b < 64"
    by (simp only: take_bit_nat_eq_self_iff) simp
  finally show ?thesis by auto
qed

lemma wire_name_at:
  assumes "list_all (\<lambda>l. l \<noteq> [] \<and> length l < 64) ls" and "msg = pre @ wire_name ls @ post"
  shows "name_at msg (length pre) ls False ls (length pre + length (wire_labels ls))"
  using assms
proof (induction ls arbitrary: pre)
  case Nil
  then show ?case by (auto intro!: name_at.root)
next
  case (Cons l ls)
  let ?b = "of_nat (length l) :: byte"
  have b: "unat ?b = length l" using Cons.prems by (simp add: unat_of_nat)
  then have c: "\<not> is_compress ?b" "?b \<noteq> 0"
    using Cons.prems by (auto simp: is_compress_iff)
  have msg: "msg = (pre @ ?b # l) @ wire_name ls @ post" using Cons.prems by simp
  have "name_at msg (length (pre @ ?b # l)) ls False ls (length (pre @ ?b # l) + length (wire_labels ls))"
    by (rule Cons.IH [OF _ msg]) (use Cons.prems in simp)
  then have "name_at msg (length pre) (l # ls) False (if False then ls else l # ls)
      (length (pre @ ?b # l) + length (wire_labels ls))"
    by (intro name_at.label [where b = ?b]) (use b c msg in \<open>simp_all add: nth_append\<close>)
  then show ?case by (simp add: add.assoc)
qed

text \<open>The two walks over a name without compression stop at its terminating zero byte.\<close>

lemma sint_label: "\<not> is_compress b \<Longrightarrow> sint b = int (unat b)" for b :: byte
proof -
  assume "\<not> is_compress b"
  then have "unat b < 64" by (simp add: is_compress_iff)
  then have "int (unat b) < int 64" by (simp only: of_nat_less_iff)
  then have "uint b < 64" by simp
  then have "- 128 \<le> uint b" "uint b < 128"
    using unsigned_greater_eq [of b, where 'a = int] by linarith+
  then have "signed_take_bit 7 (uint b) = uint b"
    using signed_take_bit_int_eq_self [of 7 "uint b"] by simp
  then show ?thesis by (simp add: sint_uint)
qed

lemma skip_labels_name:
  "name_at msg p ls jumped ts e \<Longrightarrow> \<not> jumped \<Longrightarrow> skip_labels msg (int p) = Some (Inr (int e))"
proof (induction rule: name_at.induct)
  case (root p)
  then show ?case by (subst skip_labels.simps) simp
next
  case (label p b l ls jumped ts e)
  then show ?case
    by (subst skip_labels.simps) (simp add: sint_label ac_simps)
next
  case (pointer p q ls jumped ts e)
  then show ?case by simp
qed

lemma jump_loop_name:
  "name_at msg p ls jumped ts e \<Longrightarrow> \<not> jumped \<Longrightarrow> length msg < 32768 \<Longrightarrow> src + now = int p
    \<Longrightarrow> 0 \<le> src \<Longrightarrow> 0 \<le> now \<Longrightarrow> jump_loop msg src now = Some (Inr (int e - src))"
proof (induction arbitrary: now rule: name_at.induct)
  case (root p)
  then show ?case by (subst jump_loop.simps) auto
next
  case (label p b l ls jumped ts e)
  define n where "n = unat b"
  have ub: "uint (msg ! p) = int n" using label.hyps(2) by (simp add: n_def)
  note hyps = label.hyps [folded n_def] and prems = label.prems
  have "jump_loop msg src (now + int n + 1) = Some (Inr (int e - src))"
    using prems by (intro label.IH [folded n_def]) auto
  moreover have "to_short (now + int n + 1) = now + int n + 1" using hyps(1) prems by simp
  ultimately show ?case
    using prems hyps by (subst jump_loop.simps) (simp add: ub)
next
  case (pointer p q ls jumped ts e)
  then show ?case by simp
qed

text \<open>\<open>skip_labels\<close> does not get past a byte \<open>0xff\<close>: as a \<open>char\<close> it is \<open>- 1\<close>.\<close>

lemma skip_labels_stuck:
  "skip_labels msg data = Some y \<Longrightarrow> data = int p \<longrightarrow> p < length msg \<longrightarrow> msg ! p \<noteq> 0xff"
proof (induction rule: skip_labels.raw_induct [rotated, consumes 1, case_names step])
  case (step f msg data y)
  show ?case
  proof (intro impI notI)
    assume "data = int p" "p < length msg" "msg ! p = 0xff"
    moreover have "sint (0xff :: byte) = - 1" by code_simp
    ultimately show False using step(2) step(1) [of msg data y] by simp
  qed
qed

lemma dots_snoc: "ls \<noteq> [] \<Longrightarrow> dots ls = dotted ls @ [DOT]"
  by (induction ls rule: induct_list012) auto

lemma dotted_no_zero: "\<forall>l \<in> set ls. 0 \<notin> set l \<Longrightarrow> 0 \<notin> set (dotted ls)"
  by (induction ls rule: induct_list012) (simp_all add: DOT_def, simp add: dotted_def)

lemma fetch_label_text:
  assumes "name_at msg p ls jumped ts e" and "ls \<noteq> []" and "length (dotted ls) < length dest"
    and "length msg < 32768" and "length dest < 32768"
  shows "fetch_label msg dest (int p)
    = Some (Inr (fetched ts, blit 0 (dotted ls @ [0]) dest, int e))"
proof -
  have len: "length (dots ls) = Suc (length (dotted ls))"
    using assms(2) by (cases ls) (simp_all add: dotted_def)
  have "fetch_label msg dest (int p)
      = Some (Inr (fetched ts, (blit 0 (dots ls) dest)[length (dotted ls) := 0], int e))"
    using fetch_loop_name [OF assms(1), of "int p" 0 0 0 0 dest] assms(3-5) len
    by (simp add: fetch_label_def)
  moreover have "(blit 0 (dots ls) dest)[length (dotted ls) := 0] = blit 0 (dotted ls @ [0]) dest"
    using dots_snoc [OF assms(2)] len assms(3)
    by (intro nth_equalityI) (simp_all add: nth_blit nth_append nth_list_update)
  ultimately show ?thesis by simp
qed

section \<open>Properties\<close>



text \<open>The root name is not decoded: \<open>fetch_label\<close> on a zero byte writes before the start
  of the destination buffer.\<close>

theorem fetch_label_root:
  assumes "p < length msg" and "msg ! p = 0"
  shows "fetch_label msg dest (int p) = Some (Inl OutOfBounds)"
  using assms by (simp add: fetch_label_def fetch_loop.simps arr_set_def)

theorem fetch_label_root_witness:
  "fetch_label [1, 97, 0] (replicate 8 7) 2 = Some (Inl OutOfBounds)"
  using fetch_label_root [of 2 "[1, 97, 0]" "replicate 8 7"] by simp

text \<open>A compression pointer that refers to itself is followed for ever: \<open>fetch_label\<close> does
  not return.\<close>

theorem fetch_label_self_pointer:
  assumes "self_pointer msg p"
  shows "fetch_label msg dest (int p) = None"
  using fetch_self_pointer [OF assms] by (simp add: fetch_label_def)

theorem fetch_label_self_pointer_witness:
  "fetch_label [192, 0] (replicate 256 0) 0 = None"
  using fetch_label_self_pointer [of "[192, 0]" 0 "replicate 256 0"]
  by (simp add: self_pointer_def is_compress_iff get_compress_pos_def be16_def COMPRESS_MASK_def)

text \<open>\<open>str_to_label\<close> writes the wire form of every dotted name that is shorter than \<open>maxlen\<close>:
  the labels, each behind its length (modulo 256), and the zero byte; nothing else of the
  buffer changes, and the return value is the number of bytes written.\<close>

theorem str_to_label_writes_wire_name:
  assumes "int (length host) < maxlen" and "d + length host + 2 \<le> length buf"
  shows "str_to_label buf (int d) host maxlen
    = Inr (int (length host) + 2, blit d (wire_name (split_dots host)) buf)"
  by (rule str_to_label_any [OF assms])

theorem str_to_label_writes_wire_name_witness:
  "str_to_label [7, 7, 7, 7, 7, 7, 7, 7] 1 [119, 46, 99, 110] 8 = Inr (6, [7, 1, 119, 2, 99, 110, 0, 7])"
  using str_to_label_writes_wire_name [of "[119, 46, 99, 110]" 8 1 "[7, 7, 7, 7, 7, 7, 7, 7]"]
  by (simp add: DOT_def blit_def)

text \<open>A name of \<open>maxlen\<close> characters or more is refused with \<open>- 1\<close>, without a write
  outside the \<open>maxlen\<close> bytes at the destination.\<close>

theorem str_to_label_too_long:
  assumes "maxlen \<le> int (length host)" and "0 < maxlen" and "int d + maxlen \<le> int (length buf)"
  shows "\<exists>buf'. str_to_label buf (int d) host maxlen = Inr (- 1, buf') \<and> length buf' = length buf"
  by (rule str_to_label_long [OF assms])

theorem str_to_label_too_long_witness:
  "\<exists>buf'. str_to_label [7, 7, 7] 0 [97, 98, 99, 100] 3 = Inr (- 1, buf') \<and> length buf' = 3"
  using str_to_label_too_long [of 3 "[97, 98, 99, 100]" 0 "[7, 7, 7]"]
  by (simp add: numeral_3_eq_3)

text \<open>C18. Round trip: what \<open>str_to_label\<close> writes for a name whose labels have 1 to 63 bytes,
  \<open>fetch_label\<close> reads back as the same C string, with the length of the name as its result
  and the position of the terminating zero byte in \<open>next\<close>.\<close>

theorem name_roundtrip:
  assumes "ls \<noteq> []" and "\<forall>l \<in> set ls. valid_label l" and "int (length (dotted ls)) < maxlen"
    and "d + length (wire_name ls) \<le> length buf" and "length buf < 32768"
    and "length (dotted ls) < length dest" and "length dest < 32768"
  shows "\<exists>buf' dest'. str_to_label buf (int d) (dotted ls) maxlen
      = Inr (int (length (dotted ls)) + 2, buf')
    \<and> fetch_label buf' dest (int d)
      = Some (Inr (int (length (dotted ls)), dest', int (d + length (dotted ls) + 1)))
    \<and> c_str dest' = dotted ls"
proof -
  let ?buf = "blit d (wire_name ls) buf" and ?dest = "blit 0 (dotted ls @ [0]) dest"
  have valid: "\<forall>l \<in> set ls. DOT \<notin> set l" "list_all (\<lambda>l. l \<noteq> [] \<and> length l < 64) ls"
    using assms(2) by (auto simp: valid_label_def list_all_iff)
  have len: "length (wire_name ls) = length (dotted ls) + 2" using length_wire_name [OF assms(1)] .
  have str: "str_to_label buf (int d) (dotted ls) maxlen = Inr (int (length (dotted ls)) + 2, ?buf)"
    using str_to_label_dotted [OF assms(1) valid(1) assms(3,4)] len by simp
  have "name_at ?buf d ls False ls (d + length (wire_labels ls))"
    using wire_name_at [OF valid(2), of ?buf "take d buf"] assms(4)
    by (simp add: blit_def min_absorb2)
  moreover have "length (wire_labels ls) = Suc (length (dotted ls))"
    using len by (simp add: wire_name_def)
  ultimately have "fetch_label ?buf dest (int d)
      = Some (Inr (int (length (dotted ls)), ?dest, int (d + length (dotted ls) + 1)))"
    using fetch_label_text [of ?buf d ls False ls _ dest] assms len by (simp add: fetched_def dots_snoc)
  moreover have "c_str ?dest = dotted ls"
    using dotted_no_zero [of ls] assms(2) by (simp add: blit_def valid_label_def)
  ultimately show ?thesis using str by blast
qed

theorem name_roundtrip_witness:
  "\<exists>buf' dest'. str_to_label (replicate 9 7) 1 [119, 46, 99, 110] 9 = Inr (6, buf')
    \<and> fetch_label buf' (replicate 9 7) 1 = Some (Inr (4, dest', 6)) \<and> c_str dest' = [119, 46, 99, 110]"
  using name_roundtrip [of "[[119], [99, 110]]" 9 1 "replicate 9 7" "replicate 9 7"]
  by (simp add: DOT_def valid_label_def)

text \<open>\<open>skip_to_answer\<close> finds the first answer: when the question name that follows the
  header is not compressed, it returns the position after the name's zero byte and the two
  16-bit fields of the question.\<close>

theorem skip_to_answer_finds_answer:
  assumes "name_at msg 12 ls False ts e"
  shows "skip_to_answer msg = Some (Inr (int e + 5))"
  using skip_labels_name [OF assms] by (simp add: skip_to_answer_def DNS_HEADER_SIZE_def)

theorem skip_to_answer_finds_answer_witness:
  "skip_to_answer (replicate 12 0 @ [1, 97, 0, 0, 1, 0, 1]) = Some (Inr 19)"
proof -
  have "name_at (replicate 12 0 @ wire_name [[97]] @ [0, 1, 0, 1]) 12 [[97]] False [[97]] 14"
    using wire_name_at [of "[[97]]" _ "replicate 12 0" "[0, 1, 0, 1]"] by simp
  from skip_to_answer_finds_answer [OF this] show ?thesis by simp
qed

text \<open>\<open>skip_to_answer\<close> does not return when the question name starts with a byte \<open>0xff\<close>,
  which a signed \<open>char\<close> reads as \<open>- 1\<close>.\<close>

theorem skip_to_answer_stuck:
  assumes "12 < length msg" and "msg ! 12 = 0xff"
  shows "skip_to_answer msg = None"
  using skip_labels_stuck [of msg DNS_HEADER_SIZE _ 12] assms
  by (cases "skip_labels msg DNS_HEADER_SIZE") (auto simp: skip_to_answer_def DNS_HEADER_SIZE_def)

theorem skip_to_answer_stuck_witness:
  "skip_to_answer (replicate 12 0 @ [0xff, 0, 0]) = None"
  using skip_to_answer_stuck [of "replicate 12 0 @ [0xff, 0, 0]"] by (simp add: nth_append)

text \<open>\<open>jump_label\<close> measures an uncompressed name: it returns the distance to the name's
  terminating zero byte.\<close>

theorem jump_label_distance:
  assumes "name_at msg p ls False ts e" and "length msg < 32768"
  shows "jump_label msg (int p) = Some (Inr (int e - int p))"
  using jump_loop_name [OF assms(1) _ assms(2), of "int p" 0] by (simp add: jump_label_def)

theorem jump_label_distance_witness:
  "jump_label [9, 1, 97, 2, 98, 99, 0] 1 = Some (Inr 5)"
proof -
  have "name_at ([9] @ wire_name [[97], [98, 99]] @ []) (length [9 :: byte]) [[97], [98, 99]] False
      [[97], [98, 99]] (length [9 :: byte] + length (wire_labels [[97], [98, 99]]))"
    by (rule wire_name_at) simp_all
  from jump_label_distance [OF this] show ?thesis by simp
qed

end
