(* ===== verification/DnsMessage.thy ===== *)
theory DnsMessage
  imports DnsLabel
begin

text \<open>
  DNS messages (\<open>src/src/common.c\<close>): reading and writing the header, the question and the
  answers of a message that lies in a byte buffer, and the functions that change single
  header fields in place. Structures laid over the buffer are read and written field by
  field at their packed offsets; the target is little-endian, so a field that the code
  stores without \<open>htons\<close> is stored low byte first.
\<close>

section \<open>Helpers\<close>

definition set16_native :: "byte list \<Rightarrow> int \<Rightarrow> u16 \<Rightarrow> byte list result" where
  "set16_native buf p v = bindE (arr_set buf p (lo8 v)) (\<lambda>buf. arr_set buf (p + 1) (hi8 v))"

definition get16_native :: "byte list \<Rightarrow> int \<Rightarrow> u16 result" where
  "get16_native buf p =
     bindE (arr_get buf p) (\<lambda>lo. bindE (arr_get buf (p + 1)) (\<lambda>hi. Inr (be16 hi lo)))"

text \<open>The C string at the start of an object, which has to hold its terminating zero.\<close>

definition read_cstr :: "byte list \<Rightarrow> cstring result" where
  "read_cstr buf = (if 0 \<in> set buf then Inr (c_str buf) else Inl OutOfBounds)"

text \<open>\<open>htons (IN_16b_RANGE (x) ? x : 0)\<close> and its 32-bit counterpart, before the swap.\<close>

definition clip16 :: "int \<Rightarrow> u16" where
  "clip16 x = (if IN_16b_RANGE x then of_int x else 0)"

definition clip32 :: "int \<Rightarrow> u32" where
  "clip32 x = (if IN_32b_RANGE x then of_int x else 0)"

section \<open>The header\<close>

definition read_dns_header :: "byte list \<Rightarrow> (int \<times> dns_header) result" where
  "read_dns_header src =
     bindE (get16 src 0) (\<lambda>i.
     bindE (get16_native src 2) (\<lambda>fl.
     bindE (get16 src 4) (\<lambda>qd.
     bindE (get16 src 6) (\<lambda>an.
     bindE (get16 src 8) (\<lambda>ns.
     bindE (get16 src 10) (\<lambda>ad.
     Inr (DNS_HEADER_SIZE, \<lparr>hd_id = i, hd_flags = fl, hd_qdcount = qd, hd_ancount = an,
       hd_nscount = ns, hd_adcount = ad\<rparr>)))))))"

text \<open>The bit fields that share the storage of \<open>flags\<close>: the low byte holds \<open>rd\<close>, \<open>tc\<close>,
  \<open>aa\<close>, \<open>opcode\<close> and \<open>qr\<close>, the high byte \<open>rcode\<close>, \<open>cd\<close>, \<open>ad\<close>, \<open>z\<close> and \<open>ra\<close>, each from the
  least significant bit up.\<close>

definition bit_field :: "nat \<Rightarrow> nat \<Rightarrow> byte \<Rightarrow> byte" where
  "bit_field pos width b = take_bit width (drop_bit pos b)"

definition hd_rd :: "dns_header \<Rightarrow> byte" where "hd_rd h = bit_field 0 1 (lo8 (hd_flags h))"
definition hd_tc :: "dns_header \<Rightarrow> byte" where "hd_tc h = bit_field 1 1 (lo8 (hd_flags h))"
definition hd_aa :: "dns_header \<Rightarrow> byte" where "hd_aa h = bit_field 2 1 (lo8 (hd_flags h))"
definition hd_opcode :: "dns_header \<Rightarrow> byte" where "hd_opcode h = bit_field 3 4 (lo8 (hd_flags h))"
definition hd_qr :: "dns_header \<Rightarrow> byte" where "hd_qr h = bit_field 7 1 (lo8 (hd_flags h))"
definition hd_rcode :: "dns_header \<Rightarrow> byte" where "hd_rcode h = bit_field 0 4 (hi8 (hd_flags h))"
definition hd_cd :: "dns_header \<Rightarrow> byte" where "hd_cd h = bit_field 4 1 (hi8 (hd_flags h))"
definition hd_ad :: "dns_header \<Rightarrow> byte" where "hd_ad h = bit_field 5 1 (hi8 (hd_flags h))"
definition hd_z :: "dns_header \<Rightarrow> byte" where "hd_z h = bit_field 6 1 (hi8 (hd_flags h))"
definition hd_ra :: "dns_header \<Rightarrow> byte" where "hd_ra h = bit_field 7 1 (hi8 (hd_flags h))"

definition set_header_id :: "byte list \<Rightarrow> u16 \<Rightarrow> byte list result" where
  "set_header_id buffer i = set16 buffer 0 i"

definition set_header_response :: "byte list \<Rightarrow> byte list result" where
  "set_header_response buffer = bindE (arr_get buffer 2) (\<lambda>b. arr_set buffer 2 (b OR 0x80))"

definition set_header_query :: "byte list \<Rightarrow> byte list result" where
  "set_header_query buffer = bindE (arr_get buffer 2) (\<lambda>b. arr_set buffer 2 (b AND 0x7f))"

definition set_header_flag :: "byte list \<Rightarrow> u16 \<Rightarrow> byte list result" where
  "set_header_flag buffer flags = set16 buffer 2 flags"

definition set_rcode :: "byte list \<Rightarrow> RCODE \<Rightarrow> byte list result" where
  "set_rcode buffer c =
     bindE (arr_get buffer 3) (\<lambda>b. arr_set buffer 3 ((b AND 0xf0) OR rcode_val c))"

definition set_header_rcode_failure :: "byte list \<Rightarrow> byte list result" where
  "set_header_rcode_failure buffer = set_rcode buffer RCODE_FAILURE"

definition set_header_rcode_not_implemented :: "byte list \<Rightarrow> byte list result" where
  "set_header_rcode_not_implemented buffer = set_rcode buffer RCODE_NOT_IMPLEMENTED"

definition set_header_rcode_name_error :: "byte list \<Rightarrow> byte list result" where
  "set_header_rcode_name_error buffer = set_rcode buffer RCODE_NAME_ERROR"

definition set_header_rcode_refused :: "byte list \<Rightarrow> byte list result" where
  "set_header_rcode_refused buffer = set_rcode buffer RCODE_REFUSED"

definition set_header_rcode_format_error :: "byte list \<Rightarrow> byte list result" where
  "set_header_rcode_format_error buffer = set_rcode buffer RCDOE_FORMAT_ERROR"

text \<open>\<open>rnd\<close> is the value of \<open>rand ()\<close>, used when the given id is not a 16-bit number.\<close>

definition write_dns_header ::
  "int \<Rightarrow> byte list \<Rightarrow> int \<Rightarrow> int \<Rightarrow> u16 \<Rightarrow> int \<Rightarrow> int \<Rightarrow> int \<Rightarrow> int \<Rightarrow> (int \<times> byte list) result" where
  "write_dns_header rnd buffer p i flags qdcount ancount nscount adcount =
     bindE (set16_native buffer p (of_int (if IN_16b_RANGE i then i else rnd))) (\<lambda>buffer.
     bindE (set16 buffer (p + 2) flags) (\<lambda>buffer.
     bindE (set16 buffer (p + 4) (clip16 qdcount)) (\<lambda>buffer.
     bindE (set16 buffer (p + 6) (clip16 ancount)) (\<lambda>buffer.
     bindE (set16 buffer (p + 8) (clip16 nscount)) (\<lambda>buffer.
     bindE (set16 buffer (p + 10) (clip16 adcount)) (\<lambda>buffer.
     Inr (DNS_HEADER_SIZE, buffer)))))))"

definition init_header :: "byte list \<Rightarrow> byte list result" where
  "init_header header =
     bindE (set16 header 0 2) (\<lambda>header.
     bindE (set16 header 2 0x0100) (\<lambda>header.
     bindE (set16 header 4 0) (\<lambda>header.
     bindE (set16 header 6 0) (\<lambda>header.
     bindE (set16 header 8 0) (\<lambda>header.
     set16 header 10 0)))))"

section \<open>Questions\<close>

definition sizeof_question_struct :: int where "sizeof_question_struct = 4"

definition read_dns_question :: "question \<Rightarrow> byte list \<Rightarrow> int \<Rightarrow> (int \<times> question) prog" where
  "read_dns_question qu message src =
     bindP (fetch_label message (q_label qu) src) (\<lambda>(ret, label, src').
     let qu = qu\<lparr>q_label := label\<rparr> in
     if ret < 0 then Some (Inr (- 1, qu))
     else Some (
       bindE (get16 message (src' + 2)) (\<lambda>qclass.
       bindE (get16 message src') (\<lambda>qtype.
       Inr (src' - src + 1, qu\<lparr>q_qclass := qclass, q_qtype := qtype\<rparr>)))))"

definition read_dns_questions :: "question \<Rightarrow> byte list \<Rightarrow> (int \<times> question) prog" where
  "read_dns_questions qu message =
     bindP (Some (get16 message 4)) (\<lambda>question_num.
     bindP (read_dns_question qu message DNS_HEADER_SIZE) (\<lambda>(n, qu).
     let data = DNS_HEADER_SIZE + n in
     Some (
       bindE (get16 message (data + 2)) (\<lambda>qclass.
       bindE (get16 message data) (\<lambda>qtype.
       Inr (uint question_num, qu\<lparr>q_qclass := qclass, q_qtype := qtype\<rparr>))))))"

definition write_dns_question ::
  "byte list \<Rightarrow> int \<Rightarrow> cstring \<Rightarrow> int \<Rightarrow> int \<Rightarrow> (int \<times> byte list) result" where
  "write_dns_question buffer p qu rclass rtype =
     bindE (str_to_label buffer p qu MAX_DNS_SIZE) (\<lambda>(size, buffer).
     if size = - 1 then Inr (- 1, buffer)
     else
       bindE (set16 buffer (p + size + 2) (clip16 rclass)) (\<lambda>buffer.
       bindE (set16 buffer (p + size) (clip16 rtype)) (\<lambda>buffer.
       Inr (size + sizeof_question_struct, buffer))))"

definition write_dns_query :: "int \<Rightarrow> byte list \<Rightarrow> cstring \<Rightarrow> int \<Rightarrow> (int \<times> byte list) result" where
  "write_dns_query rnd buffer questions answertype =
     bindE (write_dns_header rnd buffer 0 (- 1) FLAG_QUERY 1 0 0 0) (\<lambda>(n, buffer).
     bindE (write_dns_question buffer n questions HTTP_CLASS answertype) (\<lambda>(m, buffer).
     Inr (n + m, buffer)))"

section \<open>Answers\<close>

definition sizeof_answer_struct :: int where "sizeof_answer_struct = 10"

text \<open>\<open>memcpy (&dest->address.addr, src, length)\<close>: the union has sixteen bytes.\<close>

definition copy_address :: "IP \<Rightarrow> byte list \<Rightarrow> int \<Rightarrow> u16 \<Rightarrow> IP result" where
  "copy_address ip message src len =
     bindE (read_bytes message src (unat len)) (\<lambda>bs.
     bindE (write_bytes (ip_addr ip) 0 bs) (\<lambda>addr. Inr (ip\<lparr>ip_addr := addr\<rparr>)))"

text \<open>The result is the return value, the answer and \<open>*good\<close>.\<close>

definition read_dns_answer :: "answer \<Rightarrow> byte list \<Rightarrow> int \<Rightarrow> (int \<times> answer \<times> bool) prog" where
  "read_dns_answer dest message src =
     bindP (fetch_label message (a_name dest) src) (\<lambda>(cnt, name, src').
     let dest = dest\<lparr>a_name := name\<rparr> in
     if cnt = - 1 then Some (Inr (- 1, dest, False))
     else Some (
       bindE (get32 message (src' + 4)) (\<lambda>ttl.
       bindE (get16 message (src' + 2)) (\<lambda>rclass.
       bindE (get16 message src') (\<lambda>rtype.
       bindE (get16 message (src' + 8)) (\<lambda>len.
       let dest = dest\<lparr>a_ttl := ttl, a_class := rclass, a_type := rtype\<rparr>;
           src'' = src' + sizeof_answer_struct;
           ret = src'' + uint len - src
       in if uint rtype = rrtype_val RRTYPE_A \<or> uint rtype = rrtype_val RRTYPE_AAAA then
            bindE (copy_address (a_address dest) message src'' len) (\<lambda>ip.
            Inr (ret, dest\<lparr>a_address := ip\<lparr>ip_type := ucast rtype\<rparr>\<rparr>, True))
          else Inr (ret, dest, False)))))))"

text \<open>\<open>for (i = 0; i < question; i++) { while (*data != 0) ...; data += 5; }\<close>\<close>

fun skip_questions :: "byte list \<Rightarrow> nat \<Rightarrow> int \<Rightarrow> int prog" where
  "skip_questions message 0 data = Some (Inr data)"
| "skip_questions message (Suc n) data =
     bindP (skip_labels message data) (\<lambda>data. skip_questions message n (data + 5))"

text \<open>The loop over the answers: \<open>answers\<close> is the caller's array, \<open>cnt\<close> the number filled.\<close>

fun read_answers :: "byte list \<Rightarrow> nat \<Rightarrow> answer list \<Rightarrow> int \<Rightarrow> int \<Rightarrow> (int \<times> answer list) prog" where
  "read_answers message 0 answers cnt data = Some (Inr (cnt, answers))"
| "read_answers message (Suc n) answers cnt data =
     bindP (Some (arr_get answers cnt)) (\<lambda>dest.
     bindP (read_dns_answer dest message data) (\<lambda>(ret, dest, good).
     bindP (Some (arr_set answers cnt dest)) (\<lambda>answers.
     read_answers message n answers (if good then cnt + 1 else cnt) (data + ret))))"

definition read_dns_answers :: "answer list \<Rightarrow> byte list \<Rightarrow> (int \<times> answer list) prog" where
  "read_dns_answers answers message =
     bindP (Some (get16 message 6)) (\<lambda>ans.
     bindP (Some (get16 message 4)) (\<lambda>qu.
     bindP (skip_questions message (unat qu) DNS_HEADER_SIZE) (\<lambda>data.
     read_answers message (unat ans) answers 0 data)))"

definition write_dns_answer ::
  "byte list \<Rightarrow> int \<Rightarrow> cstring \<Rightarrow> int \<Rightarrow> int \<Rightarrow> int \<Rightarrow> byte list \<Rightarrow> (int \<times> byte list) result" where
  "write_dns_answer buffer p name rtype rclass ttl rdata =
     bindE (str_to_label buffer p name MAX_DNS_SIZE) (\<lambda>(size, buffer).
     if size = - 1 then Inr (- 1, buffer)
     else
       let count = size; p = p + size in
       bindE (set16 buffer p (clip16 rtype)) (\<lambda>buffer.
       bindE (set16 buffer (p + 2) (clip16 rclass)) (\<lambda>buffer.
       bindE (set32 buffer (p + 4) (clip32 ttl)) (\<lambda>buffer.
       let data = p + sizeof_answer_struct in
       if rtype = rrtype_val RRTYPE_A then
         bindE (set16 buffer (p + 8) 4) (\<lambda>buffer.
         bindE (read_bytes rdata 0 4) (\<lambda>bs.
         bindE (write_bytes buffer data bs) (\<lambda>buffer.
         Inr (count + sizeof_answer_struct + 4, buffer))))
       else if rtype = rrtype_val RRTYPE_AAAA then
         bindE (set16 buffer (p + 8) 16) (\<lambda>buffer.
         bindE (read_bytes rdata 0 16) (\<lambda>bs.
         bindE (write_bytes buffer data bs) (\<lambda>buffer.
         Inr (count + sizeof_answer_struct + 16, buffer))))
       else if rtype = rrtype_val RRTYPE_CNAME then
         bindE (read_cstr rdata) (\<lambda>target.
         bindE (str_to_label buffer data target MAX_DNS_SIZE) (\<lambda>(size, buffer).
         bindE (set16 buffer (p + 8) (of_int size)) (\<lambda>buffer.
         Inr (count + sizeof_answer_struct + size, buffer))))
       else Inr (- 1, buffer)))))"

text \<open>\<open>&answer[i].address\<close>, passed as \<open>rdata\<close>: the bytes of \<open>struct IP\<close>.\<close>

definition address_bytes :: "IP \<Rightarrow> byte list" where
  "address_bytes ip = ip_addr ip @ [ip_type ip]"

fun write_answers :: "nat \<Rightarrow> answer list \<Rightarrow> byte list \<Rightarrow> int \<Rightarrow> (int \<times> byte list) result" where
  "write_answers 0 answers buffer data = Inr (data, buffer)"
| "write_answers (Suc n) [] buffer data = Inl OutOfBounds"
| "write_answers (Suc n) (a # as) buffer data =
     bindE (read_cstr (a_name a)) (\<lambda>name.
     bindE (write_dns_answer buffer data name (uint (a_type a)) (uint (a_class a)) (sint (a_ttl a))
       (address_bytes (a_address a))) (\<lambda>(ret, buffer).
     write_answers n as buffer (data + ret)))"

definition write_dns_response_by_query ::
  "byte list \<Rightarrow> answer list \<Rightarrow> u16 \<Rightarrow> (int \<times> byte list) prog" where
  "write_dns_response_by_query buffer answers answer_num =
     bindP (Some (set16 buffer 2 FLAG_RESPONSE_NORMAL)) (\<lambda>buffer.
     bindP (Some (set16 buffer 6 answer_num)) (\<lambda>buffer.
     bindP (skip_to_answer buffer) (\<lambda>data.
     Some (write_answers (unat answer_num) answers buffer data))))"

section \<open>Other helpers of the interface\<close>

definition rrtype_names :: "byte list" where
  "rrtype_names = map (of_char :: char \<Rightarrow> byte)
     (''A'' @ replicate 4 (CHR 0x00) @ ''NS'' @ replicate 3 (CHR 0x00) @ ''CNAME''
       @ [CHR 0x00] @ ''SOA'' @ [CHR 0x00] @ ''PTR'' @ replicate 2 (CHR 0x00)
       @ ''MX'' @ replicate 3 (CHR 0x00) @ ''AAAA'' @ [CHR 0x00] @ ''UNKNOW'')
     @ replicate 79 0"

definition RRtype_to_str :: "int \<Rightarrow> cstring" where
  "RRtype_to_str t = c_str (drop
     (if t = rrtype_val RRTYPE_A then 0
      else if t = rrtype_val RRTYPE_NS then 5
      else if t = rrtype_val RRTYPE_CNAME then 10
      else if t = rrtype_val RRTYPE_SOA then 16
      else if t = rrtype_val RRTYPE_PTR then 20
      else if t = rrtype_val RRTYPE_MX then 25
      else if t = rrtype_val RRTYPE_AAAA then 30
      else 35) rrtype_names)"

text \<open>\<open>saveip\<close> on element \<open>k\<close> of an array of addresses. \<open>ip + 4\<close> is the address four
  elements on, so that is where the eight zero bytes go.\<close>

definition saveip :: "IP list \<Rightarrow> int \<Rightarrow> byte list \<Rightarrow> int \<Rightarrow> (int \<times> IP list) result" where
  "saveip ips k src version =
     (if version = 4 then
        bindE (arr_get ips k) (\<lambda>ip.
        bindE (read_bytes src 0 4) (\<lambda>bs.
        bindE (write_bytes (ip_addr ip) 0 bs) (\<lambda>addr.
        bindE (arr_set ips k (ip\<lparr>ip_addr := addr\<rparr>)) (\<lambda>ips.
        bindE (arr_get ips (k + 4)) (\<lambda>other.
        bindE (write_bytes (ip_addr other) 0 (replicate 8 0)) (\<lambda>addr.
        bindE (arr_set ips (k + 4) (other\<lparr>ip_addr := addr\<rparr>)) (\<lambda>ips.
        bindE (arr_get ips k) (\<lambda>ip.
        bindE (arr_set ips k (ip\<lparr>ip_type := 4\<rparr>)) (\<lambda>ips. Inr (4, ips))))))))))
      else if version = 6 then
        bindE (arr_get ips k) (\<lambda>ip.
        bindE (read_bytes src 0 16) (\<lambda>bs.
        bindE (write_bytes (ip_addr ip) 0 bs) (\<lambda>addr.
        bindE (arr_set ips k (ip\<lparr>ip_addr := addr, ip_type := 6\<rparr>)) (\<lambda>ips. Inr (16, ips)))))
      else Inr (- 1, ips))"

end
