(* ===== verification/DnsCodec.thy ===== *)
theory DnsCodec
  imports DnsMessage
begin

text \<open>
  What the message functions of \<open>src/src/common.c\<close> read and write: the bytes of a header,
  a question and an answer, and the round trips between writing and reading.
\<close>

section \<open>Wire forms\<close>

definition net16 :: "u16 \<Rightarrow> byte list" where
  "net16 v = [hi8 v, lo8 v]"

definition net32 :: "u32 \<Rightarrow> byte list" where
  "net32 v = net16 (hi16 v) @ net16 (lo16 v)"

definition swap16 :: "u16 \<Rightarrow> u16" where
  "swap16 v = be16 (lo8 v) (hi8 v)"

text \<open>The twelve bytes of a header whose first field holds \<open>i\<close> in network order.\<close>

definition wire_header :: "u16 \<Rightarrow> u16 \<Rightarrow> u16 \<Rightarrow> u16 \<Rightarrow> u16 \<Rightarrow> u16 \<Rightarrow> byte list" where
  "wire_header i fl qd an ns ad = net16 i @ net16 fl @ net16 qd @ net16 an @ net16 ns @ net16 ad"

definition wire_question :: "byte list list \<Rightarrow> u16 \<Rightarrow> u16 \<Rightarrow> byte list" where
  "wire_question ls rtype rclass = wire_name ls @ net16 rtype @ net16 rclass"

text \<open>A resource record behind its name.\<close>

definition wire_rr :: "u16 \<Rightarrow> u16 \<Rightarrow> u32 \<Rightarrow> byte list \<Rightarrow> byte list" where
  "wire_rr rtype rclass ttl rdata = net16 rtype @ net16 rclass @ net32 ttl @ net16 (of_nat (length rdata)) @ rdata"

section \<open>Lemmas on fields\<close>

lemma length_net [simp]: "length (net16 v) = 2" "length (net32 w) = 4"
  by (simp_all add: net16_def net32_def)

lemma length_wire_header [simp]: "length (wire_header i fl qd an ns ad) = 12"
  by (simp add: wire_header_def)

lemma net16_swap: "net16 (swap16 v) = [lo8 v, hi8 v]"
  by (simp add: net16_def swap16_def)

lemma swap16_swap16 [simp]: "swap16 (swap16 v) = v"
  by (simp add: swap16_def)

text \<open>Reading a field out of a buffer that is split at the field.\<close>

lemma get16_split: "buf = pre @ net16 v @ post \<Longrightarrow> p = int (length pre) \<Longrightarrow> get16 buf p = Inr v"
  by (simp add: net16_def nat_add_distrib nth_append)

lemma get16_native_split:
  "buf = pre @ net16 v @ post \<Longrightarrow> p = int (length pre) \<Longrightarrow> get16_native buf p = Inr (swap16 v)"
  by (simp add: net16_def nat_add_distrib nth_append get16_native_def swap16_def)

lemma get32_split:
  assumes "buf = pre @ net32 v @ post" and "p = int (length pre)"
  shows "get32 buf p = Inr v"
  using assms get16_split [of buf pre "hi16 v" "net16 (lo16 v) @ post" p]
    get16_split [of buf "pre @ net16 (hi16 v)" "lo16 v" post "p + 2"]
  by (simp add: get32_def net32_def)

lemma set16_blit_net:
  "p = int (d + length bs) \<Longrightarrow> d + length bs + 2 \<le> length buf \<Longrightarrow>
    set16 (blit d bs buf) p v = Inr (blit d (bs @ net16 v) buf)"
  by (simp add: set16_blit net16_def)

lemma set32_blit_net:
  "p = int (d + length bs) \<Longrightarrow> d + length bs + 4 \<le> length buf \<Longrightarrow>
    set32 (blit d bs buf) p v = Inr (blit d (bs @ net32 v) buf)"
  by (simp add: set32_blit net32_def net16_def)

lemma set16_native_eq: "set16_native buf p v = set16 buf p (swap16 v)"
  by (simp add: set16_native_def set16_def swap16_def)

text \<open>The question fields are written last one first.\<close>

lemma set16_pair_blit:
  assumes "p = int (d + length bs)" and "d + length bs + 4 \<le> length buf"
  shows "bindE (set16 (blit d bs buf) (p + 2) c) (\<lambda>buf. set16 buf p t)
    = Inr (blit d (bs @ net16 t @ net16 c) buf)"
proof -
  define k where "k = d + length bs"
  have k: "p = int k" "k + 4 \<le> length buf" using assms by (simp_all add: k_def)
  let ?b = "blit d bs buf"
  have "bindE (set16 ?b (p + 2) c) (\<lambda>buf. set16 buf p t)
      = Inr (?b[k + 2 := hi8 c, k + 3 := lo8 c, k := hi8 t, k + 1 := lo8 t])"
    using k assms(2) by (simp add: set16_def arr_set_def nat_add_distrib add.commute [of 3])
  also have "?b[k + 2 := hi8 c, k + 3 := lo8 c, k := hi8 t, k + 1 := lo8 t]
      = ?b[k := hi8 t, k + 1 := lo8 t, k + 2 := hi8 c, k + 3 := lo8 c]"
    by (simp add: list_update_swap)
  also have "\<dots> = blit d (bs @ net16 t @ net16 c) buf"
    using assms(2) blit_snoc [of d bs buf "hi8 t"] blit_snoc [of d "bs @ [hi8 t]" buf "lo8 t"]
      blit_snoc [of d "bs @ [hi8 t, lo8 t]" buf "hi8 c"]
      blit_snoc [of d "bs @ [hi8 t, lo8 t, hi8 c]" buf "lo8 c"]
    by (simp add: k_def net16_def numeral_3_eq_3 numeral_2_eq_2)
  finally show ?thesis .
qed

section \<open>Header\<close>

lemma write_dns_header_blit:
  assumes "12 \<le> length buf"
  shows "write_dns_header rnd buf 0 i fl qd an ns ad = Inr (12, blit 0
    (wire_header (swap16 (of_int (if IN_16b_RANGE i then i else rnd))) fl (clip16 qd) (clip16 an)
      (clip16 ns) (clip16 ad)) buf)"
  using assms set16_blit_net [of 0 0 "[]" buf]
  by (simp add: write_dns_header_def set16_native_eq set16_blit_net wire_header_def DNS_HEADER_SIZE_def)

lemma read_dns_header_wire:
  "read_dns_header (wire_header i fl qd an ns ad @ post) = Inr (12, \<lparr>hd_id = i, hd_flags = swap16 fl,
     hd_qdcount = qd, hd_ancount = an, hd_nscount = ns, hd_adcount = ad\<rparr>)"
proof -
  let ?m = "wire_header i fl qd an ns ad @ post"
  have "get16 ?m 0 = Inr i" "get16 ?m 4 = Inr qd" "get16 ?m 6 = Inr an" "get16 ?m 8 = Inr ns"
    "get16 ?m 10 = Inr ad"
    using get16_split [of ?m "[]" i] get16_split [of ?m "net16 i @ net16 fl" qd]
      get16_split [of ?m "net16 i @ net16 fl @ net16 qd" an]
      get16_split [of ?m "net16 i @ net16 fl @ net16 qd @ net16 an" ns]
      get16_split [of ?m "net16 i @ net16 fl @ net16 qd @ net16 an @ net16 ns" ad]
    by (simp_all add: wire_header_def)
  moreover have "get16_native ?m 2 = Inr (swap16 fl)"
    using get16_native_split [of ?m "net16 i" fl] by (simp add: wire_header_def)
  ultimately show ?thesis by (simp add: read_dns_header_def DNS_HEADER_SIZE_def)
qed

section \<open>Question\<close>

lemma write_dns_question_blit:
  assumes "ls \<noteq> []" and "\<forall>l \<in> set ls. DOT \<notin> set l" and "length (dotted ls) < 520"
    and "length pre + length (dotted ls) + 6 \<le> length buf"
  shows "write_dns_question (blit 0 pre buf) (int (length pre)) (dotted ls) rclass rtype
    = Inr (int (length (dotted ls)) + 6, blit 0 (pre @ wire_question ls (clip16 rtype) (clip16 rclass)) buf)"
proof -
  have len: "length (wire_name ls) = length (dotted ls) + 2" using length_wire_name [OF assms(1)] .
  have "str_to_label (blit 0 pre buf) (int (length pre)) (dotted ls) MAX_DNS_SIZE
      = Inr (int (length (wire_name ls)), blit 0 (pre @ wire_name ls) buf)"
    using str_to_label_dotted [OF assms(1,2), of MAX_DNS_SIZE "length pre" "blit 0 pre buf"] assms(3,4)
      blit_blit [of 0 pre "wire_name ls" buf] len by (simp add: MAX_DNS_SIZE_def)
  moreover have "bindE (set16 (blit 0 (pre @ wire_name ls) buf) (int (length pre) + int (length (wire_name ls)) + 2)
      (clip16 rclass)) (\<lambda>buf. set16 buf (int (length pre) + int (length (wire_name ls))) (clip16 rtype))
      = Inr (blit 0 (pre @ wire_question ls (clip16 rtype) (clip16 rclass)) buf)"
    using set16_pair_blit [of "int (length pre) + int (length (wire_name ls))" 0 "pre @ wire_name ls" buf
        "clip16 rclass" "clip16 rtype"] assms(4) len by (simp add: wire_question_def)
  ultimately show ?thesis
    using len by (simp add: write_dns_question_def sizeof_question_struct_def bindE_assoc [symmetric]
        del: bindE_assoc)
qed

text \<open>\<open>read_dns_question\<close> stops at the zero byte of an uncompressed name and takes the two
  fields from there; \<open>read_dns_questions\<close> reads them again at the right place.\<close>

lemma read_dns_question_wire:
  assumes ls: "ls \<noteq> []" "\<forall>l \<in> set ls. valid_label l"
    and m: "m = hdr @ wire_question ls rtype rclass @ post" and hdr: "length hdr = 12"
    and len: "length m < 32768" and lab: "length (dotted ls) < length (q_label qu)" "length (q_label qu) < 32768"
  shows "\<exists>t c. read_dns_question qu m 12 = Some (Inr (int (length (dotted ls)) + 2,
    qu\<lparr>q_label := blit 0 (dotted ls @ [0]) (q_label qu), q_qclass := c, q_qtype := t\<rparr>))"
proof -
  have wl: "length (wire_name ls) = length (dotted ls) + 2" using length_wire_name [OF ls(1)] .
  then have wl': "length (wire_labels ls) = Suc (length (dotted ls))" by (simp add: wire_name_def)
  have "name_at m (length hdr) ls False ls (length hdr + length (wire_labels ls))"
    using ls(2) m by (intro wire_name_at) (auto simp: list_all_iff valid_label_def wire_question_def)
  then have "fetch_label m (q_label qu) 12 = Some (Inr (int (length (dotted ls)),
      blit 0 (dotted ls @ [0]) (q_label qu), int (length (dotted ls)) + 13))"
    using fetch_label_text [of m 12 ls False ls _ "q_label qu"] ls(1) lab len hdr wl'
    by (simp add: fetched_def dots_snoc)
  moreover have "length (dotted ls) + 18 \<le> length m"
    using m hdr wl by (simp add: wire_question_def)
  ultimately show ?thesis
    by (intro exI [of _ "be16 (m ! nat (int (length (dotted ls)) + 13)) (m ! nat (14 + int (length (dotted ls))))"]
        exI [of _ "be16 (m ! nat (15 + int (length (dotted ls)))) (m ! nat (16 + int (length (dotted ls))))"])
      (simp add: read_dns_question_def Let_def)
qed

lemma read_dns_questions_wire:
  assumes ls: "ls \<noteq> []" "\<forall>l \<in> set ls. valid_label l"
    and m: "m = wire_header i fl qd an ns ad @ wire_question ls rtype rclass @ post"
    and len: "length m < 32768" and lab: "length (dotted ls) < length (q_label qu)" "length (q_label qu) < 32768"
  shows "read_dns_questions qu m = Some (Inr (uint qd,
    qu\<lparr>q_label := blit 0 (dotted ls @ [0]) (q_label qu), q_qclass := rclass, q_qtype := rtype\<rparr>))"
proof -
  let ?hdr = "wire_header i fl qd an ns ad"
  have wl: "length (wire_name ls) = length (dotted ls) + 2" using length_wire_name [OF ls(1)] .
  obtain t c where rd: "read_dns_question qu m 12 = Some (Inr (int (length (dotted ls)) + 2,
    qu\<lparr>q_label := blit 0 (dotted ls @ [0]) (q_label qu), q_qclass := c, q_qtype := t\<rparr>))"
    using read_dns_question_wire [OF ls m _ len lab] by auto
  have "get16 m 4 = Inr qd"
    using get16_split [of m "net16 i @ net16 fl" qd] m by (simp add: wire_header_def)
  moreover have "get16 m (14 + int (length (dotted ls))) = Inr rtype"
    using get16_split [of m "?hdr @ wire_name ls" rtype "net16 rclass @ post"] m wl by (simp add: wire_question_def)
  moreover have "get16 m (16 + int (length (dotted ls))) = Inr rclass"
    using get16_split [of m "?hdr @ wire_name ls @ net16 rtype" rclass post] m wl
    by (simp add: wire_question_def)
  ultimately show ?thesis
    using rd by (simp add: read_dns_questions_def DNS_HEADER_SIZE_def Let_def add.commute)
qed

lemma write_dns_query_blit:
  assumes "ls \<noteq> []" and "\<forall>l \<in> set ls. DOT \<notin> set l" and "length (dotted ls) < 520"
    and "length (dotted ls) + 18 \<le> length buf"
  shows "write_dns_query rnd buf (dotted ls) rtype = Inr (int (length (dotted ls)) + 18,
    blit 0 (wire_header (swap16 (of_int rnd)) FLAG_QUERY 1 0 0 0 @ wire_question ls (clip16 rtype) 1) buf)"
  using write_dns_header_blit [of buf rnd "- 1" FLAG_QUERY 1 0 0 0]
    write_dns_question_blit [OF assms(1-3), of "wire_header (swap16 (of_int rnd)) FLAG_QUERY 1 0 0 0" buf
      HTTP_CLASS rtype] assms(4)
  by (simp add: write_dns_query_def clip16_def IN_16b_RANGE_def HTTP_CLASS_def add.commute)

section \<open>Answers\<close>

lemma uint_type_iff [simp]: "uint t = 1 \<longleftrightarrow> t = 1" "uint t = 28 \<longleftrightarrow> t = 28" for t :: u16
  by (auto simp: word_uint_eq_iff)

lemma rr_fields:
  assumes m: "m = pre @ wire_rr rtype rclass ttl rdata @ post"
  shows "get16 m (int (length pre)) = Inr rtype" and "get16 m (int (length pre) + 2) = Inr rclass"
    and "get32 m (int (length pre) + 4) = Inr ttl"
    and "get16 m (int (length pre) + 8) = Inr (of_nat (length rdata))"
proof -
  show "get16 m (int (length pre)) = Inr rtype"
    by (rule get16_split [of _ pre]) (simp_all add: m wire_rr_def)
  show "get16 m (int (length pre) + 2) = Inr rclass"
    by (rule get16_split [of _ "pre @ net16 rtype"]) (simp_all add: m wire_rr_def)
  show "get32 m (int (length pre) + 4) = Inr ttl"
    by (rule get32_split [of _ "pre @ net16 rtype @ net16 rclass"]) (simp_all add: m wire_rr_def)
  show "get16 m (int (length pre) + 8) = Inr (of_nat (length rdata))"
    by (rule get16_split [of _ "pre @ net16 rtype @ net16 rclass @ net32 ttl"])
      (simp_all add: m wire_rr_def)
qed

text \<open>A record whose name is compressed: the name ends in a pointer, the fields follow.\<close>

lemma read_dns_answer_compressed:
  assumes name: "name_at m p ls True ts e" and ls: "ls \<noteq> []" "ts \<noteq> []"
    and m: "m = pre @ wire_rr rtype rclass ttl rdata @ post" and e: "e = length pre"
    and rd: "length rdata < 65536" and len: "length m < 32768"
    and dest: "length (dotted ls) < length (a_name dest)" "length (a_name dest) < 32768"
      "length (ip_addr (a_address dest)) = 16"
  defines "base \<equiv> dest\<lparr>a_name := blit 0 (dotted ls @ [0]) (a_name dest), a_ttl := ttl, a_class := rclass,
      a_type := rtype\<rparr>"
    and "ret \<equiv> int (e + 10 + length rdata) - int p"
  shows "read_dns_answer dest m (int p) = Some (
    if rtype = 1 \<or> rtype = 28 then
      if length rdata \<le> 16
      then Inr (ret, base\<lparr>a_address := \<lparr>ip_addr = blit 0 rdata (ip_addr (a_address dest)),
        ip_type = ucast rtype\<rparr>\<rparr>, True)
      else Inl OutOfBounds
    else Inr (ret, base, False))"
proof -
  have f: "fetch_label m (a_name dest) (int p)
      = Some (Inr (fetched ts, blit 0 (dotted ls @ [0]) (a_name dest), int e))"
    by (rule fetch_label_text [OF name ls(1) dest(1) len dest(2)])
  have nm: "fetched ts \<noteq> - 1" using ls(2) by (cases ts) (auto simp: fetched_def)
  have g: "get16 m (int e) = Inr rtype" "get16 m (int e + 2) = Inr rclass" "get32 m (int e + 4) = Inr ttl"
    "get16 m (int e + 8) = Inr (of_nat (length rdata))"
    using rr_fields [OF m] e by simp_all
  have n: "unat (of_nat (length rdata) :: u16) = length rdata"
    using rd by (simp add: unat_of_nat)
  then have n': "uint (of_nat (length rdata) :: u16) = int (length rdata)" by (simp only: uint_nat)
  have "read_bytes m (int e + 10) (length rdata) = Inr rdata"
    using read_bytes_in [of "e + 10" "length rdata" m] m e by (simp add: wire_rr_def)
  then have cp: "copy_address (a_address dest) m (int e + 10) (of_nat (length rdata)) =
      (if length rdata \<le> 16
       then Inr ((a_address dest)\<lparr>ip_addr := blit 0 rdata (ip_addr (a_address dest))\<rparr>)
       else Inl OutOfBounds)"
    using dest(3) n by (auto simp: copy_address_def write_bytes_def)
  show ?thesis
    unfolding read_dns_answer_def
    using f nm g n' cp by (simp add: Let_def sizeof_answer_struct_def base_def ret_def)
qed

text \<open>A record whose name is not compressed: the fields are read one byte too early.\<close>

lemma read_dns_answer_uncompressed:
  assumes name: "name_at m p ls False ts e" and ls: "ls \<noteq> []" "ts \<noteq> []"
    and m: "m = pre @ 0 # wire_rr rtype rclass ttl rdata @ post" and e: "e = length pre"
    and small: "unat rtype < 256" and len: "length m < 32768"
    and dest: "length (dotted ls) < length (a_name dest)" "length (a_name dest) < 32768"
  shows "\<exists>ret dest'. read_dns_answer dest m (int p) = Some (Inr (ret, dest', False)) \<and> a_type dest' = 0"
proof -
  have f: "fetch_label m (a_name dest) (int p)
      = Some (Inr (fetched ts, blit 0 (dotted ls @ [0]) (a_name dest), int e))"
    by (rule fetch_label_text [OF name ls(1) dest(1) len dest(2)])
  have nm: "fetched ts \<noteq> - 1" using ls(2) by (cases ts) (auto simp: fetched_def)
  have "hi8 rtype = 0"
  proof -
    have "256 * unat (hi8 rtype) + unat (lo8 rtype) < 256"
      using small unat_be16 [of "hi8 rtype" "lo8 rtype"] by simp
    then have "unat (hi8 rtype) = 0" by linarith
    then show ?thesis by (simp only: unat_eq_zero)
  qed
  then have "get16 m (int e) = Inr 0"
    using m e by (simp add: wire_rr_def net16_def be16_def nat_add_distrib nth_append)
  moreover have in_m: "e + 10 < length m" using m e by (simp add: wire_rr_def)
  moreover have "\<exists>v. get16 m (int e + 2) = Inr v" "\<exists>v. get16 m (int e + 8) = Inr v"
    "\<exists>v. get32 m (int e + 4) = Inr v"
    using in_m by (simp_all add: get32_def)
  ultimately show ?thesis
    using f nm by (auto simp: read_dns_answer_def Let_def)
qed

text \<open>Writing one address record.\<close>

definition rdata_size :: "u16 \<Rightarrow> nat" where
  "rdata_size rtype = (if rtype = 1 then 4 else 16)"

lemma clip16_uint [simp]: "clip16 (uint v) = v"
proof -
  have "uint v \<le> 65535" using unsigned_less [of v, where 'a = int] by simp
  then show ?thesis by (simp add: clip16_def IN_16b_RANGE_def)
qed

lemma write_dns_answer_blit:
  assumes "rtype = 1 \<or> rtype = 28" and "length name < 520" and "rdata_size rtype \<le> length rdata"
    and "length pre + length name + 12 + rdata_size rtype \<le> length buf"
  shows "write_dns_answer (blit 0 pre buf) (int (length pre)) name (uint rtype) rclass ttl rdata
    = Inr (int (length name + 12 + rdata_size rtype),
        blit 0 (pre @ wire_name (split_dots name)
          @ wire_rr rtype (clip16 rclass) (clip32 ttl) (take (rdata_size rtype) rdata)) buf)"
proof -
  let ?w = "pre @ wire_name (split_dots name)" and ?n = "rdata_size rtype"
  have n: "int (length ?w) = int (length pre) + (int (length name) + 2)"
    by (simp add: length_wire_split)
  have str: "str_to_label (blit 0 pre buf) (int (length pre)) name MAX_DNS_SIZE
      = Inr (int (length name) + 2, blit 0 ?w buf)"
    using str_to_label_any [of name MAX_DNS_SIZE "length pre" "blit 0 pre buf"] assms(2,4)
      blit_blit [of 0 pre "wire_name (split_dots name)" buf]
    by (simp add: MAX_DNS_SIZE_def length_wire_split)
  have fields: "set16 (blit 0 ?w buf) (int (length ?w)) rtype = Inr (blit 0 (?w @ net16 rtype) buf)"
    "set16 (blit 0 (?w @ net16 rtype) buf) (int (length ?w) + 2) (clip16 rclass)
      = Inr (blit 0 (?w @ net16 rtype @ net16 (clip16 rclass)) buf)"
    "set32 (blit 0 (?w @ net16 rtype @ net16 (clip16 rclass)) buf) (int (length ?w) + 4) (clip32 ttl)
      = Inr (blit 0 (?w @ net16 rtype @ net16 (clip16 rclass) @ net32 (clip32 ttl)) buf)"
    "set16 (blit 0 (?w @ net16 rtype @ net16 (clip16 rclass) @ net32 (clip32 ttl)) buf)
      (int (length ?w) + 8) (of_nat ?n)
      = Inr (blit 0 (?w @ net16 rtype @ net16 (clip16 rclass) @ net32 (clip32 ttl) @ net16 (of_nat ?n)) buf)"
    using assms(4) set16_blit_net [of "int (length ?w)" 0 ?w buf]
      set16_blit_net [of "int (length ?w) + 2" 0 "?w @ net16 rtype" buf]
      set32_blit_net [of "int (length ?w) + 4" 0 "?w @ net16 rtype @ net16 (clip16 rclass)" buf]
      set16_blit_net [of "int (length ?w) + 8" 0
        "?w @ net16 rtype @ net16 (clip16 rclass) @ net32 (clip32 ttl)" buf]
    by (simp_all add: length_wire_split)
  have data: "write_bytes (blit 0 (?w @ net16 rtype @ net16 (clip16 rclass) @ net32 (clip32 ttl)
        @ net16 (of_nat ?n)) buf) (int (length ?w) + 10) (take ?n rdata)
      = Inr (blit 0 (?w @ wire_rr rtype (clip16 rclass) (clip32 ttl) (take ?n rdata)) buf)"
    using assms(3,4) write_bytes_blit [of "int (length ?w) + 10" 0 "?w @ net16 rtype
        @ net16 (clip16 rclass) @ net32 (clip32 ttl) @ net16 (of_nat ?n)" "take ?n rdata" buf]
    by (simp add: length_wire_split wire_rr_def min_absorb2)
  have "read_bytes rdata 0 ?n = Inr (take ?n rdata)"
    using read_bytes_in [of 0 ?n rdata] assms(3) by simp
  then show ?thesis
    using assms(1) str fields data unfolding n write_dns_answer_def
    by (auto simp: Let_def sizeof_answer_struct_def rdata_size_def)
qed

section \<open>The response\<close>

text \<open>An answer structure that can be written: a terminated name and an address record.\<close>

definition answer_ok :: "answer \<Rightarrow> bool" where
  "answer_ok a \<longleftrightarrow> 0 \<in> set (a_name a) \<and> length (a_name a) \<le> MAX_NAME_LENGTH
     \<and> (a_type a = 1 \<or> a_type a = 28) \<and> length (ip_addr (a_address a)) = 16"

definition wire_answer :: "answer \<Rightarrow> byte list" where
  "wire_answer a = wire_name (split_dots (c_str (a_name a)))
     @ wire_rr (a_type a) (a_class a) (clip32 (sint (a_ttl a)))
         (take (rdata_size (a_type a)) (ip_addr (a_address a)))"

lemma length_c_str_le: "length (c_str buf) \<le> length buf"
  by (simp add: c_str_def length_takeWhile_le)

lemma length_wire_answer:
  "answer_ok a \<Longrightarrow> length (wire_answer a) = length (c_str (a_name a)) + 12 + rdata_size (a_type a)"
  by (auto simp: wire_answer_def wire_rr_def length_wire_split answer_ok_def rdata_size_def)

lemma write_one_answer:
  assumes ok: "answer_ok a" and fits: "length pre + length (wire_answer a) \<le> length buf"
  shows "write_dns_answer (blit 0 pre buf) (int (length pre)) (c_str (a_name a)) (uint (a_type a))
      (uint (a_class a)) (sint (a_ttl a)) (address_bytes (a_address a))
    = Inr (int (length (wire_answer a)), blit 0 (pre @ wire_answer a) buf)"
proof -
  have "length (c_str (a_name a)) < 520"
    using ok length_c_str_le [of "a_name a"] by (simp add: answer_ok_def MAX_NAME_LENGTH_def)
  moreover have n: "rdata_size (a_type a) \<le> 16" by (simp add: rdata_size_def)
  ultimately have "write_dns_answer (blit 0 pre buf) (int (length pre)) (c_str (a_name a)) (uint (a_type a))
      (uint (a_class a)) (sint (a_ttl a)) (address_bytes (a_address a))
    = Inr (int (length (c_str (a_name a)) + 12 + rdata_size (a_type a)),
        blit 0 (pre @ wire_name (split_dots (c_str (a_name a))) @ wire_rr (a_type a)
          (clip16 (uint (a_class a))) (clip32 (sint (a_ttl a)))
          (take (rdata_size (a_type a)) (address_bytes (a_address a)))) buf)"
    using ok fits by (intro write_dns_answer_blit) (auto simp: answer_ok_def address_bytes_def
        length_wire_answer)
  with ok n show ?thesis
    by (simp add: length_wire_split wire_rr_def wire_answer_def address_bytes_def answer_ok_def
        min_absorb2)
qed

lemma write_answers_blit:
  assumes "list_all answer_ok as"
    and "length pre + length (concat (map wire_answer as)) \<le> length buf"
  shows "write_answers (length as) as (blit 0 pre buf) (int (length pre))
    = Inr (int (length pre + length (concat (map wire_answer as))),
        blit 0 (pre @ concat (map wire_answer as)) buf)"
  using assms
proof (induction as arbitrary: pre)
  case Nil
  then show ?case by simp
next
  case (Cons a as)
  have "read_cstr (a_name a) = Inr (c_str (a_name a))"
    using Cons.prems by (simp add: read_cstr_def answer_ok_def)
  moreover have "write_answers (length as) as (blit 0 (pre @ wire_answer a) buf)
      (int (length (pre @ wire_answer a))) = Inr (int (length (pre @ wire_answer a)
        + length (concat (map wire_answer as))),
        blit 0 ((pre @ wire_answer a) @ concat (map wire_answer as)) buf)"
    using Cons.prems by (intro Cons.IH) auto
  ultimately show ?case
    using Cons.prems write_one_answer [of a pre buf] by (simp add: add.assoc)
qed

lemma skip_to_answer_wire:
  assumes "ls \<noteq> []" "\<forall>l \<in> set ls. valid_label l" and "length hdr = 12"
  shows "skip_to_answer (hdr @ wire_question ls rtype rclass @ post)
    = Some (Inr (int (length hdr + length (wire_question ls rtype rclass))))"
proof -
  let ?m = "hdr @ wire_question ls rtype rclass @ post"
  have "name_at ?m (length hdr) ls False ls (length hdr + length (wire_labels ls))"
    using assms(2) by (intro wire_name_at) (auto simp: list_all_iff valid_label_def wire_question_def)
  from skip_labels_name [OF this] show ?thesis
    using assms(3) by (simp add: skip_to_answer_def DNS_HEADER_SIZE_def wire_question_def wire_name_def)
qed

lemma write_dns_response_wire:
  assumes ls: "ls \<noteq> []" "\<forall>l \<in> set ls. valid_label l"
    and as: "list_all answer_ok as" "length as < 65536"
    and fits: "length (concat (map wire_answer as)) \<le> length rest"
  shows "write_dns_response_by_query
      (wire_header i fl qd an ns ad @ wire_question ls rtype rclass @ rest) as (of_nat (length as))
    = Some (Inr (int (12 + length (wire_question ls rtype rclass) + length (concat (map wire_answer as))),
        wire_header i FLAG_RESPONSE_NORMAL qd (of_nat (length as)) ns ad
          @ wire_question ls rtype rclass @ concat (map wire_answer as)
          @ drop (length (concat (map wire_answer as))) rest))"
proof -
  let ?q = "wire_question ls rtype rclass" and ?w = "concat (map wire_answer as)"
  let ?h = "wire_header i FLAG_RESPONSE_NORMAL qd (of_nat (length as)) ns ad"
  have hdr: "bindE (set16 (wire_header i fl qd an ns ad @ ?q @ rest) 2 FLAG_RESPONSE_NORMAL)
      (\<lambda>b. set16 b 6 (of_nat (length as))) = Inr (?h @ ?q @ rest)"
    by (simp add: set16_def wire_header_def net16_def)
  have n: "unat (of_nat (length as) :: u16) = length as" using as(2) by (simp add: unat_of_nat)
  have "?h @ ?q @ rest = blit 0 (?h @ ?q) (?h @ ?q @ rest)" by (simp add: blit_def)
  then have "write_answers (length as) as (?h @ ?q @ rest) (int (length (?h @ ?q)))
      = Inr (int (length (?h @ ?q) + length ?w), blit 0 ((?h @ ?q) @ ?w) (?h @ ?q @ rest))"
    using write_answers_blit [OF as(1), of "?h @ ?q" "?h @ ?q @ rest"] fits by simp
  moreover have "blit 0 ((?h @ ?q) @ ?w) (?h @ ?q @ rest) = ?h @ ?q @ ?w @ drop (length ?w) rest"
    by (simp add: blit_def)
  ultimately show ?thesis
    using hdr n skip_to_answer_wire [OF ls, of ?h rtype rclass rest]
    by (simp add: write_dns_response_by_query_def bindE_Inr_iff) auto
qed

section \<open>Reading all answers\<close>

record rr =
  rr_labels :: "byte list list"
  rr_type :: u16
  rr_class :: u16
  rr_ttl :: u32
  rr_data :: "byte list"

text \<open>A resource record with a compressed name at \<open>p\<close>, the next one starting at \<open>q\<close>.\<close>

definition rr_at :: "byte list \<Rightarrow> nat \<Rightarrow> rr \<Rightarrow> nat \<Rightarrow> bool" where
  "rr_at m p r q \<longleftrightarrow> (\<exists>ts pre post. name_at m p (rr_labels r) True ts (length pre)
     \<and> rr_labels r \<noteq> [] \<and> ts \<noteq> []
     \<and> m = pre @ wire_rr (rr_type r) (rr_class r) (rr_ttl r) (rr_data r) @ post
     \<and> q = length pre + 10 + length (rr_data r))"

fun rrs_at :: "byte list \<Rightarrow> nat \<Rightarrow> rr list \<Rightarrow> bool" where
  "rrs_at m p [] \<longleftrightarrow> True"
| "rrs_at m p (r # rs) \<longleftrightarrow> (\<exists>q. rr_at m p r q \<and> rrs_at m q rs)"

definition is_address :: "rr \<Rightarrow> bool" where
  "is_address r \<longleftrightarrow> rr_type r = 1 \<or> rr_type r = 28"

text \<open>Records the reader can take: a name that fits, and at most sixteen bytes of address.\<close>

definition rr_ok :: "rr \<Rightarrow> bool" where
  "rr_ok r \<longleftrightarrow> length (dotted (rr_labels r)) < MAX_NAME_LENGTH
     \<and> (\<forall>l \<in> set (rr_labels r). 0 \<notin> set l)
     \<and> (if is_address r then length (rr_data r) \<le> 16 else length (rr_data r) < 65536)"

definition answer_shape :: "answer \<Rightarrow> bool" where
  "answer_shape a \<longleftrightarrow> length (a_name a) = MAX_NAME_LENGTH \<and> length (ip_addr (a_address a)) = 16"

definition decodes :: "rr \<Rightarrow> answer \<Rightarrow> bool" where
  "decodes r a \<longleftrightarrow> c_str (a_name a) = dotted (rr_labels r) \<and> a_type a = rr_type r
     \<and> a_class a = rr_class r \<and> a_ttl a = rr_ttl r
     \<and> take (length (rr_data r)) (ip_addr (a_address a)) = rr_data r
     \<and> ip_type (a_address a) = ucast (rr_type r)"

lemma read_one_rr:
  assumes at: "rr_at m p r q" and ok: "rr_ok r" and len: "length m < 32768" and sh: "answer_shape dest"
  shows "\<exists>dest'. read_dns_answer dest m (int p) = Some (Inr (int q - int p, dest', is_address r))
    \<and> answer_shape dest' \<and> (is_address r \<longrightarrow> decodes r dest')"
proof -
  obtain ts pre post where name: "name_at m p (rr_labels r) True ts (length pre)"
    and ne: "rr_labels r \<noteq> []" "ts \<noteq> []"
    and m: "m = pre @ wire_rr (rr_type r) (rr_class r) (rr_ttl r) (rr_data r) @ post"
    and q: "q = length pre + 10 + length (rr_data r)"
    using at by (auto simp: rr_at_def)
  let ?n = "blit 0 (dotted (rr_labels r) @ [0]) (a_name dest)"
  have rd: "length (rr_data r) < 65536" using ok by (auto simp: rr_ok_def split: if_splits)
  have sz: "length (dotted (rr_labels r)) < length (a_name dest)" "length (a_name dest) < 32768"
    "length (ip_addr (a_address dest)) = 16"
    using ok sh by (simp_all add: rr_ok_def answer_shape_def MAX_NAME_LENGTH_def)
  have "length ?n = length (a_name dest)" using sz by simp
  moreover have "c_str ?n = dotted (rr_labels r)"
    using ok dotted_no_zero [of "rr_labels r"] by (simp add: blit_def rr_ok_def)
  moreover note read_dns_answer_compressed [OF name ne m refl rd len sz] q ok sh
  ultimately show ?thesis
    using take_drop_blit [of 0 "rr_data r" "ip_addr (a_address dest)"] sz(3)
    by (auto simp: is_address_def rr_ok_def answer_shape_def decodes_def)
qed

lemma read_answers_rrs:
  assumes "rrs_at m p rs" and "list_all rr_ok rs" and "length m < 32768"
    and "list_all answer_shape answers"
    and "cnt + length (filter is_address rs) < length answers"
  shows "\<exists>answers'. read_answers m (length rs) answers (int cnt) (int p)
      = Some (Inr (int (cnt + length (filter is_address rs)), answers'))
    \<and> length answers' = length answers \<and> list_all answer_shape answers'
    \<and> take cnt answers' = take cnt answers
    \<and> list_all2 decodes (filter is_address rs)
        (take (length (filter is_address rs)) (drop cnt answers'))"
  using assms
proof (induction rs arbitrary: p cnt answers)
  case Nil
  then show ?case by simp
next
  case (Cons r rs)
  obtain q where at: "rr_at m p r q" and rest: "rrs_at m q rs" using Cons.prems(1) by auto
  have cnt: "cnt < length answers" using Cons.prems(5) by auto
  then have "answer_shape (answers ! cnt)" using Cons.prems(4) by (simp add: list_all_length)
  then obtain dest' where rd: "read_dns_answer (answers ! cnt) m (int p)
      = Some (Inr (int q - int p, dest', is_address r))"
    and sh: "answer_shape dest'" and dec: "is_address r \<longrightarrow> decodes r dest'"
    using read_one_rr [OF at] Cons.prems(2,3) by auto
  let ?as = "answers[cnt := dest']"
  have shape: "list_all answer_shape ?as"
    using Cons.prems(4) sh set_update_subset_insert [of answers cnt dest'] by (auto simp: list_all_iff)
  show ?case
  proof (cases "is_address r")
    case False
    obtain answers' where "read_answers m (length rs) ?as (int cnt) (int q)
        = Some (Inr (int (cnt + length (filter is_address rs)), answers'))
      \<and> length answers' = length ?as \<and> list_all answer_shape answers'
      \<and> take cnt answers' = take cnt ?as
      \<and> list_all2 decodes (filter is_address rs) (take (length (filter is_address rs)) (drop cnt answers'))"
      using Cons.IH [OF rest _ Cons.prems(3) shape, of cnt] Cons.prems(2,5) False by auto
    then show ?thesis using False cnt rd by auto
  next
    case True
    obtain answers' where run: "read_answers m (length rs) ?as (int (Suc cnt)) (int q)
        = Some (Inr (int (Suc cnt + length (filter is_address rs)), answers'))"
      and len': "length answers' = length ?as" "list_all answer_shape answers'" and tk: "take (Suc cnt) answers' = take (Suc cnt) ?as"
      and l2: "list_all2 decodes (filter is_address rs)
        (take (length (filter is_address rs)) (drop (Suc cnt) answers'))"
      using Cons.IH [OF rest _ Cons.prems(3) shape, of "Suc cnt"] Cons.prems(2,5) True by auto
    have nth: "answers' ! cnt = dest'"
      using arg_cong [OF tk, of "\<lambda>xs. xs ! cnt"] cnt by simp
    have "take cnt answers' = take cnt answers"
      using arg_cong [OF tk, of "take cnt"] by (simp add: min_absorb1)
    moreover have "drop cnt answers' = dest' # drop (Suc cnt) answers'"
      using cnt len' nth Cons_nth_drop_Suc [of cnt answers'] by simp
    ultimately show ?thesis using True cnt rd run len' l2 dec by (auto simp: add.commute)
  qed
qed

lemma read_dns_answers_rrs:
  assumes "ls \<noteq> []" and "\<forall>l \<in> set ls. valid_label l"
    and "m = wire_header i fl 1 (of_nat (length rs)) ns ad @ wire_question ls t c @ rest"
    and "rrs_at m (12 + length (wire_question ls t c)) rs" and "list_all rr_ok rs"
    and "length m < 32768" and "length rs < 65536"
    and "list_all answer_shape answers" and "length (filter is_address rs) < length answers"
  shows "\<exists>answers'. read_dns_answers answers m
      = Some (Inr (int (length (filter is_address rs)), answers'))
    \<and> length answers' = length answers \<and> list_all answer_shape answers'
    \<and> list_all2 decodes (filter is_address rs) (take (length (filter is_address rs)) answers')"
proof -
  let ?h = "wire_header i fl 1 (of_nat (length rs)) ns ad" and ?q = "wire_question ls t c"
  have n: "unat (of_nat (length rs) :: u16) = length rs" using assms(7) by (simp add: unat_of_nat)
  have "get16 m 6 = Inr (of_nat (length rs))" "get16 m 4 = Inr 1"
    using get16_split [of m "net16 i @ net16 fl @ net16 1" "of_nat (length rs)"]
      get16_split [of m "net16 i @ net16 fl" 1] assms(3) by (simp_all add: wire_header_def)
  moreover have "skip_questions m 1 DNS_HEADER_SIZE = Some (Inr (int (12 + length ?q)))"
    using skip_to_answer_wire [OF assms(1,2), of ?h t c rest] assms(3) by (simp add: skip_to_answer_def)
  moreover obtain answers' where "read_answers m (length rs) answers (int 0) (int (12 + length ?q))
      = Some (Inr (int (0 + length (filter is_address rs)), answers'))"
    and "length answers' = length answers" and "list_all answer_shape answers'"
    and "list_all2 decodes (filter is_address rs)
        (take (length (filter is_address rs)) (drop 0 answers'))"
    using read_answers_rrs [OF assms(4-6,8), of 0] assms(9) by auto
  ultimately show ?thesis using n by (simp add: read_dns_answers_def)
qed

section \<open>Header bits\<close>

lemma bit_0x80: "bit (0x80 :: int) n \<longleftrightarrow> n = 7"
proof -
  have "(0x80 :: int) = 2 ^ 7" by simp
  then show ?thesis by (simp only: bit_exp_iff) auto
qed

lemma byte_masks: "(0x7f :: byte) = mask 7" "(0xf0 :: byte) = NOT (mask 4)"
  by code_simp+

lemma bit_bit_field: "bit (bit_field pos width b) n \<longleftrightarrow> n < width \<and> bit b (pos + n)"
  by (simp add: bit_field_def bit_simps)

lemma qr_set [simp]: "bit_field 7 1 (b OR 0x80) = 1" "bit_field 7 1 (b AND 0x7f) = 0"
  unfolding byte_masks by (rule bit_word_eqI; auto simp: bit_bit_field bit_0x80 bit_simps)+

lemma qr_others [simp]:
  assumes "pos + width \<le> 7"
  shows "bit_field pos width (b OR 0x80) = bit_field pos width b"
    and "bit_field pos width (b AND 0x7f) = bit_field pos width b"
proof -
  show "bit_field pos width (b OR 0x80) = bit_field pos width b"
    by (rule bit_word_eqI) (use assms in \<open>auto simp: bit_bit_field bit_or_iff bit_0x80\<close>)
  show "bit_field pos width (b AND 0x7f) = bit_field pos width b"
    unfolding byte_masks by (rule bit_word_eqI) (use assms in \<open>auto simp: bit_bit_field bit_simps\<close>)
qed

lemma rcode_small: "take_bit 4 (rcode_val c) = rcode_val c" "drop_bit 4 (rcode_val c) = 0"
  by (cases c; simp)+

lemma rcode_set [simp]:
  "bit_field 0 4 ((b AND 0xf0) OR rcode_val c) = rcode_val c"
  "4 \<le> pos \<Longrightarrow> bit_field pos width ((b AND 0xf0) OR rcode_val c) = bit_field pos width b"
proof -
  have low: "bit (rcode_val c) n \<Longrightarrow> n < 4" for n
    using rcode_small(1) [of c] by (metis bit_take_bit_iff)
  show "bit_field 0 4 ((b AND 0xf0) OR rcode_val c) = rcode_val c"
    unfolding byte_masks by (rule bit_word_eqI) (use low in \<open>auto simp: bit_bit_field bit_simps\<close>)
  show "4 \<le> pos \<Longrightarrow> bit_field pos width ((b AND 0xf0) OR rcode_val c) = bit_field pos width b"
    unfolding byte_masks
    by (rule bit_word_eqI) (use low bit_imp_le_length in \<open>fastforce simp: bit_bit_field bit_simps\<close>)
qed

lemmas header_fields = hd_rd_def hd_tc_def hd_aa_def hd_opcode_def hd_qr_def hd_rcode_def hd_cd_def
  hd_ad_def hd_z_def hd_ra_def

lemma header_split:
  assumes "12 \<le> length m"
  obtains i fl qd an ns ad rest where "m = wire_header i fl qd an ns ad @ rest"
proof -
  define h where "h = (\<lambda>k. be16 (m ! k) (m ! (k + 1)))"
  have "take 12 m = map ((!) m) [0..<12]" 
    by (rule nth_equalityI) (use assms in simp_all)
  also have "[0..<12] = [0, 1, 2, 3, 4, 5, 6, 7, 8, 9, 10, 11 :: nat]" by code_simp
  finally have "take 12 m = wire_header (h 0) (h 2) (h 4) (h 6) (h 8) (h 10)"
    by (simp add: wire_header_def net16_def h_def)
  with that [of "h 0" "h 2" "h 4" "h 6" "h 8" "h 10" "drop 12 m"] show ?thesis
    by (metis append_take_drop_id)
qed

end
