(* ===== verification/DnsProperties.thy ===== *)
theory DnsProperties
  imports DnsCodec
begin

text \<open>
  The properties of the DNS message functions of \<open>src/src/common.c\<close>.
\<close>

section \<open>Helper lemmas\<close>

lemma set_header_response_wire:
  "set_header_response (wire_header i fl qd an ns ad @ rest)
    = Inr (wire_header i (be16 (hi8 fl OR 0x80) (lo8 fl)) qd an ns ad @ rest)"
  by (simp add: set_header_response_def wire_header_def net16_def)

lemma set_header_query_wire:
  "set_header_query (wire_header i fl qd an ns ad @ rest)
    = Inr (wire_header i (be16 (hi8 fl AND 0x7f) (lo8 fl)) qd an ns ad @ rest)"
  by (simp add: set_header_query_def wire_header_def net16_def)

lemma set_rcode_wire:
  "set_rcode (wire_header i fl qd an ns ad @ rest) c
    = Inr (wire_header i (be16 (hi8 fl) ((lo8 fl AND 0xf0) OR rcode_val c)) qd an ns ad @ rest)"
  by (simp add: set_rcode_def wire_header_def net16_def numeral_3_eq_3)

lemma swap16_bytes [simp]: "lo8 (swap16 v) = hi8 v" "hi8 (swap16 v) = lo8 v"
  by (simp_all add: swap16_def)

definition blank_answer :: answer where
  "blank_answer = \<lparr>a_name = replicate 256 0, a_address = \<lparr>ip_addr = replicate 16 0, ip_type = 0\<rparr>,
     a_cname = replicate 256 0, a_type = 0, a_class = 0, a_ttl = 0, a_has_cname = False\<rparr>"

definition blank_question :: question where
  "blank_question = \<lparr>q_label = replicate 256 0, q_qtype = 0, q_qclass = 0\<rparr>"

lemma blank_shape [simp]: "answer_shape blank_answer"
  by (simp add: answer_shape_def blank_answer_def MAX_NAME_LENGTH_def)

section \<open>Properties\<close>

text \<open>C5. A query survives the wire: \<open>write_dns_query\<close> of a name whose labels have 1 to 63
  bytes writes a message of the returned length, nothing behind it, from which
  \<open>read_dns_header\<close> gets the query flags, one question and no other records, and
  \<open>read_dns_questions\<close> gets the name, the record type and the Internet class back.\<close>

theorem query_roundtrip:
  assumes "ls \<noteq> []" and "\<forall>l \<in> set ls. valid_label l" and "length (dotted ls) < 256"
    and "length (dotted ls) + 18 \<le> length buf" and "length buf < 32768"
    and "0 \<le> t" and "t \<le> 65535" and "length (q_label qu) = 256"
  shows "\<exists>buf' h qu'. write_dns_query rnd buf (dotted ls) t
      = Inr (int (length (dotted ls)) + 18, buf')
    \<and> drop (length (dotted ls) + 18) buf' = drop (length (dotted ls) + 18) buf
    \<and> read_dns_header buf' = Inr (12, h) \<and> hd_id h = swap16 (of_int rnd)
    \<and> hd_qr h = 0 \<and> hd_rd h = 1 \<and> hd_qdcount h = 1 \<and> hd_ancount h = 0
    \<and> read_dns_questions qu buf' = Some (Inr (1, qu'))
    \<and> c_str (q_label qu') = dotted ls \<and> q_qtype qu' = of_int t \<and> q_qclass qu' = 1"
proof -
  let ?hdr = "wire_header (swap16 (of_int rnd)) FLAG_QUERY 1 0 0 0"
  let ?q = "wire_question ls (of_int t) 1" and ?n = "length (dotted ls) + 18"
  let ?m = "?hdr @ ?q @ drop ?n buf"
  have lq: "length ?q = length (dotted ls) + 6"
    using length_wire_name [OF assms(1)] by (simp add: wire_question_def)
  have "\<forall>l \<in> set ls. DOT \<notin> set l" using assms(2) by (simp add: valid_label_def)
  then have "write_dns_query rnd buf (dotted ls) t = Inr (int (length (dotted ls)) + 18, blit 0 (?hdr @ ?q) buf)"
    using write_dns_query_blit [OF assms(1), of buf rnd t] assms(3,4,6,7)
    by (simp add: clip16_def IN_16b_RANGE_def)
  moreover have "blit 0 (?hdr @ ?q) buf = ?m" using lq by (simp add: blit_def add.commute)
  moreover have "read_dns_questions qu ?m = Some (Inr (1,
      qu\<lparr>q_label := blit 0 (dotted ls @ [0]) (q_label qu), q_qclass := 1, q_qtype := of_int t\<rparr>))"
    using read_dns_questions_wire [OF assms(1,2) refl, of "swap16 (of_int rnd)" FLAG_QUERY 1 0 0 0
        "of_int t" 1 "drop ?n buf" qu] assms(3-5,8) lq by simp
  moreover have "c_str (blit 0 (dotted ls @ [0]) (q_label qu)) = dotted ls"
    using dotted_no_zero [of ls] assms(2) by (simp add: blit_def valid_label_def)
  moreover have "drop ?n ?m = drop ?n buf" using lq by (simp add: add.commute)
  moreover have "hi8 FLAG_QUERY = 1" by code_simp
  ultimately show ?thesis
    by (simp add: read_dns_header_wire header_fields) (simp add: bit_field_def)
qed

theorem query_roundtrip_witness:
  "\<exists>buf' h qu'. write_dns_query 7 (replicate 100 0) [119, 46, 99, 110] 28 = Inr (22, buf')
    \<and> read_dns_header buf' = Inr (12, h) \<and> hd_qdcount h = 1
    \<and> read_dns_questions blank_question buf' = Some (Inr (1, qu'))
    \<and> c_str (q_label qu') = [119, 46, 99, 110] \<and> q_qtype qu' = 28"
  using query_roundtrip [of "[[119], [99, 110]]" "replicate 100 0" 28 blank_question 7]
  by (auto simp: DOT_def valid_label_def blank_question_def)

text \<open>Header round trip: what \<open>write_dns_header\<close> writes \<open>read_dns_header\<close> reads back, the
  counts as given, the flags as given, but the id with its two bytes exchanged, since only
  the reader converts it from network order.\<close>

theorem header_roundtrip:
  assumes "12 \<le> length buf" and "IN_16b_RANGE i" and "IN_16b_RANGE qd" and "IN_16b_RANGE an"
    and "IN_16b_RANGE ns" and "IN_16b_RANGE ad"
  shows "\<exists>buf'. write_dns_header rnd buf 0 i fl qd an ns ad = Inr (12, buf')
    \<and> length buf' = length buf \<and> drop 12 buf' = drop 12 buf
    \<and> read_dns_header buf' = Inr (12, \<lparr>hd_id = swap16 (of_int i), hd_flags = swap16 fl,
        hd_qdcount = of_int qd, hd_ancount = of_int an, hd_nscount = of_int ns,
        hd_adcount = of_int ad\<rparr>)"
  using write_dns_header_blit [OF assms(1), of rnd i fl qd an ns ad] assms
  by (simp add: blit_def read_dns_header_wire clip16_def)

theorem header_roundtrip_witness:
  "\<exists>buf'. write_dns_header 0 (replicate 12 9) 0 258 0x0100 1 2 3 4 = Inr (12, buf')
    \<and> read_dns_header buf' = Inr (12, \<lparr>hd_id = 513, hd_flags = 1, hd_qdcount = 1, hd_ancount = 2,
        hd_nscount = 3, hd_adcount = 4\<rparr>)"
proof -
  have "swap16 258 = 513" "swap16 0x0100 = 1" by code_simp+
  then show ?thesis
    using header_roundtrip [of "replicate 12 9" 258 1 2 3 4 0 "0x0100"]
    by (auto simp: IN_16b_RANGE_def)
qed

text \<open>C17. \<open>write_dns_response_by_query\<close> turns a query into its response: the id, the question
  count and the question stay, the flags become a plain response, the answer count is set,
  the records follow the question in wire form, every byte behind them stays, and the
  return value is the length of the message.\<close>

theorem response_bytes:
  assumes "ls \<noteq> []" and "\<forall>l \<in> set ls. valid_label l"
    and "list_all answer_ok as" and "length as < 65536"
    and "length (concat (map wire_answer as)) \<le> length rest"
  shows "write_dns_response_by_query
      (wire_header i fl qd an ns ad @ wire_question ls t c @ rest) as (of_nat (length as))
    = Some (Inr (int (12 + length (wire_question ls t c) + length (concat (map wire_answer as))),
        wire_header i FLAG_RESPONSE_NORMAL qd (of_nat (length as)) ns ad
          @ wire_question ls t c @ concat (map wire_answer as)
          @ drop (length (concat (map wire_answer as))) rest))"
  by (rule write_dns_response_wire [OF assms])

theorem response_bytes_witness:
  "write_dns_response_by_query (wire_header 7 0x0100 1 0 0 0 @ wire_question [[97]] 1 1 @ replicate 20 9)
      [blank_answer\<lparr>a_name := 98 # replicate 255 0, a_address := \<lparr>ip_addr = 10 # replicate 15 1, ip_type = 4\<rparr>,
        a_type := 1, a_class := 1, a_ttl := 300\<rparr>] 1
    = Some (Inr (36, wire_header 7 0x8000 1 1 0 0 @ wire_question [[97]] 1 1
        @ [1, 98, 0, 0, 1, 0, 1, 0, 0, 1, 44, 0, 4, 10, 1, 1, 1] @ [9, 9, 9]))"
proof -
  let ?a = "blank_answer\<lparr>a_name := 98 # replicate 255 0,
      a_address := \<lparr>ip_addr = 10 # replicate 15 1, ip_type = 4\<rparr>,
        a_type := 1, a_class := 1, a_ttl := 300\<rparr>"
  have w: "wire_answer ?a = [1, 98, 0, 0, 1, 0, 1, 0, 0, 1, 44, 0, 4, 10, 1, 1, 1]" by code_simp
  have r: "replicate 20 9 = [9, 9, 9, 9, 9, 9, 9, 9, 9, 9, 9, 9, 9, 9, 9, 9, 9, 9, 9, 9 :: byte]"
    by code_simp
  have ok: "answer_ok ?a" by (simp add: answer_ok_def MAX_NAME_LENGTH_def)
  show ?thesis
    using response_bytes [of "[[97]]" "[?a]" "replicate 20 9" 7 "0x0100" 1 0 0 0 1 1] ok w
    unfolding r
    by (simp add: valid_label_def DOT_def FLAG_RESPONSE_NORMAL_def wire_question_def)
qed

text \<open>C9. \<open>read_dns_answers\<close> decodes a response whose answer names are compressed: it returns
  the number of address records, and the answers it filled are those records, in order,
  with their names, types, classes, times to live and addresses; records of other types are
  skipped. The array needs room for one answer more than there are address records.\<close>

theorem answers_decoded:
  assumes "ls \<noteq> []" and "\<forall>l \<in> set ls. valid_label l"
    and "m = wire_header i fl 1 (of_nat (length rs)) ns ad @ wire_question ls t c @ rest"
    and "rrs_at m (12 + length (wire_question ls t c)) rs" and "list_all rr_ok rs"
    and "length m < 32768" and "length rs < 65536"
    and "list_all answer_shape answers" and "length (filter is_address rs) < length answers"
  shows "\<exists>answers'. read_dns_answers answers m
      = Some (Inr (int (length (filter is_address rs)), answers'))
    \<and> list_all2 decodes (filter is_address rs) (take (length (filter is_address rs)) answers')"
  using read_dns_answers_rrs [OF assms] by blast

theorem answers_decoded_witness:
  "\<exists>answers'. read_dns_answers [blank_answer, blank_answer]
      (wire_header 7 0x8180 1 1 0 0 @ wire_question [[97]] 1 1
        @ [192, 12] @ wire_rr 1 1 300 [10, 0, 0, 1]) = Some (Inr (1, answers'))
    \<and> list_all2 decodes [\<lparr>rr_labels = [[97]], rr_type = 1, rr_class = 1, rr_ttl = 300,
        rr_data = [10, 0, 0, 1]\<rparr>] (take 1 answers')"
proof -
  let ?r = "\<lparr>rr_labels = [[97]], rr_type = 1, rr_class = 1, rr_ttl = 300, rr_data = [10, 0, 0, 1]\<rparr>"
  let ?h = "wire_header 7 0x8180 1 1 0 0" and ?q = "wire_question [[97]] 1 1"
  let ?m = "?h @ ?q @ [192, 12] @ wire_rr 1 1 300 [10, 0, 0, 1]"
  have q: "name_at ?m 12 [[97]] False [[97]] 14"
    using wire_name_at [of "[[97]]" ?m ?h "net16 1 @ net16 1 @ [192, 12] @ wire_rr 1 1 300 [10, 0, 0, 1]"]
    by (simp add: wire_question_def)
  have lq: "length ?q = 7" by (simp add: wire_question_def)
  have at: "?m ! 19 = 192" "?m ! Suc 19 = 12" using lq by (simp_all add: nth_append)
  have "be16 192 12 = 0xc00c" by code_simp
  then have "name_at ?m 19 [[97]] True [[97]] (19 + 2)"
    using q at lq by (intro name_at.pointer [where q = 12 and jumped = False])
      (simp_all add: is_compress_iff get_compress_pos_def COMPRESS_MASK_def)
  then have "rr_at ?m 19 ?r 35"
    unfolding rr_at_def using lq
    by (intro exI [of _ "[[97]]"] exI [of _ "?h @ ?q @ [192, 12]"] exI [of _ "[]"]) simp
  then have "rrs_at ?m (12 + length ?q) [?r]" using lq by auto
  moreover have "rr_ok ?r" "is_address ?r"
    by (simp_all add: rr_ok_def is_address_def MAX_NAME_LENGTH_def)
  ultimately show ?thesis
    using answers_decoded [of "[[97]]" ?m 7 "0x8180" "[?r]" 0 0 1 1 "[192, 12] @ wire_rr 1 1 300 [10, 0, 0, 1]"
        "[blank_answer, blank_answer]"] lq
    by (simp add: valid_label_def DOT_def wire_rr_def)
qed

text \<open>An answer whose name is not compressed is never accepted: \<open>read_dns_answer\<close> takes the
  fields from one byte too early, sees the type 0 in place of the record's, and reports the
  record as not usable.\<close>

theorem uncompressed_answer_rejected:
  assumes "ls \<noteq> []" and "\<forall>l \<in> set ls. valid_label l"
    and "m = pre @ wire_name ls @ wire_rr t c ttl rdata @ post" and "unat t < 256"
    and "length m < 32768" and "length (dotted ls) < 256" and "length (a_name dest) = 256"
  shows "\<exists>ret dest'. read_dns_answer dest m (int (length pre)) = Some (Inr (ret, dest', False))
    \<and> a_type dest' = 0"
proof (rule read_dns_answer_uncompressed)
  show "name_at m (length pre) ls False ls (length (pre @ wire_labels ls))"
    using wire_name_at [of ls m pre] assms(2,3)
    by (simp add: list_all_iff valid_label_def)
  show "m = (pre @ wire_labels ls) @ 0 # wire_rr t c ttl rdata @ post"
    using assms(3) by (simp add: wire_name_def)
qed (use assms in simp_all)

theorem uncompressed_answer_rejected_witness:
  "\<exists>ret dest'. read_dns_answer blank_answer ([9, 9] @ wire_name [[97]] @ wire_rr 1 1 300 [10, 0, 0, 1] @ [])
      2 = Some (Inr (ret, dest', False)) \<and> a_type dest' = 0"
  using uncompressed_answer_rejected [of "[[97]]" _ "[9, 9]" 1 1 300 "[10, 0, 0, 1]" "[]" blank_answer]
  by (simp add: valid_label_def DOT_def wire_rr_def blank_answer_def)

text \<open>The header setters change their field only: after \<open>set_header_response\<close> or
  \<open>set_header_query\<close> the \<open>qr\<close> bit is 1 or 0, after the setters of the response code the code
  is the given one; every other field of the header and the rest of the message stay.\<close>

theorem header_setters:
  assumes "12 \<le> length m"
  shows "\<exists>h m1 h1 m2 h2 m3 h3. read_dns_header m = Inr (12, h)
    \<and> set_header_response m = Inr m1 \<and> read_dns_header m1 = Inr (12, h1) \<and> hd_qr h1 = 1
    \<and> set_header_query m = Inr m2 \<and> read_dns_header m2 = Inr (12, h2) \<and> hd_qr h2 = 0
    \<and> set_rcode m c = Inr m3 \<and> read_dns_header m3 = Inr (12, h3) \<and> hd_rcode h3 = rcode_val c
    \<and> hd_qr h3 = hd_qr h
    \<and> list_all (\<lambda>(m', h'). drop 12 m' = drop 12 m \<and> hd_id h' = hd_id h
        \<and> hd_qdcount h' = hd_qdcount h \<and> hd_ancount h' = hd_ancount h
        \<and> hd_nscount h' = hd_nscount h \<and> hd_adcount h' = hd_adcount h
        \<and> hd_rd h' = hd_rd h \<and> hd_tc h' = hd_tc h \<and> hd_aa h' = hd_aa h
        \<and> hd_opcode h' = hd_opcode h \<and> hd_cd h' = hd_cd h \<and> hd_ad h' = hd_ad h
        \<and> hd_z h' = hd_z h \<and> hd_ra h' = hd_ra h) [(m1, h1), (m2, h2), (m3, h3)]"
proof -
  obtain i fl qd an ns ad rest where "m = wire_header i fl qd an ns ad @ rest"
    using header_split [OF assms] by blast
  then show ?thesis
    by (simp add: set_header_response_wire set_header_query_wire set_rcode_wire read_dns_header_wire
        header_fields qr_set [unfolded One_nat_def])
qed

theorem header_setters_witness:
  "\<exists>h m1 h1. read_dns_header (replicate 12 0x85) = Inr (12, h)
    \<and> set_header_query (replicate 12 0x85) = Inr m1 \<and> read_dns_header m1 = Inr (12, h1) \<and> hd_qr h1 = 0
    \<and> hd_id h1 = hd_id h \<and> hd_aa h1 = hd_aa h"
  using header_setters [of "replicate 12 0x85" RCODE_REFUSED] by auto

text \<open>\<open>RRtype_to_str\<close> gives each record type the program knows its mnemonic, and every
  other number the text for unknown types.\<close>

theorem RRtype_to_str_names:
  "RRtype_to_str (rrtype_val RRTYPE_A) = map of_char ''A''
    \<and> RRtype_to_str (rrtype_val RRTYPE_NS) = map of_char ''NS''
    \<and> RRtype_to_str (rrtype_val RRTYPE_CNAME) = map of_char ''CNAME''
    \<and> RRtype_to_str (rrtype_val RRTYPE_SOA) = map of_char ''SOA''
    \<and> RRtype_to_str (rrtype_val RRTYPE_PTR) = map of_char ''PTR''
    \<and> RRtype_to_str (rrtype_val RRTYPE_MX) = map of_char ''MX''
    \<and> RRtype_to_str (rrtype_val RRTYPE_AAAA) = map of_char ''AAAA''
    \<and> RRtype_to_str 255 = map of_char ''UNKNOW''"
  by code_simp

end
