(* ===== verification/StaticCache.thy ===== *)
theory StaticCache
  imports LruCache
begin

text \<open>
  The static cache of \<open>src/src/cache.c\<close>, which holds the records of the local file: an array
  of entries filled from the front, each the first node of a chain of addresses, and a hash
  table from labels to entries.

  A pointer to an entry is its index in the array. The nodes behind the first one are
  allocated one by one; the chain is kept as the list of its addresses. An element of the
  array that was never written is \<open>None\<close>.
\<close>

section \<open>Model\<close>

record static_record_data =
  sd_label :: cstring
  sd_ips :: "IP list"  \<comment> \<open>the address of the node and of those behind it\<close>

record staticCache =
  sc_data :: "static_record_data option list"
  sc_is_init :: bool
  sc_size :: int
  sc_table :: "(cstring, int) hashtable"
  sc_top :: int

text \<open>Reading an element of the array; the bytes of an unwritten one are indeterminate.\<close>

definition static_slot :: "static_record_data option list \<Rightarrow> int \<Rightarrow> static_record_data result" where
  "static_slot slots i = bindE (arr_get slots i) (\<lambda>s.
     case s of None \<Rightarrow> Inl OutOfBounds | Some d \<Rightarrow> Inr d)"

definition compare_static_record_data_with_label ::
  "static_record_data option list \<Rightarrow> (cstring, int) compare" where
  "compare_static_record_data_with_label slots p label =
     (case p of None \<Rightarrow> Inl NullDeref
      | Some i \<Rightarrow> bindE (static_slot slots i) (\<lambda>d. Inr (sd_label d = label)))"

text \<open>The static object at program start, all bytes zero.\<close>

definition zero_staticCache :: staticCache where
  "zero_staticCache = \<lparr>sc_data = [], sc_is_init = False, sc_size = 0, sc_table = blank_hashtable,
     sc_top = 0\<rparr>"

definition init_staticCache :: "staticCache \<Rightarrow> int \<Rightarrow> staticCache result" where
  "init_staticCache Cache sz =
     (if \<not> sc_is_init Cache then
        bindE (init_hashtable (sc_table Cache) sz (3 / 4) hash_label) (\<lambda>(_, h).
          Inr \<lparr>sc_data = replicate (nat (sz + 2)) None, sc_is_init = True, sc_size = sz,
               sc_table = h, sc_top = 0\<rparr>)
      else Inr Cache)"

definition get_static_cache :: "staticCache \<Rightarrow> cstring \<Rightarrow> int option result" where
  "get_static_cache Cache label =
     (if sc_is_init Cache
      then find_record (compare_static_record_data_with_label (sc_data Cache)) (sc_table Cache) label
      else Inr None)"

text \<open>The addresses a client meets when it follows the pointer it got.\<close>

definition static_chain :: "staticCache \<Rightarrow> int option \<Rightarrow> IP list result" where
  "static_chain Cache p = (case p of None \<Rightarrow> Inr []
     | Some i \<Rightarrow> bindE (static_slot (sc_data Cache) i) (\<lambda>d. Inr (sd_ips d)))"

definition set_static_cache :: "staticCache \<Rightarrow> cstring \<Rightarrow> IP \<Rightarrow> (bool \<times> staticCache) result" where
  "set_static_cache Cache label ip =
     (if sc_is_init Cache then
        bindE (get_static_cache Cache label) (\<lambda>data.
          case data of
            Some i \<Rightarrow>
              bindE (static_slot (sc_data Cache) i) (\<lambda>d.
              bindE (arr_set (sc_data Cache) i (Some (d\<lparr>sd_ips := sd_ips d @ [ip]\<rparr>))) (\<lambda>slots.
                Inr (False, Cache\<lparr>sc_data := slots\<rparr>)))
          | None \<Rightarrow>
              let top = sc_top Cache in
              if top = sc_size Cache then Inr (False, Cache)
              else
                bindE (arr_set (sc_data Cache) top (Some \<lparr>sd_label = label, sd_ips = [ip]\<rparr>)) (\<lambda>slots.
                bindE (set_hashnode (compare_static_record_data_with_label slots) (sc_table Cache) label
                    (Some top)) (\<lambda>(_, h).
                  Inr (True, Cache\<lparr>sc_data := slots, sc_table := h, sc_top := top + 1\<rparr>))))
      else Inr (False, Cache))"

text \<open>
  \<open>free_staticCache\<close>: for each entry the label is freed, then the nodes of its chain, of which
  the first is the array element itself. \<open>live\<close> says whether the array has not been freed yet.
\<close>

fun free_static_slots :: "static_record_data option list \<Rightarrow> nat \<Rightarrow> nat \<Rightarrow> bool \<Rightarrow> bool result" where
  "free_static_slots slots i 0 live = Inr live"
| "free_static_slots slots i (Suc n) live =
     (if \<not> live then Inl UseAfterFree
      else bindE (static_slot slots (int i)) (\<lambda>d.
        if i = 0 then free_static_slots slots (Suc i) n False
        else Inl InvalidFree))"

definition free_staticCache :: "staticCache \<Rightarrow> staticCache result" where
  "free_staticCache Cache =
     (if sc_is_init Cache then
        bindE (free_static_slots (sc_data Cache) 0 (nat (sc_top Cache)) True) (\<lambda>live.
          if live
          then Inr (Cache\<lparr>sc_data := [], sc_table := free_hashtable (sc_table Cache), sc_is_init := False\<rparr>)
          else Inl InvalidFree)
      else Inr Cache)"

text \<open>The caches of the relay: the blacklist, and for each address type the records learnt from
  responses and those of the local file.\<close>

record cacheCompound =
  cc_temp :: cache
  cc_local :: staticCache

record cacheset =
  cs_blacklist :: staticCache
  cs_A :: cacheCompound
  cs_AAAA :: cacheCompound

text \<open>The static object \<open>cacheset\<close> at program start.\<close>

definition zero_cache :: cache where
  "zero_cache = \<lparr>c_records = [], c_stack = [], c_stack_top = 0, c_length = 0, c_max_length = 0,
     c_used_size = 0, c_max_size = 0, c_first = 0, c_last = 0, c_is_init = False,
     c_label_hash = blank_hashtable, c_locked = False\<rparr>"

definition zero_cacheset :: cacheset where
  "zero_cacheset = \<lparr>cs_blacklist = zero_staticCache,
     cs_A = \<lparr>cc_temp = zero_cache, cc_local = zero_staticCache\<rparr>,
     cs_AAAA = \<lparr>cc_temp = zero_cache, cc_local = zero_staticCache\<rparr>\<rparr>"

section \<open>The contract of a multimap\<close>

text \<open>Inserting a list of pairs one after the other.\<close>

fun put_all :: "('s \<Rightarrow> 'k \<Rightarrow> 'v \<Rightarrow> (bool \<times> 's) result) \<Rightarrow> 's \<Rightarrow> ('k \<times> 'v) list \<Rightarrow> 's result" where
  "put_all put s [] = Inr s"
| "put_all put s ((k, v) # kvs) = bindE (put s k v) (\<lambda>(_, s). put_all put s kvs)"

text \<open>The values of a key in a list of pairs, in order.\<close>

definition values_of :: "('k \<times> 'v) list \<Rightarrow> 'k \<Rightarrow> 'v list" where
  "values_of kvs k = map snd (filter (\<lambda>(l, _). l = k) kvs)"

lemma values_of_simps [simp]:
  "values_of [] k = []"
  "values_of ((l, v) # kvs) k = (if l = k then v # values_of kvs k else values_of kvs k)"
  by (simp_all add: values_of_def)

locale multimap =
  fixes ok :: "'s \<Rightarrow> bool"
    and capacity :: "'s \<Rightarrow> nat"
    and contents :: "'s \<Rightarrow> 'k \<Rightarrow> 'v list"
    and put :: "'s \<Rightarrow> 'k \<Rightarrow> 'v \<Rightarrow> (bool \<times> 's) result"
    and look :: "'s \<Rightarrow> 'k \<Rightarrow> 'v list result"
  assumes finite_keys: "ok s \<Longrightarrow> finite {k. contents s k \<noteq> []}"
    and put_ok: "ok s \<Longrightarrow> contents s k \<noteq> [] \<or> card {k. contents s k \<noteq> []} < capacity s \<Longrightarrow>
      \<exists>s'. put s k v = Inr (contents s k = [], s') \<and> ok s' \<and> capacity s' = capacity s
        \<and> contents s' = (contents s)(k := contents s k @ [v])"
    and put_full: "ok s \<Longrightarrow> contents s k = [] \<Longrightarrow> card {k. contents s k \<noteq> []} = capacity s \<Longrightarrow>
      put s k v = Inr (False, s)"
    and look_ok: "ok s \<Longrightarrow> look s k = Inr (contents s k)"
begin

text \<open>After a list of pairs with no more keys than there is room for, every key yields its
  values in the order they were given.\<close>

lemma put_all_ok:
  assumes "ok s" and "card ({k. contents s k \<noteq> []} \<union> fst ` set kvs) \<le> capacity s"
  shows "\<exists>s'. put_all put s kvs = Inr s' \<and> ok s' \<and> capacity s' = capacity s
    \<and> contents s' = (\<lambda>k. contents s k @ values_of kvs k)"
  using assms
proof (induction kvs arbitrary: s)
  case (Cons kv kvs)
  obtain k v where kv: "kv = (k, v)" by (cases kv)
  let ?dom = "\<lambda>s. {k. contents s k \<noteq> []}"
  have "contents s k \<noteq> [] \<or> card (?dom s) < capacity s"
  proof (cases "contents s k = []")
    case True
    then have "card (?dom s) < card (insert k (?dom s))"
      using finite_keys [OF Cons.prems(1)] by (simp add: card_insert_if)
    also have "\<dots> \<le> card (?dom s \<union> fst ` set (kv # kvs))"
      using finite_keys [OF Cons.prems(1)] by (intro card_mono) (auto simp: kv)
    finally show ?thesis using Cons.prems(2) by simp
  qed simp
  then obtain s1 where s1: "put s k v = Inr (contents s k = [], s1)" "ok s1" "capacity s1 = capacity s"
    "contents s1 = (contents s)(k := contents s k @ [v])"
    using put_ok [OF Cons.prems(1)] by blast
  have "?dom s1 \<union> fst ` set kvs = ?dom s \<union> fst ` set (kv # kvs)"
    using s1(4) by (auto simp: kv)
  then obtain s' where "put_all put s1 kvs = Inr s'" "ok s'" "capacity s' = capacity s1"
    "contents s' = (\<lambda>j. contents s1 j @ values_of kvs j)"
    using Cons.IH [OF s1(2)] Cons.prems(2) s1(3) by auto
  with s1 show ?case by (auto simp: kv)
qed simp

lemma load_then_look:
  assumes "ok s" and "\<And>k. contents s k = []" and "card (fst ` set kvs) \<le> capacity s"
  shows "\<exists>s'. put_all put s kvs = Inr s' \<and> look s' k = Inr (values_of kvs k)"
  using put_all_ok [of s kvs] look_ok assms by auto

end

section \<open>The static cache keeps the contract\<close>

text \<open>The entries in use, and the label of an entry.\<close>

definition static_entries :: "staticCache \<Rightarrow> (cstring \<times> IP list) list" where
  "static_entries Cache = map (\<lambda>s. case s of Some d \<Rightarrow> (sd_label d, sd_ips d) | None \<Rightarrow> ([], []))
     (take (nat (sc_top Cache)) (sc_data Cache))"

definition static_key :: "staticCache \<Rightarrow> int \<Rightarrow> cstring" where
  "static_key Cache i = fst (static_entries Cache ! nat i)"

definition static_ok :: "staticCache \<Rightarrow> bool" where
  "static_ok Cache \<longleftrightarrow> sc_is_init Cache \<and> 0 \<le> sc_top Cache \<and> sc_top Cache \<le> sc_size Cache
     \<and> int (length (sc_data Cache)) = sc_size Cache + 2
     \<and> (\<forall>i < nat (sc_top Cache). \<exists>d. sc_data Cache ! i = Some d \<and> sd_ips d \<noteq> [])
     \<and> ht_invar (static_key Cache) {0..<sc_top Cache} (sc_table Cache)"

text \<open>A static cache that was never initialised is empty.\<close>

definition local_ok :: "staticCache \<Rightarrow> bool" where
  "local_ok C \<longleftrightarrow> \<not> sc_is_init C \<or> static_ok C"

definition static_contents :: "staticCache \<Rightarrow> cstring \<Rightarrow> IP list" where
  "static_contents Cache label = (case map_of (static_entries Cache) label of None \<Rightarrow> [] | Some ips \<Rightarrow> ips)"

definition static_look :: "staticCache \<Rightarrow> cstring \<Rightarrow> IP list result" where
  "static_look Cache label = bindE (get_static_cache Cache label) (static_chain Cache)"


lemma static_okD:
  assumes "static_ok Cache"
  shows "sc_is_init Cache" and "length (static_entries Cache) = nat (sc_top Cache)"
    and "0 \<le> sc_top Cache" and "sc_top Cache \<le> sc_size Cache"
    and "nat (sc_top Cache) < length (sc_data Cache)"
  using assms by (auto simp: static_ok_def static_entries_def)

lemma static_slot_entry:
  assumes "static_ok Cache" and "i < nat (sc_top Cache)"
  shows "\<exists>d. sc_data Cache ! i = Some d \<and> static_slot (sc_data Cache) (int i) = Inr d
    \<and> static_entries Cache ! i = (sd_label d, sd_ips d) \<and> sd_ips d \<noteq> []"
proof -
  obtain d where d: "sc_data Cache ! i = Some d" "sd_ips d \<noteq> []"
    using assms by (auto simp: static_ok_def)
  then show ?thesis
    using assms(2) static_okD(5) [OF assms(1)] by (simp add: static_slot_def static_entries_def)
qed

lemma static_index:
  assumes "i \<in> {0..<sc_top Cache}"
  obtains n where "i = int n" and "n < nat (sc_top Cache)"
  using that [of "nat i"] assms by (simp add: nat_less_iff)

lemma static_agrees_upto:
  assumes "static_ok Cache" and "\<And>i. i < nat (sc_top Cache) \<Longrightarrow> slots ! i = sc_data Cache ! i"
    and "length slots = length (sc_data Cache)"
  shows "agrees (compare_static_record_data_with_label slots) (static_key Cache) {0..<sc_top Cache}"
  unfolding agrees_def
proof (intro ballI allI)
  fix i k assume "i \<in> {0..<sc_top Cache}"
  then obtain n where n: "i = int n" "n < nat (sc_top Cache)" by (rule static_index)
  obtain d where "sc_data Cache ! n = Some d" "static_entries Cache ! n = (sd_label d, sd_ips d)"
    using static_slot_entry [OF assms(1) n(2)] by blast
  then show "compare_static_record_data_with_label slots (Some i) k = Inr (static_key Cache i = k)"
    using n assms(2) [of n] assms(3) static_okD(5) [OF assms(1)]
    by (simp add: compare_static_record_data_with_label_def static_slot_def static_key_def)
qed

lemmas static_agrees = static_agrees_upto [OF _ refl refl]

lemma static_invar: "static_ok Cache \<Longrightarrow> ht_invar (static_key Cache) {0..<sc_top Cache} (sc_table Cache)"
  by (simp add: static_ok_def)

lemma static_distinct: "static_ok Cache \<Longrightarrow> distinct (map fst (static_entries Cache))"
proof -
  assume ok: "static_ok Cache"
  have inj: "inj_on (static_key Cache) {0..<sc_top Cache}" by (rule ht.invar_inj [OF static_invar [OF ok]])
  show ?thesis
    unfolding distinct_conv_nth
  proof (intro allI impI)
    fix i j assume "i < length (map fst (static_entries Cache))" "j < length (map fst (static_entries Cache))" "i \<noteq> j"
    then show "map fst (static_entries Cache) ! i \<noteq> map fst (static_entries Cache) ! j"
      using inj_onD [OF inj, of "int i" "int j"] static_okD(2) [OF ok] by (auto simp: static_key_def zless_nat_eq_int_zless)
  qed
qed

lemma static_key_image:
  assumes "static_ok Cache"
  shows "static_key Cache ` {0..<sc_top Cache} = fst ` set (static_entries Cache)"
proof (intro set_eqI iffI)
  fix k assume "k \<in> static_key Cache ` {0..<sc_top Cache}"
  then obtain n where "k = fst (static_entries Cache ! n)" "n < length (static_entries Cache)"
    using static_okD(2) [OF assms] by (auto simp: static_key_def nat_less_iff)
  then show "k \<in> fst ` set (static_entries Cache)" using nth_mem by blast
next
  fix k assume "k \<in> fst ` set (static_entries Cache)"
  then obtain e where "e \<in> set (static_entries Cache)" "k = fst e" by blast
  then obtain n where "n < length (static_entries Cache)" "k = fst (static_entries Cache ! n)"
    unfolding in_set_conv_nth by blast
  then have "k = static_key Cache (int n)" "n < nat (sc_top Cache)"
    using static_okD(2) [OF assms] by (simp_all add: static_key_def)
  then show "k \<in> static_key Cache ` {0..<sc_top Cache}" by (simp add: zless_nat_eq_int_zless)
qed

lemma get_static_hit:
  assumes "static_ok Cache" and "i < nat (sc_top Cache)" and "static_entries Cache ! i = (label, ips)"
  shows "get_static_cache Cache label = Inr (Some (int i))" and "static_contents Cache label = ips"
    and "ips \<noteq> []"
proof -
  have "find_record (compare_static_record_data_with_label (sc_data Cache)) (sc_table Cache)
      (static_key Cache (int i)) = Inr (Some (int i))"
    using ht.lookup_hit [OF static_invar [OF assms(1)] static_agrees [OF assms(1)], of "int i"] assms(2)
    by (simp add: zless_nat_eq_int_zless)
  then show "get_static_cache Cache label = Inr (Some (int i))"
    using assms by (simp add: get_static_cache_def static_okD(1) static_key_def)
  show "static_contents Cache label = ips"
    using assms(2,3) static_okD(2) [OF assms(1)] nth_mem [of i "static_entries Cache"]
      map_of_is_SomeI [OF static_distinct [OF assms(1)], of label ips]
    by (simp add: static_contents_def)
  show "ips \<noteq> []" using static_slot_entry [OF assms(1,2)] assms(3) by auto
qed

lemma get_static_miss:
  assumes "static_ok Cache" and "label \<notin> fst ` set (static_entries Cache)"
  shows "get_static_cache Cache label = Inr None" and "static_contents Cache label = []"
  using assms ht.lookup_miss [OF static_invar [OF assms(1)] static_agrees [OF assms(1)], of label]
  by (simp_all add: get_static_cache_def static_okD(1) static_key_image static_contents_def map_of_eq_None_iff [THEN iffD2])

lemma static_label_cases:
  assumes "static_ok Cache"
  obtains (hit) i ips where "i < nat (sc_top Cache)" "static_entries Cache ! i = (label, ips)"
    | (miss) "label \<notin> fst ` set (static_entries Cache)"
  using that static_okD(2) [OF assms] by (fastforce simp: in_set_conv_nth)

lemma static_look_contents: "static_ok Cache \<Longrightarrow> static_look Cache label = Inr (static_contents Cache label)"
proof -
  assume ok: "static_ok Cache"
  show ?thesis
  proof (cases rule: static_label_cases [OF ok, of label])
    case (1 i ips)
    then show ?thesis
      using get_static_hit [OF ok 1] static_slot_entry [OF ok 1(1)] by (auto simp: static_look_def static_chain_def)
  next
    case 2
    then show ?thesis using get_static_miss [OF ok 2] by (simp add: static_look_def static_chain_def)
  qed
qed

lemma contents_domain:
  assumes "static_ok Cache"
  shows "{k. static_contents Cache k \<noteq> []} = fst ` set (static_entries Cache)"
proof (intro set_eqI)
  fix label
  show "label \<in> {k. static_contents Cache k \<noteq> []} \<longleftrightarrow> label \<in> fst ` set (static_entries Cache)"
  proof (cases rule: static_label_cases [OF assms, of label])
    case (1 i ips)
    then have "(label, ips) \<in> set (static_entries Cache)"
      using static_okD(2) [OF assms] by (metis nth_mem)
    then show ?thesis using get_static_hit(2,3) [OF assms 1] by force
  qed (use get_static_miss(2) [OF assms] in auto)
qed

lemma card_domain: "static_ok Cache \<Longrightarrow> card {k. static_contents Cache k \<noteq> []} = nat (sc_top Cache)"
  using distinct_card [OF static_distinct] by (simp add: contents_domain static_okD(2))


lemma atLeastLessThan_insert_upper: "{0..<int n + 1} = insert (int n) {0..<int n}"
  by auto

lemma map_of_list_update:
  "distinct (map fst es) \<Longrightarrow> i < length es \<Longrightarrow> es ! i = (k, v) \<Longrightarrow>
    map_of (es[i := (k, w)]) = (map_of es)(k \<mapsto> w)"
proof (induction es arbitrary: i)
  case (Cons e es)
  show ?case
  proof (cases i)
    case 0
    with Cons.prems show ?thesis by auto
  next
    case (Suc j)
    then have "k \<in> fst ` set es" using Cons.prems nth_mem [of j es] by force
    then have "fst e \<noteq> k" using Cons.prems(1) by auto
    then show ?thesis using Cons.IH [of j] Cons.prems Suc by auto
  qed
qed simp

lemma set_static_duplicate:
  assumes ok: "static_ok Cache" and i: "i < nat (sc_top Cache)" and e: "static_entries Cache ! i = (label, ips)"
  shows "\<exists>Cache'. set_static_cache Cache label ip = Inr (False, Cache') \<and> static_ok Cache'
    \<and> sc_size Cache' = sc_size Cache
    \<and> static_entries Cache' = (static_entries Cache)[i := (label, ips @ [ip])]"
proof -
  obtain d where d: "sc_data Cache ! i = Some d" "static_slot (sc_data Cache) (int i) = Inr d"
    "sd_label d = label" "sd_ips d = ips" "ips \<noteq> []"
    using static_slot_entry [OF ok i] e by auto
  define Cache' where "Cache' = Cache\<lparr>sc_data := (sc_data Cache)[i := Some (d\<lparr>sd_ips := ips @ [ip]\<rparr>)]\<rparr>"
  have len: "i < length (sc_data Cache)" using i static_okD(5) [OF ok] by simp
  have run: "set_static_cache Cache label ip = Inr (False, Cache')"
    using get_static_hit(1) [OF ok i e] d len
    by (simp add: set_static_cache_def static_okD(1) [OF ok] arr_set_def Cache'_def)
  have es: "static_entries Cache' = (static_entries Cache)[i := (label, ips @ [ip])]"
    using d(3) by (simp add: static_entries_def Cache'_def take_update_swap map_update)
  have key: "static_key Cache' j = static_key Cache j" for j
    using e i static_okD(2) [OF ok] by (cases "nat j = i") (simp_all add: static_key_def es)
  have "ht_invar (static_key Cache') {0..<sc_top Cache} (sc_table Cache)"
    using ht.invar_key [OF static_invar [OF ok]] key by blast
  moreover have "\<exists>d. sc_data Cache' ! j = Some d \<and> sd_ips d \<noteq> []" if "j < nat (sc_top Cache)" for j
    using that ok len by (cases "j = i") (auto simp: Cache'_def static_ok_def)
  ultimately have "static_ok Cache'"
    using ok by (auto simp: static_ok_def Cache'_def)
  with run es show ?thesis by (auto simp: Cache'_def)
qed

lemma set_static_new:
  assumes ok: "static_ok Cache" and new: "label \<notin> fst ` set (static_entries Cache)"
    and room: "sc_top Cache < sc_size Cache"
  shows "\<exists>Cache'. set_static_cache Cache label ip = Inr (True, Cache') \<and> static_ok Cache'
    \<and> sc_size Cache' = sc_size Cache \<and> static_entries Cache' = static_entries Cache @ [(label, [ip])]"
proof -
  define n where "n = nat (sc_top Cache)"
  have n: "sc_top Cache = int n" "n < length (sc_data Cache)"
    using static_okD(3,5) [OF ok] by (auto simp: n_def)
  define slots where "slots = (sc_data Cache)[n := Some \<lparr>sd_label = label, sd_ips = [ip]\<rparr>]"
  let ?cmp = "compare_static_record_data_with_label slots"
  have agr: "agrees ?cmp (static_key Cache) {0..<sc_top Cache}"
    by (rule static_agrees_upto [OF ok]) (simp_all add: slots_def n)
  have notin: "label \<notin> static_key Cache ` {0..<sc_top Cache}"
    using new by (simp add: static_key_image [OF ok])
  obtain h where h: "enter_record ?cmp (sc_table Cache) label (int n) = Inr h"
    "ht_invar ((static_key Cache)(int n := label)) (insert (int n) {0..<sc_top Cache}) h"
    using ht.enter_new [OF static_invar [OF ok] agr notin, of "int n"] n(1) by auto
  then obtain r where set: "set_hashnode ?cmp (sc_table Cache) label (Some (int n)) = Inr (r, h)"
    by (auto simp: enter_record_eq [OF static_invar [OF ok] agr notin] bindE_Inr_iff)
  define Cache' where "Cache' = Cache\<lparr>sc_data := slots, sc_table := h, sc_top := int n + 1\<rparr>"
  have run: "set_static_cache Cache label ip = Inr (True, Cache')"
    using get_static_miss(1) [OF ok new] room n set
    by (simp add: set_static_cache_def static_okD(1) [OF ok] Let_def slots_def arr_set_def Cache'_def)
  have es: "static_entries Cache' = static_entries Cache @ [(label, [ip])]"
    using n by (simp add: static_entries_def Cache'_def slots_def take_Suc_conv_app_nth nat_add_distrib)
  have top': "sc_top Cache' = int n + 1" by (simp add: Cache'_def)
  have "ht_invar (static_key Cache') {0..<sc_top Cache'} h"
  proof (rule ht.invar_key)
    show "ht_invar ((static_key Cache)(int n := label)) {0..<sc_top Cache'} h"
      using h(2) n(1) by (simp add: Cache'_def atLeastLessThan_insert_upper)
    show "static_key Cache' i = ((static_key Cache)(int n := label)) i" if "i \<in> {0..<sc_top Cache'}" for i
      using that static_okD(2) [OF ok] top'
      by (auto simp: static_key_def es nth_append n(1) nat_less_iff)
  qed
  moreover have "\<exists>d. slots ! i = Some d \<and> sd_ips d \<noteq> []" if "i < Suc n" for i
    using that ok n by (cases "i = n") (auto simp: slots_def static_ok_def)
  ultimately have "static_ok Cache'"
    using ok room n(1) by (auto simp: static_ok_def Cache'_def slots_def nat_add_distrib)
  with run es show ?thesis by (auto simp: Cache'_def)
qed

lemma static_put:
  assumes ok: "static_ok Cache"
    and room: "static_contents Cache label \<noteq> [] \<or> card {k. static_contents Cache k \<noteq> []} < nat (sc_size Cache)"
  shows "\<exists>Cache'. set_static_cache Cache label ip = Inr (static_contents Cache label = [], Cache')
    \<and> static_ok Cache' \<and> nat (sc_size Cache') = nat (sc_size Cache)
    \<and> static_contents Cache' = (static_contents Cache)(label := static_contents Cache label @ [ip])"
proof (cases rule: static_label_cases [OF ok, of label])
  case (1 i ips)
  obtain Cache' where "set_static_cache Cache label ip = Inr (False, Cache')" "static_ok Cache'"
    "sc_size Cache' = sc_size Cache" "static_entries Cache' = (static_entries Cache)[i := (label, ips @ [ip])]"
    using set_static_duplicate [OF ok 1] by blast
  then show ?thesis
    using get_static_hit(2,3) [OF ok 1] 1 static_okD(2) [OF ok] static_distinct [OF ok]
    by (auto simp: static_contents_def map_of_list_update fun_eq_iff)
next
  case 2
  then have "sc_top Cache < sc_size Cache"
    using room get_static_miss(2) [OF ok 2] static_okD(3) [OF ok] by (simp add: card_domain [OF ok])
  then obtain Cache' where "set_static_cache Cache label ip = Inr (True, Cache')" "static_ok Cache'"
    "sc_size Cache' = sc_size Cache" "static_entries Cache' = static_entries Cache @ [(label, [ip])]"
    using set_static_new [OF ok 2] by blast
  moreover have "map_of (static_entries Cache) label = None" using 2 by (simp add: map_of_eq_None_iff)
  ultimately show ?thesis
    using get_static_miss(2) [OF ok 2] by (auto simp: static_contents_def map_add_def fun_eq_iff split: option.splits)
qed

lemma set_static_full:
  assumes ok: "static_ok Cache" and "static_contents Cache label = []"
    and "card {k. static_contents Cache k \<noteq> []} = nat (sc_size Cache)"
  shows "set_static_cache Cache label ip = Inr (False, Cache)"
proof -
  have "label \<notin> fst ` set (static_entries Cache)" using assms(2) contents_domain [OF ok] by blast
  moreover have "sc_top Cache = sc_size Cache"
    using assms(3) static_okD(3,4) [OF ok] card_domain [OF ok] by simp
  ultimately show ?thesis
    using get_static_miss(1) [OF ok] static_okD(1) [OF ok] by (simp add: set_static_cache_def Let_def)
qed

interpretation static: multimap static_ok "\<lambda>Cache. nat (sc_size Cache)" static_contents
  set_static_cache static_look
proof unfold_locales
  fix Cache assume "static_ok Cache"
  then show "finite {k. static_contents Cache k \<noteq> []}" by (simp add: contents_domain)
qed (simp_all only: static_put set_static_full static_look_contents)

lemma init_static_ok:
  assumes "0 < n" and "n < 2 ^ 30"
  shows "\<exists>Cache. init_staticCache zero_staticCache n = Inr Cache \<and> static_ok Cache \<and> sc_size Cache = n
    \<and> sc_top Cache = 0 \<and> (\<forall>label. static_contents Cache label = [])"
proof -
  have "of_int n / (3 / 4 :: rat) < 2 ^ 31 - 1"
  proof -
    have "(of_int n :: rat) < of_int (2 ^ 30)" using assms(2) by (simp only: of_int_less_iff)
    then show ?thesis by simp
  qed
  then obtain h where h: "init_hashtable blank_hashtable n (3 / 4) hash_label = Inr (True, h)"
    "ht_invar (\<lambda>_. []) {} h"
    using init_hashtable_invar [of n "3 / 4" blank_hashtable hash_label "\<lambda>_. []"] assms(1) by auto
  then show ?thesis
    using assms(1) ht.invar_key [OF h(2)]
    by (auto simp: init_staticCache_def zero_staticCache_def static_ok_def static_contents_def static_entries_def)
qed

section \<open>Properties\<close>

text \<open>C16. A static cache created for \<open>n\<close> entries and filled with pairs of labels and addresses,
  at most \<open>n\<close> different labels among them, answers every label with its addresses in the order
  they were inserted, and a label that was not inserted with the null pointer.\<close>

theorem static_cache_loads:
  assumes "0 < n" and "n < 2 ^ 30" and "card (fst ` set kvs) \<le> nat n"
  shows "\<exists>Cache Cache' p. init_staticCache zero_staticCache n = Inr Cache
    \<and> put_all set_static_cache Cache kvs = Inr Cache'
    \<and> get_static_cache Cache' label = Inr p \<and> (p = None \<longleftrightarrow> label \<notin> fst ` set kvs)
    \<and> static_chain Cache' p = Inr (values_of kvs label)"
proof -
  obtain Cache where C: "init_staticCache zero_staticCache n = Inr Cache" "static_ok Cache" "sc_size Cache = n"
    "\<And>label. static_contents Cache label = []"
    using init_static_ok [OF assms(1,2)] by blast
  then obtain Cache' where C': "put_all set_static_cache Cache kvs = Inr Cache'" "static_ok Cache'"
    "static_contents Cache' = values_of kvs"
    using static.put_all_ok [of Cache kvs] assms(3) by auto
  obtain p where p: "get_static_cache Cache' label = Inr p" "static_chain Cache' p = Inr (values_of kvs label)"
    using static_look_contents [OF C'(2), of label] C'(3) by (auto simp: static_look_def bindE_Inr_iff)
  have "values_of kvs label = [] \<longleftrightarrow> label \<notin> fst ` set kvs"
    by (force simp: values_of_def filter_empty_conv)
  moreover have "p = None \<longleftrightarrow> static_contents Cache' label = []"
    by (cases rule: static_label_cases [OF C'(2), of label])
      (use p get_static_hit [OF C'(2)] get_static_miss [OF C'(2)] in auto)
  ultimately show ?thesis using C C' p by auto
qed

text \<open>\<open>set_static_cache\<close> answers true only for a label that was not there before: it answers
  false both when it appends an address to a label and when it drops one because the array is
  full.\<close>

theorem set_static_cache_result:
  assumes "static_ok Cache"
  shows "\<exists>Cache'. set_static_cache Cache label ip
      = Inr (static_contents Cache label = [] \<and> sc_top Cache < sc_size Cache, Cache')
    \<and> static_ok Cache'
    \<and> static_contents Cache' = (if static_contents Cache label = [] \<and> sc_top Cache = sc_size Cache
        then static_contents Cache
        else (static_contents Cache)(label := static_contents Cache label @ [ip]))"
proof (cases "static_contents Cache label = [] \<and> sc_top Cache = sc_size Cache")
  case True
  then show ?thesis
    using set_static_full [OF assms, of label] assms by (simp add: card_domain)
next
  case False
  then show ?thesis
    using static_put [OF assms, of label ip] static_okD(3,4) [OF assms] by (fastforce simp: card_domain [OF assms])
qed

text \<open>C36. \<open>free_staticCache\<close> is safe only for an empty cache. With one entry it frees the array
  twice; with more it reads the array it has freed.\<close>

theorem free_staticCache_outcome:
  assumes "static_ok Cache"
  shows "free_staticCache Cache =
    (if sc_top Cache = 0
     then Inr (Cache\<lparr>sc_data := [], sc_table := free_hashtable (sc_table Cache), sc_is_init := False\<rparr>)
     else if sc_top Cache = 1 then Inl InvalidFree else Inl UseAfterFree)"
proof (cases "nat (sc_top Cache)")
  case 0
  then show ?thesis using static_okD(1,3) [OF assms] by (simp add: free_staticCache_def)
next
  case (Suc n)
  then obtain d where "static_slot (sc_data Cache) 0 = Inr d"
    using static_slot_entry [OF assms, of 0] by auto
  then show ?thesis
    using Suc static_okD(1) [OF assms] by (cases n) (auto simp: free_staticCache_def)
qed

text \<open>A cache with one entry, for the examples.\<close>

lemma static_example:
  obtains Cache where "static_ok Cache" and "sc_top Cache = 1" and "sc_size Cache = 1"
    and "static_contents Cache [97] = [\<lparr>ip_addr = replicate 16 0, ip_type = 4\<rparr>]"
proof -
  obtain Cache where C: "static_ok Cache" "sc_size Cache = 1" "sc_top Cache = 0"
    using init_static_ok [of 1] by auto
  then have "[97] \<notin> fst ` set (static_entries Cache)" by (simp add: static_entries_def)
  then obtain Cache' where C': "static_ok Cache'" "sc_size Cache' = 1"
    "static_entries Cache' = static_entries Cache @ [([97], [\<lparr>ip_addr = replicate 16 0, ip_type = 4\<rparr>])]"
    using set_static_new [OF C(1)] C(2,3) by fastforce
  moreover have "static_entries Cache = []" using C(3) by (simp add: static_entries_def)
  ultimately have "sc_top Cache' = 1" using static_okD(2,3) [OF C'(1)] by simp
  then show ?thesis
    using that [OF C'(1) _ C'(2)] C'(3) \<open>static_entries Cache = []\<close> by (simp add: static_contents_def)
qed

theorem static_cache_loads_witness:
  "\<exists>Cache Cache' p. init_staticCache zero_staticCache 2 = Inr Cache
    \<and> put_all set_static_cache Cache
        [([97], \<lparr>ip_addr = [10], ip_type = 4\<rparr>), ([98], \<lparr>ip_addr = [11], ip_type = 4\<rparr>),
         ([97], \<lparr>ip_addr = [12], ip_type = 4\<rparr>)] = Inr Cache'
    \<and> get_static_cache Cache' [97] = Inr p \<and> p \<noteq> None
    \<and> static_chain Cache' p = Inr [\<lparr>ip_addr = [10], ip_type = 4\<rparr>, \<lparr>ip_addr = [12], ip_type = 4\<rparr>]"
  using static_cache_loads [of 2 "[([97], \<lparr>ip_addr = [10], ip_type = 4\<rparr>),
      ([98], \<lparr>ip_addr = [11], ip_type = 4\<rparr>), ([97], \<lparr>ip_addr = [12], ip_type = 4\<rparr>)]" "[97]"]
  by (simp add: card_insert_if)

theorem set_static_cache_result_witness:
  "\<exists>Cache Cache' ip. set_static_cache Cache [98] ip = Inr (False, Cache') \<and> static_contents Cache' [98] = []"
proof -
  obtain Cache where C: "static_ok Cache" "sc_top Cache = 1" "sc_size Cache = 1"
    "static_contents Cache [97] = [\<lparr>ip_addr = replicate 16 0, ip_type = 4\<rparr>]"
    by (rule static_example)
  have "[98] \<notin> {k. static_contents Cache k \<noteq> []}"
  proof
    assume "[98] \<in> {k. static_contents Cache k \<noteq> []}"
    then have "{[97], [98]} \<subseteq> {k. static_contents Cache k \<noteq> []}" using C(4) by simp
    then have "card {[97], [98 :: byte]} \<le> card {k. static_contents Cache k \<noteq> []}"
      using static.finite_keys [OF C(1)] by (rule card_mono [rotated])
    then show False using card_domain [OF C(1)] C(2) by simp
  qed
  then show ?thesis using set_static_cache_result [OF C(1), of "[98]" "\<lparr>ip_addr = [], ip_type = 4\<rparr>"] C(2,3) by fastforce
qed

theorem free_staticCache_outcome_witness: "\<exists>Cache. sc_is_init Cache \<and> free_staticCache Cache = Inl InvalidFree"
proof -
  obtain Cache where C: "static_ok Cache" "sc_top Cache = 1" by (rule static_example)
  then show ?thesis using free_staticCache_outcome [OF C(1)] static_okD(1) by (intro exI [of _ Cache]) simp
qed

end
