(* ===== verification/LocalRecord.thy ===== *)
theory LocalRecord
  imports StaticCache Bytes
begin

text \<open>
  Loading the local records, \<open>src/src/local_record.c\<close>. The file is the list of its bytes; the
  library calls \<open>fgets\<close> and \<open>fscanf\<close> with the format \<open>%s%s\<close> are modelled on it.

  \<open>inet_pton\<close> is a parameter: \<open>pton4\<close> and \<open>pton6\<close> give the four or sixteen bytes of the address
  a string denotes, or nothing, in which case the destination keeps its bytes.
\<close>

section \<open>Model\<close>

subsection \<open>Reading the file\<close>

text \<open>\<open>fgets\<close> with room for \<open>n\<close> characters: up to a newline, which is kept.\<close>

fun fgets :: "nat \<Rightarrow> byte list \<Rightarrow> byte list \<times> byte list" where
  "fgets 0 bs = ([], bs)"
| "fgets (Suc n) [] = ([], [])"
| "fgets (Suc n) (b # bs) =
     (if b = 10 then ([b], bs) else let (c, r) = fgets n bs in (b # c, r))"

lemma fgets_split: "fgets n bs = (c, r) \<Longrightarrow> bs = c @ r"
  by (induction n bs arbitrary: c r rule: fgets.induct) (auto simp: Let_def split: if_splits prod.splits)

lemma fgets_progress: "fgets (Suc n) (b # bs) = (c, r) \<Longrightarrow> length r < length (b # bs)"
  using fgets_split [of n bs] by (auto simp: Let_def split: if_splits prod.splits)

text \<open>\<open>while (fgets (buffer, 630, file)) if (strcmp (buffer, "\n")) line++;\<close>\<close>

function count_lines :: "byte list \<Rightarrow> int \<Rightarrow> int" where
  "count_lines [] line = line"
| "count_lines (b # bs) line =
     (case fgets 629 (b # bs) of (buffer, rest) \<Rightarrow>
        count_lines rest (if c_str buffer \<noteq> [10] then line + 1 else line))"
  by pat_completeness auto
termination
  by (relation "measure (\<lambda>(bs, _). length bs)")
    (auto dest!: fgets_progress [of 628, simplified, OF sym])

definition isspace :: "byte \<Rightarrow> bool" where
  "isspace b \<longleftrightarrow> b \<in> {9, 10, 11, 12, 13, 32}"

definition scan_word :: "byte list \<Rightarrow> (byte list \<times> byte list) option" where
  "scan_word bs = (let s = dropWhile isspace bs in
     if s = [] then None
     else Some (takeWhile (\<lambda>b. \<not> isspace b) s, dropWhile (\<lambda>b. \<not> isspace b) s))"

text \<open>\<open>fscanf (file, "%s%s", ip, name) == 2\<close> with \<open>char ip[32], name[513]\<close>.\<close>

definition scan_line :: "byte list \<Rightarrow> ((cstring \<times> cstring) option \<times> byte list) result" where
  "scan_line bs = (case scan_word bs of None \<Rightarrow> Inr (None, [])
     | Some (ip, rest) \<Rightarrow>
         if length ip \<ge> 32 then Inl OutOfBounds
         else (case scan_word rest of None \<Rightarrow> Inr (None, [])
           | Some (name, rest) \<Rightarrow>
               if length name \<ge> 513 then Inl OutOfBounds
               else Inr (Some (c_str ip, c_str name), rest)))"

subsection \<open>The two passes\<close>

type_synonym pton = "cstring \<Rightarrow> byte list option"

datatype rec_kind = V4 | V6 | Black

text \<open>The tests both passes make on a line: the kind of the record, the value \<open>IP.type\<close> gets, and
  the bytes of \<open>IP.addr\<close> afterwards. A line with neither address is passed over.\<close>

definition classify :: "pton \<Rightarrow> pton \<Rightarrow> cstring \<Rightarrow> byte list \<Rightarrow> ((rec_kind \<times> byte) option \<times> byte list) result" where
  "classify pton4 pton6 ip addr =
     (case pton4 ip of
        Some bs \<Rightarrow> bindE (write_bytes addr 0 bs) (\<lambda>addr.
          Inr (Some (if take 4 addr = replicate 4 0 then Black else V4, 4), addr))
      | None \<Rightarrow> (case pton6 ip of
          Some bs \<Rightarrow> bindE (write_bytes addr 0 bs) (\<lambda>addr.
            Inr (Some (if addr = replicate 16 0 then Black else V6, 6), addr))
        | None \<Rightarrow> Inr (None, addr)))"

text \<open>\<open>while (_--)\<close>, counting the records of each kind; \<open>line\<close> is the number still expected.\<close>

fun count_pass :: "pton \<Rightarrow> pton \<Rightarrow> nat \<Rightarrow> int \<Rightarrow> byte list \<Rightarrow> byte list \<Rightarrow> int \<times> int \<times> int
    \<Rightarrow> ((int \<times> int \<times> int) \<times> byte list) result" where
  "count_pass pton4 pton6 0 line addr file (v4, v6, black) = Inr ((v4, v6, black), addr)"
| "count_pass pton4 pton6 (Suc t) line addr file (v4, v6, black) =
     bindE (scan_line file) (\<lambda>(entry, file).
       case entry of None \<Rightarrow> count_pass pton4 pton6 t line addr file (v4, v6, black)
       | Some (ip, name) \<Rightarrow>
           bindE (classify pton4 pton6 ip addr) (\<lambda>(kind, addr).
           let counts = (case kind of None \<Rightarrow> (v4, v6, black)
                 | Some (V4, _) \<Rightarrow> (v4 + 1, v6, black)
                 | Some (V6, _) \<Rightarrow> (v4, v6 + 1, black)
                 | Some (Black, _) \<Rightarrow> (v4, v6, black + 1))
           in if line - 1 = 0 then Inr (counts, addr)
              else count_pass pton4 pton6 t (line - 1) addr file counts))"

definition set_blacklist :: "cacheset \<Rightarrow> cstring \<Rightarrow> IP \<Rightarrow> cacheset result" where
  "set_blacklist cs name ip = bindE (set_static_cache (cs_blacklist cs) name ip) (\<lambda>(_, c).
     Inr (cs\<lparr>cs_blacklist := c\<rparr>))"

definition set_A_local :: "cacheset \<Rightarrow> cstring \<Rightarrow> IP \<Rightarrow> cacheset result" where
  "set_A_local cs name ip = bindE (set_static_cache (cc_local (cs_A cs)) name ip) (\<lambda>(_, c).
     Inr (cs\<lparr>cs_A := (cs_A cs)\<lparr>cc_local := c\<rparr>\<rparr>))"

definition set_AAAA_local :: "cacheset \<Rightarrow> cstring \<Rightarrow> IP \<Rightarrow> cacheset result" where
  "set_AAAA_local cs name ip = bindE (set_static_cache (cc_local (cs_AAAA cs)) name ip) (\<lambda>(_, c).
     Inr (cs\<lparr>cs_AAAA := (cs_AAAA cs)\<lparr>cc_local := c\<rparr>\<rparr>))"

definition insert_record :: "rec_kind \<Rightarrow> cacheset \<Rightarrow> cstring \<Rightarrow> IP \<Rightarrow> cacheset result" where
  "insert_record kind = (case kind of Black \<Rightarrow> set_blacklist | V4 \<Rightarrow> set_A_local | V6 \<Rightarrow> set_AAAA_local)"

fun insert_pass :: "pton \<Rightarrow> pton \<Rightarrow> nat \<Rightarrow> int \<Rightarrow> byte list \<Rightarrow> byte list \<Rightarrow> cacheset \<Rightarrow> cacheset result" where
  "insert_pass pton4 pton6 0 line addr file cs = Inr cs"
| "insert_pass pton4 pton6 (Suc t) line addr file cs =
     bindE (scan_line file) (\<lambda>(entry, file).
       case entry of None \<Rightarrow> insert_pass pton4 pton6 t line addr file cs
       | Some (ip, name) \<Rightarrow>
           bindE (classify pton4 pton6 ip addr) (\<lambda>(kind, addr).
           bindE (case kind of None \<Rightarrow> Inr cs
                  | Some (k, ty) \<Rightarrow> insert_record k cs name \<lparr>ip_addr = addr, ip_type = ty\<rparr>) (\<lambda>cs.
           if line - 1 = 0 then Inr cs
           else insert_pass pton4 pton6 t (line - 1) addr file cs)))"

text \<open>The second initialisation is that of \<open>A.local\<close> again.\<close>

definition init_sets :: "int \<Rightarrow> int \<Rightarrow> int \<Rightarrow> cacheset \<Rightarrow> cacheset result" where
  "init_sets v4 v6 black cs =
     bindE (if v4 > 0 then init_staticCache (cc_local (cs_A cs)) v4 else Inr (cc_local (cs_A cs))) (\<lambda>c.
     bindE (if v6 > 0 then init_staticCache c v6 else Inr c) (\<lambda>c.
     bindE (if black > 0 then init_staticCache (cs_blacklist cs) black else Inr (cs_blacklist cs)) (\<lambda>b.
       Inr (cs\<lparr>cs_A := (cs_A cs)\<lparr>cc_local := c\<rparr>, cs_blacklist := b\<rparr>))))"

text \<open>\<open>file\<close>: the contents of the file, or \<open>None\<close> when it cannot be opened. \<open>addr\<close>: the bytes of
  the local variable \<open>IP.addr\<close> on entry.\<close>

definition load_local_record ::
  "pton \<Rightarrow> pton \<Rightarrow> byte list \<Rightarrow> byte list option \<Rightarrow> cacheset \<Rightarrow> (bool \<times> cacheset) result" where
  "load_local_record pton4 pton6 addr file cs =
     (case file of None \<Rightarrow> Inr (False, cs)
      | Some bytes \<Rightarrow>
          let line = count_lines bytes 0 in
          bindE (count_pass pton4 pton6 (nat (line * 2)) line addr bytes (0, 0, 0)) (\<lambda>((v4, v6, black), addr).
          bindE (init_sets v4 v6 black cs) (\<lambda>cs.
          bindE (insert_pass pton4 pton6 (nat (line * 2)) line addr bytes cs) (\<lambda>cs.
            Inr (True, cs)))))"

section \<open>The file format\<close>

text \<open>A well-formed file: one line per record, an address and a name with a space between.\<close>

definition render :: "(cstring \<times> cstring) list \<Rightarrow> byte list" where
  "render es = concat (map (\<lambda>(ip, name). ip @ [32] @ name @ [10]) es)"

definition word_ok :: "nat \<Rightarrow> byte list \<Rightarrow> bool" where
  "word_ok n w \<longleftrightarrow> w \<noteq> [] \<and> length w < n \<and> list_all (\<lambda>b. b \<noteq> 0 \<and> \<not> isspace b) w"

definition entry_ok :: "cstring \<times> cstring \<Rightarrow> bool" where
  "entry_ok e \<longleftrightarrow> word_ok 32 (fst e) \<and> word_ok 513 (snd e)"

text \<open>The records a list of lines stands for. The address of a version 4 record occupies the first
  four bytes; the others are left over from the line before.\<close>

definition parse_record ::
  "pton \<Rightarrow> pton \<Rightarrow> cstring \<Rightarrow> byte list \<Rightarrow> (rec_kind \<times> byte) option \<times> byte list" where
  "parse_record pton4 pton6 ip addr =
     (case pton4 ip of
        Some bs \<Rightarrow> (Some (if bs = [0, 0, 0, 0] then Black else V4, 4), bs @ drop 4 addr)
      | None \<Rightarrow> (case pton6 ip of
          Some bs \<Rightarrow> (Some (if bs = replicate 16 0 then Black else V6, 6), bs)
        | None \<Rightarrow> (None, addr)))"

fun parse_records :: "pton \<Rightarrow> pton \<Rightarrow> byte list \<Rightarrow> (cstring \<times> cstring) list
    \<Rightarrow> (rec_kind \<times> cstring \<times> IP) list \<times> byte list" where
  "parse_records pton4 pton6 addr [] = ([], addr)"
| "parse_records pton4 pton6 addr ((ip, name) # es) =
     (let (kind, addr) = parse_record pton4 pton6 ip addr;
          (rs, a) = parse_records pton4 pton6 addr es
      in ((case kind of None \<Rightarrow> [] | Some (k, ty) \<Rightarrow> [(k, name, \<lparr>ip_addr = addr, ip_type = ty\<rparr>)]) @ rs, a))"

definition of_kind :: "rec_kind \<Rightarrow> (rec_kind \<times> cstring \<times> IP) list \<Rightarrow> (cstring \<times> IP) list" where
  "of_kind k rs = map snd (filter (\<lambda>r. fst r = k) rs)"

text \<open>What \<open>inet_pton\<close> promises: four or sixteen bytes.\<close>

definition pton_ok :: "pton \<Rightarrow> pton \<Rightarrow> bool" where
  "pton_ok pton4 pton6 \<longleftrightarrow> (\<forall>s bs. pton4 s = Some bs \<longrightarrow> length bs = 4)
     \<and> (\<forall>s bs. pton6 s = Some bs \<longrightarrow> length bs = 16)"

section \<open>Lemmas\<close>

lemma render_simps [simp]:
  "render [] = []"
  "render ((ip, name) # es) = ip @ 32 # name @ 10 # render es"
  by (simp_all add: render_def)

lemma fgets_line:
  "10 \<notin> set l \<Longrightarrow> length l < n \<Longrightarrow> fgets n (l @ 10 # rest) = (l @ [10], rest)"
proof (induction l arbitrary: n)
  case Nil
  then show ?case by (cases n) auto
next
  case (Cons b l)
  then show ?case by (cases n) (auto simp: Let_def)
qed

lemma word_ok_newline: "word_ok n w \<Longrightarrow> 10 \<notin> set w"
  by (auto simp: word_ok_def list_all_iff isspace_def)

lemma count_lines_render:
  "list_all entry_ok es \<Longrightarrow> count_lines (render es) line = line + int (length es)"
proof (induction es arbitrary: line)
  case (Cons e es)
  obtain ip name where e: "e = (ip, name)" by (cases e)
  have ok: "word_ok 32 ip" "word_ok 513 name" using Cons.prems by (auto simp: entry_ok_def e)
  then obtain b bs where ip: "ip = b # bs" by (cases ip) (auto simp: word_ok_def)
  have nl: "10 \<notin> set (ip @ 32 # name)" using ok by (auto dest: word_ok_newline)
  have "length (ip @ 32 # name) < 629" using ok by (simp add: word_ok_def)
  then have "fgets 629 (render (e # es)) = (ip @ 32 # name @ [10], render es)"
    using fgets_line [OF nl, of 629 "render es"] by (simp add: e)
  moreover have "c_str (ip @ 32 # name @ [10]) \<noteq> [10]"
    using ok nl by (auto simp: ip c_str_def word_ok_def)
  ultimately show ?case using Cons.IH Cons.prems by (simp add: e ip)
qed simp

lemma takeWhile_word: "word_ok n w \<Longrightarrow> isspace b \<Longrightarrow>
    takeWhile (\<lambda>b. \<not> isspace b) (w @ b # rest) = w \<and> dropWhile (\<lambda>b. \<not> isspace b) (w @ b # rest) = b # rest"
  by (auto simp: word_ok_def list_all_iff takeWhile_append dropWhile_append)

lemma scan_word_word:
  assumes "word_ok n w" and "isspace b" and "list_all isspace ws"
  shows "scan_word (ws @ w @ b # rest) = Some (w, b # rest)"
proof -
  have "dropWhile isspace (ws @ w @ b # rest) = w @ b # rest"
    using assms(1,3) by (cases w) (auto simp: word_ok_def list_all_iff dropWhile_append)
  then show ?thesis using takeWhile_word [OF assms(1,2)] by (simp add: scan_word_def Let_def)
qed

lemma isspace_simps [simp]: "isspace 32" "isspace 10"
  by (simp_all add: isspace_def)

lemma word_ok_c_str: "word_ok n w \<Longrightarrow> c_str w = w"
  unfolding word_ok_def c_str_def takeWhile_eq_all_conv by (auto simp: list_all_iff)

lemma scan_line_entry:
  assumes "entry_ok (ip, name)" and "list_all isspace ws"
  shows "scan_line (ws @ render ((ip, name) # es)) = Inr (Some (ip, name), [10] @ render es)"
proof -
  have ok: "word_ok 32 ip" "word_ok 513 name" using assms by (auto simp: entry_ok_def)
  then show ?thesis
    using scan_word_word [OF ok(1), of 32 ws "name @ 10 # render es"] assms(2)
      scan_word_word [OF ok(2), of 10 "[32]" "render es"] ok
    by (simp add: scan_line_def word_ok_c_str) (simp add: word_ok_def)
qed

lemma classify_ok:
  assumes "pton_ok pton4 pton6" and "length addr = 16"
  shows "classify pton4 pton6 ip addr = Inr (parse_record pton4 pton6 ip addr)"
    and "length (snd (parse_record pton4 pton6 ip addr)) = 16"
proof -
  have four: "length bs = 4" if "pton4 ip = Some bs" for bs
    using assms(1) that by (auto simp: pton_ok_def)
  have sixteen: "length bs = 16" if "pton6 ip = Some bs" for bs
    using assms(1) that by (auto simp: pton_ok_def)
  have "replicate 4 (0 :: byte) = [0, 0, 0, 0]" by (simp add: eval_nat_numeral)
  then show "classify pton4 pton6 ip addr = Inr (parse_record pton4 pton6 ip addr)"
    using four sixteen assms(2)
    by (auto simp: classify_def parse_record_def write_bytes_def blit_def split: option.splits)
  show "length (snd (parse_record pton4 pton6 ip addr)) = 16"
    using four sixteen assms(2) by (auto simp: parse_record_def split: option.splits)
qed

lemma of_kind_simps [simp]:
  "of_kind k [] = []"
  "of_kind k ((j, r) # rs) = (if j = k then r # of_kind k rs else of_kind k rs)"
  by (simp_all add: of_kind_def)

fun insert_all :: "cacheset \<Rightarrow> (rec_kind \<times> cstring \<times> IP) list \<Rightarrow> cacheset result" where
  "insert_all cs [] = Inr cs"
| "insert_all cs ((k, name, ip) # rs) = bindE (insert_record k cs name ip) (\<lambda>cs. insert_all cs rs)"

text \<open>A pass over the rest of the file, begun at the end of a line or at the start of the file: the
  first line of it, and what the pass meets there.\<close>

lemma first_line:
  assumes "pton_ok pton4 pton6" and "length addr = 16" and "list_all entry_ok (e # es)"
    and "list_all isspace ws" and "parse_records pton4 pton6 addr (e # es) = (rs, addr')"
  obtains ip name kind a rs1 where "e = (ip, name)"
    and "scan_line (ws @ render (e # es)) = Inr (Some (ip, name), [10] @ render es)"
    and "classify pton4 pton6 ip addr = Inr (kind, a)" and "length a = 16"
    and "parse_records pton4 pton6 a es = (rs1, addr')"
    and "rs = (case kind of None \<Rightarrow> [] | Some (k, ty) \<Rightarrow> [(k, name, \<lparr>ip_addr = a, ip_type = ty\<rparr>)]) @ rs1"
proof -
  obtain ip name where e: "e = (ip, name)" by (cases e)
  obtain kind a where ka: "parse_record pton4 pton6 ip addr = (kind, a)"
    by (cases "parse_record pton4 pton6 ip addr")
  obtain rs1 a1 where rs1: "parse_records pton4 pton6 a es = (rs1, a1)"
    by (cases "parse_records pton4 pton6 a es")
  show thesis
  proof (rule that [OF e])
    show "scan_line (ws @ render (e # es)) = Inr (Some (ip, name), [10] @ render es)"
      using scan_line_entry assms(3,4) by (simp add: e)
    show "classify pton4 pton6 ip addr = Inr (kind, a)" "length a = 16"
      using classify_ok [OF assms(1,2), of ip] by (simp_all add: ka)
    show "parse_records pton4 pton6 a es = (rs1, addr')"
      "rs = (case kind of None \<Rightarrow> [] | Some (k, ty) \<Rightarrow> [(k, name, \<lparr>ip_addr = a, ip_type = ty\<rparr>)]) @ rs1"
      using assms(5) by (simp_all add: e ka rs1)
  qed
qed

lemma count_pass_render:
  assumes "pton_ok pton4 pton6" and "length addr = 16" and "list_all entry_ok es"
    and "length es \<le> t" and "es \<noteq> []" and "list_all isspace ws"
    and "parse_records pton4 pton6 addr es = (rs, addr')"
  shows "count_pass pton4 pton6 t (int (length es)) addr (ws @ render es) (v4, v6, black)
    = Inr ((v4 + int (length (of_kind V4 rs)), v6 + int (length (of_kind V6 rs)),
        black + int (length (of_kind Black rs))), addr')"
  using assms(2-)
proof (induction es arbitrary: t addr ws rs v4 v6 black)
  case (Cons e es)
  obtain ip name kind a rs1 where line: "e = (ip, name)"
    "scan_line (ws @ render (e # es)) = Inr (Some (ip, name), [10] @ render es)"
    "classify pton4 pton6 ip addr = Inr (kind, a)" "length a = 16"
    "parse_records pton4 pton6 a es = (rs1, addr')"
    "rs = (case kind of None \<Rightarrow> [] | Some (k, ty) \<Rightarrow> [(k, name, \<lparr>ip_addr = a, ip_type = ty\<rparr>)]) @ rs1"
    by (rule first_line [OF assms(1) Cons.prems(1,2,5,6)]) blast
  obtain t' where t: "t = Suc t'" "length es \<le> t'" using Cons.prems(3) by (cases t) auto
  note IH = Cons.IH [OF line(4) _ t(2) _ _ line(5), of "[10]"]
  show ?case
  proof (cases "es = []")
    case True
    with line(5) have "rs1 = []" "addr' = a" by auto
    then show ?thesis
      using line(2,3,6) True
      by (cases kind) (auto simp: t Let_def split: rec_kind.split)
  next
    case False
    then show ?thesis
      using line(2,3,6) Cons.prems(2) IH
      by (cases kind) (auto simp: t Let_def split: rec_kind.split)
  qed
qed simp

lemma insert_pass_render:
  assumes "pton_ok pton4 pton6" and "length addr = 16" and "list_all entry_ok es"
    and "length es \<le> t" and "es \<noteq> []" and "list_all isspace ws"
    and "parse_records pton4 pton6 addr es = (rs, addr')"
  shows "insert_pass pton4 pton6 t (int (length es)) addr (ws @ render es) cs = insert_all cs rs"
  using assms(2-)
proof (induction es arbitrary: t addr ws rs cs)
  case (Cons e es)
  obtain ip name kind a rs1 where line: "e = (ip, name)"
    "scan_line (ws @ render (e # es)) = Inr (Some (ip, name), [10] @ render es)"
    "classify pton4 pton6 ip addr = Inr (kind, a)" "length a = 16"
    "parse_records pton4 pton6 a es = (rs1, addr')"
    "rs = (case kind of None \<Rightarrow> [] | Some (k, ty) \<Rightarrow> [(k, name, \<lparr>ip_addr = a, ip_type = ty\<rparr>)]) @ rs1"
    by (rule first_line [OF assms(1) Cons.prems(1,2,5,6)]) blast
  obtain t' where t: "t = Suc t'" "length es \<le> t'" using Cons.prems(3) by (cases t) auto
  note IH = Cons.IH [OF line(4) _ t(2) _ _ line(5), of "[10]"]
  show ?case
  proof (cases "es = []")
    case True
    with line(5) have "rs1 = []" by auto
    then show ?thesis
      using line(2,3,6) True by (cases kind) (auto simp: t Let_def)
  next
    case False
    then have "insert_pass pton4 pton6 t' (int (length es)) a ([10] @ render es) = (\<lambda>cs. insert_all cs rs1)"
      using Cons.prems(2) IH by (intro ext) simp
    then show ?thesis
      using line(2,3,6) False by (cases kind) (auto simp: t Let_def)
  qed
qed simp

lemma insert_all_split:
  assumes "put_all set_static_cache (cs_blacklist cs) (of_kind Black rs) = Inr b"
    and "put_all set_static_cache (cc_local (cs_A cs)) (of_kind V4 rs) = Inr a"
    and "put_all set_static_cache (cc_local (cs_AAAA cs)) (of_kind V6 rs) = Inr d"
  shows "insert_all cs rs = Inr (cs\<lparr>cs_blacklist := b, cs_A := (cs_A cs)\<lparr>cc_local := a\<rparr>,
    cs_AAAA := (cs_AAAA cs)\<lparr>cc_local := d\<rparr>\<rparr>)"
  using assms
proof (induction rs arbitrary: cs)
  case (Cons r rs)
  obtain k name ip where r: "r = (k, name, ip)" by (cases r)
  show ?case
    using Cons.prems Cons.IH
    by (cases k) (auto simp: r insert_record_def set_blacklist_def set_A_local_def set_AAAA_local_def bindE_Inr_iff)
qed simp

text \<open>The three caches after both passes: an initialised one answers with the records of its kind,
  one that was never initialised with the null pointer.\<close>

lemma put_all_uninit: "\<not> sc_is_init C \<Longrightarrow> put_all set_static_cache C kvs = Inr C"
  by (induction kvs) (auto simp: set_static_cache_def)

lemma static_look_uninit: "\<not> sc_is_init C \<Longrightarrow> static_look C label = Inr []"
  by (simp add: static_look_def get_static_cache_def static_chain_def)

lemma filled:
  assumes "init_staticCache zero_staticCache n = Inr C" and "0 < n" and "n < 2 ^ 30"
    and "length kvs \<le> nat n"
  shows "\<exists>C'. put_all set_static_cache C kvs = Inr C' \<and> local_ok C'
    \<and> (\<forall>label. static_look C' label = Inr (values_of kvs label))"
proof -
  have "static_ok C" "sc_size C = n" "\<And>label. static_contents C label = []"
    using init_static_ok [OF assms(2,3)] assms(1) by auto
  moreover have "card (fst ` set kvs) \<le> nat n"
    using card_length [of "map fst kvs"] assms(4) by simp
  ultimately show ?thesis
    using static.put_all_ok [of C kvs] static.look_ok by (fastforce simp: local_ok_def)
qed

lemma filled_or_empty:
  assumes "0 \<le> n" and "n < 2 ^ 30" and "length kvs \<le> nat n"
    and "(if n > 0 then init_staticCache zero_staticCache n else Inr zero_staticCache) = Inr C"
  shows "\<exists>C'. put_all set_static_cache C kvs = Inr C' \<and> local_ok C'
    \<and> (\<forall>label. static_look C' label = Inr (values_of kvs label))"
proof (cases "n > 0")
  case True
  then show ?thesis using filled assms by auto
next
  case False
  then have "kvs = []" "C = zero_staticCache" using assms by auto
  then show ?thesis using static_look_uninit [of C] by (simp add: zero_staticCache_def local_ok_def)
qed

lemma init_zero:
  "n < 2 ^ 30 \<Longrightarrow> \<exists>C. (if n > 0 then init_staticCache zero_staticCache n else Inr zero_staticCache) = Inr C
    \<and> sc_is_init C = (n > 0)"
  using init_static_ok [of n] static_okD(1) by (auto simp: zero_staticCache_def)

lemma of_kind_length: "length (of_kind k rs) \<le> length rs"
  by (simp add: of_kind_def)

lemma parse_records_length:
  assumes "pton_ok pton4 pton6"
  shows "length addr = 16 \<Longrightarrow> length (fst (parse_records pton4 pton6 addr es)) \<le> length es
    \<and> length (snd (parse_records pton4 pton6 addr es)) = 16"
proof (induction es arbitrary: addr)
  case (Cons e es)
  obtain ip name where e: "e = (ip, name)" by (cases e)
  show ?case
    using Cons.IH [of "snd (parse_record pton4 pton6 ip addr)"] classify_ok(2) [OF assms Cons.prems, of ip]
    by (auto simp: e Let_def split: prod.splits option.splits)
qed simp

text \<open>The kind of a record does not depend on the bytes left over, so the counts of the first pass
  fit the second.\<close>

lemma parse_record_kind:
  "fst (parse_record pton4 pton6 ip a) = fst (parse_record pton4 pton6 ip a')"
  by (simp add: parse_record_def split: option.splits)

lemma parse_records_kinds:
  "map fst (fst (parse_records pton4 pton6 a es)) = map fst (fst (parse_records pton4 pton6 a' es))"
proof (induction es arbitrary: a a')
  case (Cons e es)
  obtain ip name where e: "e = (ip, name)" by (cases e)
  show ?case
    using parse_record_kind [of pton4 pton6 ip a a']
      Cons.IH [of "snd (parse_record pton4 pton6 ip a)" "snd (parse_record pton4 pton6 ip a')"]
    by (auto simp: e Let_def split: prod.splits option.splits)
qed simp

lemma length_of_kind: "length (of_kind k rs) = length (filter (\<lambda>j. j = k) (map fst rs))"
  by (simp add: of_kind_def filter_map o_def)

text \<open>The local caches of a set that were never initialised.\<close>

definition no_local :: "cacheset \<Rightarrow> bool" where
  "no_local cs \<longleftrightarrow> cs_blacklist cs = zero_staticCache \<and> cc_local (cs_A cs) = zero_staticCache
     \<and> cc_local (cs_AAAA cs) = zero_staticCache"

lemma init_sets_zero:
  assumes "no_local cs" and "v4 < 2 ^ 30" and "v6 < 2 ^ 30" and "black < 2 ^ 30"
  defines "n \<equiv> if v4 > 0 then v4 else v6"
  shows "\<exists>c b. init_sets v4 v6 black cs = Inr (cs\<lparr>cs_A := (cs_A cs)\<lparr>cc_local := c\<rparr>, cs_blacklist := b\<rparr>)
    \<and> (if n > 0 then init_staticCache zero_staticCache n else Inr zero_staticCache) = Inr c
    \<and> (if black > 0 then init_staticCache zero_staticCache black else Inr zero_staticCache) = Inr b"
proof -
  have nlt: "n < 2 ^ 30" using assms(2,3) by (simp add: n_def)
  obtain c where c: "(if n > 0 then init_staticCache zero_staticCache n else Inr zero_staticCache) = Inr c"
    "sc_is_init c = (n > 0)"
    using init_zero [of n] nlt by blast
  obtain b where b: "(if black > 0 then init_staticCache zero_staticCache black else Inr zero_staticCache) = Inr b"
    using init_zero [of black] assms(4) by auto
  have "init_staticCache c v6 = Inr c" if "v4 > 0"
    using c(2) that by (simp add: init_staticCache_def n_def)
  then show ?thesis
    using c b assms(1) unfolding init_sets_def no_local_def n_def by (auto split: if_splits)
qed

lemma load_result:
  assumes "pton_ok pton4 pton6" and "length addr = 16" and "list_all entry_ok es"
    and "es \<noteq> []" and "length es < 2 ^ 30" and "no_local cs"
    and "rs = fst (parse_records pton4 pton6 (snd (parse_records pton4 pton6 addr es)) es)"
  shows "\<exists>cs'. load_local_record pton4 pton6 addr (Some (render es)) cs = Inr (True, cs')
    \<and> local_ok (cs_blacklist cs') \<and> local_ok (cc_local (cs_A cs')) \<and> \<not> sc_is_init (cc_local (cs_AAAA cs'))
    \<and> cc_temp (cs_A cs') = cc_temp (cs_A cs) \<and> cc_temp (cs_AAAA cs') = cc_temp (cs_AAAA cs)
    \<and> static_look (cs_blacklist cs') label = Inr (values_of (of_kind Black rs) label)
    \<and> static_look (cc_local (cs_A cs')) label = Inr (values_of (of_kind V4 rs) label)
    \<and> static_look (cc_local (cs_AAAA cs')) label = Inr []"
proof -
  obtain rs0 a1 where first: "parse_records pton4 pton6 addr es = (rs0, a1)"
    by (cases "parse_records pton4 pton6 addr es")
  then have a1: "length a1 = 16" and rs0: "length rs0 \<le> length es"
    using parse_records_length [OF assms(1,2), of es] by auto
  obtain a2 where second: "parse_records pton4 pton6 a1 es = (rs, a2)"
    using assms(7) first by (cases "parse_records pton4 pton6 a1 es") auto
  have len: "length (of_kind k rs) = length (of_kind k rs0)" for k
    using parse_records_kinds [of pton4 pton6 a1 es addr] by (simp add: length_of_kind first second)
  let ?n = "\<lambda>k. int (length (of_kind k rs0))"
  have small: "?n k < 2 ^ 30" for k using of_kind_length [of k rs0] rs0 assms(5) by simp
  obtain c b where init: "init_sets (?n V4) (?n V6) (?n Black) cs
      = Inr (cs\<lparr>cs_A := (cs_A cs)\<lparr>cc_local := c\<rparr>, cs_blacklist := b\<rparr>)"
    and c: "(if (if ?n V4 > 0 then ?n V4 else ?n V6) > 0
        then init_staticCache zero_staticCache (if ?n V4 > 0 then ?n V4 else ?n V6)
        else Inr zero_staticCache) = Inr c"
    and b: "(if ?n Black > 0 then init_staticCache zero_staticCache (?n Black) else Inr zero_staticCache) = Inr b"
    using init_sets_zero [OF assms(6) small small small] by blast
  have room: "0 \<le> (if ?n V4 > 0 then ?n V4 else ?n V6)" "(if ?n V4 > 0 then ?n V4 else ?n V6) < 2 ^ 30"
    "length (of_kind V4 rs) \<le> nat (if ?n V4 > 0 then ?n V4 else ?n V6)"
    using small [of V4] small [of V6] len [of V4] by simp_all
  obtain c' where c': "put_all set_static_cache c (of_kind V4 rs) = Inr c'" "local_ok c'"
    "\<And>label. static_look c' label = Inr (values_of (of_kind V4 rs) label)"
    using filled_or_empty [OF room c] by blast
  obtain b' where b': "put_all set_static_cache b (of_kind Black rs) = Inr b'" "local_ok b'"
    "\<And>label. static_look b' label = Inr (values_of (of_kind Black rs) label)"
    using filled_or_empty [OF _ _ _ b, of "of_kind Black rs"] small len by auto
  have d: "\<not> sc_is_init (cc_local (cs_AAAA cs))" using assms(6) by (simp add: no_local_def zero_staticCache_def)
  let ?cs = "cs\<lparr>cs_A := (cs_A cs)\<lparr>cc_local := c\<rparr>, cs_blacklist := b\<rparr>"
  have "insert_all ?cs rs = Inr (?cs\<lparr>cs_blacklist := b', cs_A := (cs_A cs)\<lparr>cc_local := c'\<rparr>\<rparr>)"
    using insert_all_split [of ?cs rs b' c' "cc_local (cs_AAAA cs)"] b'(1) c'(1) put_all_uninit [OF d] by simp
  moreover have "insert_pass pton4 pton6 (nat (int (length es) * 2)) (int (length es)) a1 (render es) ?cs
      = insert_all ?cs rs"
    using insert_pass_render [OF assms(1) a1 assms(3) _ assms(4) _ second, of _ "[]"] by simp
  moreover have "count_pass pton4 pton6 (nat (int (length es) * 2)) (int (length es)) addr (render es) (0, 0, 0)
      = Inr ((?n V4, ?n V6, ?n Black), a1)"
    using count_pass_render [OF assms(1,2,3) _ assms(4) _ first, of _ "[]" 0 0 0] by simp
  ultimately have "load_local_record pton4 pton6 addr (Some (render es)) cs
      = Inr (True, ?cs\<lparr>cs_blacklist := b', cs_A := (cs_A cs)\<lparr>cc_local := c'\<rparr>\<rparr>)"
    using init by (simp add: load_local_record_def count_lines_render [OF assms(3)] Let_def)
  then show ?thesis using b'(2,3) c'(2,3) static_look_uninit [OF d] d by simp
qed


section \<open>Properties\<close>

text \<open>C8. Loading a well-formed file succeeds: afterwards the blacklist answers a name with its
  null addresses in the order of the lines and \<open>A.local\<close> with its version 4 addresses, exactly
  as a single pass over the lines would collect them. The version 6 addresses are lost:
  \<open>AAAA.local\<close> answers every name with the null pointer, because \<open>A.local\<close> is initialised in its
  place.\<close>

theorem load_local_record_correct:
  assumes "pton_ok pton4 pton6" and "length addr = 16" and "list_all entry_ok es"
    and "es \<noteq> []" and "length es < 2 ^ 30" and "no_local cs"
    and "rs = fst (parse_records pton4 pton6 (snd (parse_records pton4 pton6 addr es)) es)"
  shows "\<exists>cs'. load_local_record pton4 pton6 addr (Some (render es)) cs = Inr (True, cs')
    \<and> static_look (cs_blacklist cs') label = Inr (values_of (of_kind Black rs) label)
    \<and> static_look (cc_local (cs_A cs')) label = Inr (values_of (of_kind V4 rs) label)
    \<and> static_look (cc_local (cs_AAAA cs')) label = Inr []"
  using load_result [OF assms] by blast

text \<open>A resolver of address strings for the example: \<open>0\<close> is null, \<open>1\<close> and \<open>:\<close> are addresses.\<close>

definition toy_pton4 :: pton where
  "toy_pton4 s = (if s = [48] then Some [0, 0, 0, 0] else if s = [49] then Some [10, 0, 0, 1] else None)"

definition toy_pton6 :: pton where
  "toy_pton6 s = (if s = [58] then Some (1 # replicate 15 0) else None)"

lemma toy_pton_ok: "pton_ok toy_pton4 toy_pton6"
  by (simp add: pton_ok_def toy_pton4_def toy_pton6_def)

theorem load_local_record_correct_witness:
  "\<exists>cs'. load_local_record toy_pton4 toy_pton6 (replicate 16 7)
      (Some (render [([48], [97]), ([49], [98]), ([58], [99])])) zero_cacheset = Inr (True, cs')
    \<and> static_look (cs_blacklist cs') [98] = Inr []
    \<and> static_look (cc_local (cs_A cs')) [98] = Inr [\<lparr>ip_addr = [10, 0, 0, 1] @ replicate 12 0, ip_type = 4\<rparr>] 
    \<and> static_look (cc_local (cs_AAAA cs')) [98] = Inr []"
proof -
  have "\<exists>cs'. load_local_record toy_pton4 toy_pton6 (replicate 16 7)
      (Some (render [([48], [97]), ([49], [98]), ([58], [99])])) zero_cacheset = Inr (True, cs')
    \<and> static_look (cs_blacklist cs') [98] = Inr (values_of (of_kind Black (fst (parse_records toy_pton4 toy_pton6
        (snd (parse_records toy_pton4 toy_pton6 (replicate 16 7) [([48], [97]), ([49], [98]), ([58], [99])]))
        [([48], [97]), ([49], [98]), ([58], [99])]))) [98])
    \<and> static_look (cc_local (cs_A cs')) [98] = Inr (values_of (of_kind V4 (fst (parse_records toy_pton4 toy_pton6
        (snd (parse_records toy_pton4 toy_pton6 (replicate 16 7) [([48], [97]), ([49], [98]), ([58], [99])]))
        [([48], [97]), ([49], [98]), ([58], [99])]))) [98])
    \<and> static_look (cc_local (cs_AAAA cs')) [98] = Inr []"
    by (rule load_local_record_correct [OF toy_pton_ok _ _ _ _ _ refl])
      (simp_all add: entry_ok_def word_ok_def isspace_def no_local_def zero_cacheset_def)
  moreover have "replicate 16 (0 :: byte) = 0 # replicate 15 0" by (simp flip: replicate_Suc)
  ultimately show ?thesis
    by (simp add: parse_record_def toy_pton4_def toy_pton6_def)
qed

end
