(* ===== verification/IdAdapter.thy ===== *)
theory IdAdapter
  imports DnsMessage "HOL-Library.Signed_Division"
begin

text \<open>
  The ID adapter of \<open>src/src/main.c\<close>: a ring of slots, one for every query that was passed on
  to the upstream server and is still unanswered. The slot number is the id of the message
  sent upstream; the slot keeps the client's address, its own id and the query.

  The locale \<open>ticket_table\<close> states what the relay relies on; it is interpreted on the
  translated operations.
\<close>

section \<open>Model\<close>

definition IDAadpter_SIZE :: int where "IDAadpter_SIZE = 1024"

text \<open>\<open>strcpy\<close> into an object of fixed size.\<close>

definition strcpy :: "byte list \<Rightarrow> byte list \<Rightarrow> byte list result" where
  "strcpy dest src = bindE (read_cstr src) (\<lambda>s. write_bytes dest 0 (s @ [0]))"

record IDtoAddr =
  ia_addr :: "byte list"  \<comment> \<open>the bytes of the \<open>struct sockaddr_in\<close>\<close>
  ia_old_id :: u16
  ia_type :: byte

record id_slot =
  sl_info :: IDtoAddr
  sl_valid :: bool
  sl_start :: int
  sl_message :: "byte list"

datatype rwlock = Unlocked | Writing | Reading nat

record adapter =
  ad_data :: "id_slot list"
  ad_is_init :: bool
  ad_next :: u16
  ad_rwlock :: rwlock

text \<open>
  The read-write lock as its only user, the main thread, meets it. A thread that asks again
  for a lock it holds for writing is refused with \<open>EDEADLK\<close> or blocks for ever; the standard
  allows both, so the choice is the argument \<open>edeadlk\<close>. The code ignores the error number.
\<close>

fun rwlock_wrlock :: "bool \<Rightarrow> rwlock \<Rightarrow> rwlock result" where
  "rwlock_wrlock edeadlk Unlocked = Inr Writing"
| "rwlock_wrlock edeadlk l = (if edeadlk then Inr l else Inl SelfDeadlock)"

fun rwlock_rdlock :: "bool \<Rightarrow> rwlock \<Rightarrow> rwlock result" where
  "rwlock_rdlock edeadlk Unlocked = Inr (Reading 1)"
| "rwlock_rdlock edeadlk (Reading n) = Inr (Reading (n + 1))"
| "rwlock_rdlock edeadlk Writing = (if edeadlk then Inr Writing else Inl SelfDeadlock)"

fun rwlock_unlock :: "rwlock \<Rightarrow> rwlock result" where
  "rwlock_unlock Unlocked = Inl BadUnlock"
| "rwlock_unlock Writing = Inr Unlocked"
| "rwlock_unlock (Reading n) = Inr (if n \<le> 1 then Unlocked else Reading (n - 1))"

definition IDAdapter_push ::
  "bool \<Rightarrow> u16 \<Rightarrow> byte list \<Rightarrow> byte \<Rightarrow> int \<Rightarrow> byte list \<Rightarrow> adapter \<Rightarrow> (int \<times> adapter) result" where
  "IDAdapter_push edeadlk i source rtype time buffer ad =
     bindE (rwlock_wrlock edeadlk (ad_rwlock ad)) (\<lambda>l.
     let ad = ad\<lparr>ad_rwlock := l\<rparr>; next = to_short (uint (ad_next ad)) in
     bindE (arr_get (ad_data ad) next) (\<lambda>slot.
     if \<not> sl_valid slot then
       bindE (strcpy (sl_message slot) buffer) (\<lambda>message.
       let slot = \<lparr>sl_info = \<lparr>ia_addr = source, ia_old_id = i, ia_type = rtype\<rparr>,
                   sl_valid = True, sl_start = time, sl_message = message\<rparr>;
           ad = ad\<lparr>ad_data := (ad_data ad)[nat next := slot],
                   ad_next := of_int ((uint (ad_next ad) + 1) smod IDAadpter_SIZE)\<rparr>
       in bindE (rwlock_unlock (ad_rwlock ad)) (\<lambda>l.
         Inr (next, ad\<lparr>ad_rwlock := l\<rparr>)))
     else Inr (- 1, ad)))"

text \<open>\<open>pos\<close> is the message id, converted to \<open>short\<close> on the way in.\<close>

definition slot_index :: "u16 \<Rightarrow> int" where
  "slot_index pos = to_short (uint pos) smod IDAadpter_SIZE"

definition IDAdapter_pop :: "bool \<Rightarrow> u16 \<Rightarrow> adapter \<Rightarrow> adapter result" where
  "IDAdapter_pop edeadlk pos ad =
     bindE (rwlock_rdlock edeadlk (ad_rwlock ad)) (\<lambda>l.
     bindE (arr_get (ad_data ad) (slot_index pos)) (\<lambda>slot.
     bindE (arr_set (ad_data ad) (slot_index pos) (slot\<lparr>sl_valid := False\<rparr>)) (\<lambda>slots.
     bindE (rwlock_unlock l) (\<lambda>l.
     Inr (ad\<lparr>ad_data := slots, ad_rwlock := l\<rparr>)))))"

definition IDAdapter_get :: "u16 \<Rightarrow> adapter \<Rightarrow> IDtoAddr option result" where
  "IDAdapter_get pos ad =
     bindE (arr_get (ad_data ad) (slot_index pos)) (\<lambda>slot.
     Inr (if sl_valid slot then Some (sl_info slot) else None))"

text \<open>The static object at program start, all bytes zero, with the lock that \<open>init\<close> creates.\<close>

definition zero_slot :: id_slot where
  "zero_slot = \<lparr>sl_info = \<lparr>ia_addr = replicate 16 0, ia_old_id = 0, ia_type = 0\<rparr>,
     sl_valid = False, sl_start = 0, sl_message = replicate 1024 0\<rparr>"

definition init_adapter :: adapter where
  "init_adapter = \<lparr>ad_data = replicate (nat IDAadpter_SIZE) zero_slot, ad_is_init = False,
     ad_next = 0, ad_rwlock = Unlocked\<rparr>"

section \<open>The contract\<close>

text \<open>A sequence of calls, and what it returns on an abstract table: a map from tickets to
  entries with the ticket to hand out next. A write finds its ticket free or is refused.\<close>

datatype 'e ticket_op = Push 'e | Look nat | Pop nat

datatype 'i ticket_res = Ticket int | Entry "'i option" | Done

fun ticket_spec :: "nat \<Rightarrow> ('e \<Rightarrow> 'i) \<Rightarrow> 'e ticket_op \<Rightarrow> nat \<times> (nat \<rightharpoonup> 'e)
    \<Rightarrow> 'i ticket_res \<times> nat \<times> (nat \<rightharpoonup> 'e)" where
  "ticket_spec n info (Push e) (c, m) =
     (if m c = None then (Ticket (int c), Suc c mod n, m(c \<mapsto> e)) else (Ticket (- 1), c, m))"
| "ticket_spec n info (Look i) (c, m) = (Entry (map_option info (m i)), c, m)"
| "ticket_spec n info (Pop i) (c, m) = (Done, c, m(i := None))"

fun ticket_spec_run :: "nat \<Rightarrow> ('e \<Rightarrow> 'i) \<Rightarrow> 'e ticket_op list \<Rightarrow> nat \<times> (nat \<rightharpoonup> 'e)
    \<Rightarrow> 'i ticket_res list \<times> nat \<times> (nat \<rightharpoonup> 'e)" where
  "ticket_spec_run n info [] s = ([], s)"
| "ticket_spec_run n info (x # xs) s =
     (let (r, s) = ticket_spec n info x s; (rs, s) = ticket_spec_run n info xs s in (r # rs, s))"

fun ticket_step :: "('e \<Rightarrow> 's \<Rightarrow> (int \<times> 's) result) \<Rightarrow> (nat \<Rightarrow> 's \<Rightarrow> 'i option result)
    \<Rightarrow> (nat \<Rightarrow> 's \<Rightarrow> 's result) \<Rightarrow> 'e ticket_op \<Rightarrow> 's \<Rightarrow> ('i ticket_res \<times> 's) result" where
  "ticket_step push look pop (Push e) s = bindE (push e s) (\<lambda>(t, s). Inr (Ticket t, s))"
| "ticket_step push look pop (Look i) s = bindE (look i s) (\<lambda>r. Inr (Entry r, s))"
| "ticket_step push look pop (Pop i) s = bindE (pop i s) (\<lambda>s. Inr (Done, s))"

fun ticket_run :: "('e \<Rightarrow> 's \<Rightarrow> (int \<times> 's) result) \<Rightarrow> (nat \<Rightarrow> 's \<Rightarrow> 'i option result)
    \<Rightarrow> (nat \<Rightarrow> 's \<Rightarrow> 's result) \<Rightarrow> 'e ticket_op list \<Rightarrow> 's \<Rightarrow> ('i ticket_res list \<times> 's) result" where
  "ticket_run push look pop [] s = Inr ([], s)"
| "ticket_run push look pop (x # xs) s =
     bindE (ticket_step push look pop x s) (\<lambda>(r, s).
     bindE (ticket_run push look pop xs s) (\<lambda>(rs, s). Inr (r # rs, s)))"

fun op_ok :: "nat \<Rightarrow> ('e \<Rightarrow> bool) \<Rightarrow> 'e ticket_op \<Rightarrow> bool" where
  "op_ok n valid (Push e) = valid e"
| "op_ok n valid (Look i) = (i < n)"
| "op_ok n valid (Pop i) = (i < n)"

locale ticket_table =
  fixes ok :: "'s \<Rightarrow> bool"
    and size :: nat
    and cursor :: "'s \<Rightarrow> nat"
    and entries :: "'s \<Rightarrow> nat \<rightharpoonup> 'e"
    and valid :: "'e \<Rightarrow> bool"
    and info :: "'e \<Rightarrow> 'i"
    and push :: "'e \<Rightarrow> 's \<Rightarrow> (int \<times> 's) result"
    and look :: "nat \<Rightarrow> 's \<Rightarrow> 'i option result"
    and pop :: "nat \<Rightarrow> 's \<Rightarrow> 's result"
  assumes push_free: "ok s \<Longrightarrow> valid e \<Longrightarrow> entries s (cursor s) = None \<Longrightarrow>
      \<exists>s'. push e s = Inr (int (cursor s), s') \<and> ok s' \<and> cursor s' = Suc (cursor s) mod size
        \<and> entries s' = (entries s)(cursor s \<mapsto> e)"
    and push_taken: "ok s \<Longrightarrow> valid e \<Longrightarrow> entries s (cursor s) = Some d \<Longrightarrow>
      \<exists>s'. push e s = Inr (- 1, s') \<and> ok s' \<and> cursor s' = cursor s \<and> entries s' = entries s"
    and look_ok: "ok s \<Longrightarrow> i < size \<Longrightarrow> look i s = Inr (map_option info (entries s i))"
    and pop_ok: "ok s \<Longrightarrow> i < size \<Longrightarrow>
      \<exists>s'. pop i s = Inr s' \<and> ok s' \<and> cursor s' = cursor s \<and> entries s' = (entries s)(i := None)"
begin

lemma step_refines:
  assumes "ok s" and "op_ok size valid x"
  shows "\<exists>r s'. ticket_step push look pop x s = Inr (r, s') \<and> ok s'
    \<and> ticket_spec size info x (cursor s, entries s) = (r, cursor s', entries s')"
proof (cases x)
  case (Push e)
  with assms show ?thesis
    using push_free [of s e] push_taken [of s e] by (cases "entries s (cursor s)") fastforce+
next
  case (Look i)
  with assms show ?thesis using look_ok [of s i] by auto
next
  case (Pop i)
  with assms show ?thesis using pop_ok [of s i] by fastforce
qed

lemma run_refines:
  assumes "ok s" and "list_all (op_ok size valid) xs"
  shows "\<exists>rs s'. ticket_run push look pop xs s = Inr (rs, s') \<and> ok s'
    \<and> ticket_spec_run size info xs (cursor s, entries s) = (rs, cursor s', entries s')"
  using assms
proof (induction xs arbitrary: s)
  case (Cons x xs)
  obtain r s1 where one: "ticket_step push look pop x s = Inr (r, s1)" "ok s1"
    "ticket_spec size info x (cursor s, entries s) = (r, cursor s1, entries s1)"
    using step_refines [of s x] Cons.prems by auto
  with Cons.IH [of s1] Cons.prems show ?case by (auto simp: Let_def)
qed simp

text \<open>A look-up with the ticket a push handed out returns the entry pushed, however many
  other entries are pushed, looked up or removed in between.\<close>

lemma spec_run_keeps:
  assumes "m t = Some e" and "Pop t \<notin> set xs"
    and "ticket_spec_run size info xs (c, m) = (rs, c', m')"
  shows "m' t = Some e"
  using assms
proof (induction xs arbitrary: c m rs)
  case (Cons x xs)
  obtain r c1 m1 where one: "ticket_spec size info x (c, m) = (r, c1, m1)"
    by (cases "ticket_spec size info x (c, m)") auto
  moreover have "m1 t = Some e"
    using Cons.prems(1,2) one by (cases x) (auto split: if_splits)
  ultimately show ?case
    using Cons.IH [of m1 c1] Cons.prems(2,3) by (auto simp: Let_def split: prod.splits)
qed simp

lemma look_after_push:
  assumes "ok s" and "valid e" and "entries s (cursor s) = None" and "cursor s < size"
    and "list_all (op_ok size valid) xs" and "Pop (cursor s) \<notin> set xs"
  shows "\<exists>s1 rs s2. push e s = Inr (int (cursor s), s1)
    \<and> ticket_run push look pop xs s1 = Inr (rs, s2) \<and> ok s2
    \<and> look (cursor s) s2 = Inr (Some (info e))"
proof -
  obtain s1 where s1: "push e s = Inr (int (cursor s), s1)" "ok s1"
    "entries s1 = (entries s)(cursor s \<mapsto> e)"
    using push_free [OF assms(1-3)] by blast
  obtain rs s2 where s2: "ticket_run push look pop xs s1 = Inr (rs, s2)" "ok s2"
    "ticket_spec_run size info xs (cursor s1, entries s1) = (rs, cursor s2, entries s2)"
    using run_refines [OF s1(2) assms(5)] by blast
  have "entries s2 (cursor s) = Some e"
    using spec_run_keeps [OF _ assms(6) s2(3)] s1(3) by simp
  then show ?thesis using s1(1) s2 look_ok [OF s2(2) assms(4)] by auto
qed

end

section \<open>The adapter keeps the contract\<close>

type_synonym pending = "IDtoAddr \<times> int \<times> cstring"
  \<comment> \<open>client, time of arrival, query up to its first zero byte\<close>

definition slot_ok :: "id_slot \<Rightarrow> bool" where
  "slot_ok s \<longleftrightarrow> length (sl_message s) = 1024"

definition adapter_ok :: "adapter \<Rightarrow> bool" where
  "adapter_ok ad \<longleftrightarrow> length (ad_data ad) = nat IDAadpter_SIZE \<and> list_all slot_ok (ad_data ad)
     \<and> unat (ad_next ad) < nat IDAadpter_SIZE \<and> ad_rwlock ad \<in> {Unlocked, Writing}"

definition adapter_cursor :: "adapter \<Rightarrow> nat" where
  "adapter_cursor ad = unat (ad_next ad)"

definition slot_entry :: "id_slot \<Rightarrow> pending option" where
  "slot_entry s = (if sl_valid s then Some (sl_info s, sl_start s, c_str (sl_message s)) else None)"

definition adapter_entries :: "adapter \<Rightarrow> nat \<rightharpoonup> pending" where
  "adapter_entries ad i = (if i < length (ad_data ad) then slot_entry (ad_data ad ! i) else None)"

definition pending_ok :: "pending \<Rightarrow> bool" where
  "pending_ok e \<longleftrightarrow> 0 \<notin> set (snd (snd e)) \<and> length (snd (snd e)) < 1024"

definition push_pending :: "bool \<Rightarrow> pending \<Rightarrow> adapter \<Rightarrow> (int \<times> adapter) result" where
  "push_pending edeadlk e = (case e of (i, time, q) \<Rightarrow>
     IDAdapter_push edeadlk (ia_old_id i) (ia_addr i) (ia_type i) time (q @ [0]))"

definition look_ticket :: "nat \<Rightarrow> adapter \<Rightarrow> IDtoAddr option result" where
  "look_ticket i = IDAdapter_get (of_nat i)"

definition pop_ticket :: "bool \<Rightarrow> nat \<Rightarrow> adapter \<Rightarrow> adapter result" where
  "pop_ticket edeadlk i = IDAdapter_pop edeadlk (of_nat i)"

lemma slot_index_ticket: "i < 1024 \<Longrightarrow> slot_index (of_nat i) = int i"
  by (simp add: slot_index_def IDAadpter_SIZE_def smod_int_alt_def unsigned_of_nat take_bit_eq_mod
      sgn_if uint_nat)

lemma slot_index_small: "uint pos < 32768 \<Longrightarrow> slot_index pos = uint pos mod 1024"
proof -
  assume "uint pos < 32768"
  then have "to_short (uint pos) = uint pos" by (intro to_short_id) (auto intro: order_trans [of _ 0])
  moreover have "uint pos = 0 \<or> 0 < uint pos" using uint_ge_0 [of pos] by linarith
  ultimately show ?thesis
    by (auto simp: slot_index_def IDAadpter_SIZE_def smod_int_alt_def sgn_if)
qed

lemma to_short_high: "x < 65536 \<Longrightarrow> 32768 \<le> x \<Longrightarrow> to_short x = x - 65536"
proof -
  assume x: "x < 65536" "32768 \<le> x"
  have "(x + 32768) mod 65536 = (x - 32768 + 65536) mod 65536" by (simp add: add.commute)
  also have "\<dots> = x - 32768" using x by (subst mod_add_self2, intro mod_pos_pos_trivial) auto
  finally show ?thesis by (simp add: to_short_def)
qed

lemma strcpy_ok:
  "0 \<in> set src \<Longrightarrow> length (c_str src) < length dest \<Longrightarrow>
    strcpy dest src = Inr (blit 0 (c_str src @ [0]) dest)"
  by (simp add: strcpy_def read_cstr_def write_bytes_def)

lemma c_str_blit [simp]: "c_str (blit 0 (c_str src @ [0]) dest) = c_str src"
  using c_str_append_zero [OF c_str_no_zero] by (simp add: blit_def)

lemma length_c_str_blit:
  "length (c_str src) < length dest \<Longrightarrow> length (blit 0 (c_str src @ [0]) dest) = length dest"
  by simp

lemma c_str_terminated [simp]: "0 \<notin> set q \<Longrightarrow> c_str (q @ [0]) = q"
  using c_str_append_zero [of q "[]"] by simp

lemma adapter_okD:
  assumes "adapter_ok ad"
  shows "length (ad_data ad) = 1024" and "unat (ad_next ad) < 1024"
    and "to_short (uint (ad_next ad)) = uint (ad_next ad)"
    and "i < 1024 \<Longrightarrow> length (sl_message (ad_data ad ! i)) = 1024"
proof -
  show len: "length (ad_data ad) = 1024" using assms by (simp add: adapter_ok_def IDAadpter_SIZE_def)
  show lt: "unat (ad_next ad) < 1024"
    using assms by (simp add: adapter_ok_def IDAadpter_SIZE_def)
  then have "int (unat (ad_next ad)) < int 1024" by (simp only: of_nat_less_iff)
  then have "uint (ad_next ad) < 1024" by simp
  then show "to_short (uint (ad_next ad)) = uint (ad_next ad)"
    by (intro to_short_id) (auto intro: order_trans [of _ 0])
  show "length (sl_message (ad_data ad ! i)) = 1024" if "i < 1024"
    using assms len that by (simp add: adapter_ok_def list_all_length slot_ok_def)
qed

lemma arr_get_uint [simp]: "unat w < length xs \<Longrightarrow> arr_get xs (uint w) = Inr (xs ! unat w)" for w :: u16
  using arr_get_nat [of "unat w" xs] by simp

lemma wrlock_ok: "adapter_ok ad \<Longrightarrow> rwlock_wrlock True (ad_rwlock ad) = Inr Writing"
  by (auto simp: adapter_ok_def)

lemma next_slot:
  "unat c < 1024 \<Longrightarrow> unat (of_int ((uint c + 1) smod 1024) :: u16) = Suc (unat c) mod 1024"
  for c :: u16
proof -
  assume "unat c < 1024"
  define n where "n = unat c"
  have "uint c = int n" by (simp add: n_def)
  then have "(uint c + 1) smod 1024 = int (Suc n mod 1024)"
    by (simp add: smod_int_alt_def sgn_if zmod_int add.commute)
  moreover have "unat (of_nat (Suc n mod 1024) :: u16) = Suc n mod 1024"
    by (simp only: unsigned_of_nat take_bit_eq_mod) simp
  ultimately show ?thesis by (simp add: n_def of_int_of_nat_eq)
qed

lemma slots_update:
  "list_all slot_ok ss \<Longrightarrow> slot_ok s \<Longrightarrow> list_all slot_ok (ss[i := s])"
  by (auto simp: list_all_iff dest: set_update_subset_insert [THEN subsetD])

lemma entries_update:
  "i < length (ad_data ad) \<Longrightarrow>
    adapter_entries (ad\<lparr>ad_data := (ad_data ad)[i := s]\<rparr>) = (adapter_entries ad)(i := slot_entry s)"
  by (auto simp: adapter_entries_def)

lemma entries_cong:
  "ad_data ad' = ad_data ad \<Longrightarrow> adapter_entries ad' = adapter_entries ad"
  by (simp add: adapter_entries_def fun_eq_iff)

lemma push_free_slot:
  assumes "adapter_ok ad" and "adapter_entries ad (adapter_cursor ad) = None"
    and "0 \<in> set buffer" and "length (c_str buffer) < 1024"
    and "rwlock_wrlock b (ad_rwlock ad) = Inr Writing"
  shows "\<exists>ad'. IDAdapter_push b i source rtype time buffer ad = Inr (int (adapter_cursor ad), ad')
    \<and> adapter_ok ad' \<and> ad_rwlock ad' = Unlocked \<and> adapter_cursor ad' = Suc (adapter_cursor ad) mod 1024
    \<and> adapter_entries ad' = (adapter_entries ad)(adapter_cursor ad \<mapsto>
        (\<lparr>ia_addr = source, ia_old_id = i, ia_type = rtype\<rparr>, time, c_str buffer))"
proof -
  let ?n = "unat (ad_next ad)"
  note ok = adapter_okD [OF assms(1)]
  define slot where "slot = \<lparr>sl_info = \<lparr>ia_addr = source, ia_old_id = i, ia_type = rtype\<rparr>,
    sl_valid = True, sl_start = time,
    sl_message = blit 0 (c_str buffer @ [0]) (sl_message (ad_data ad ! ?n))\<rparr>"
  define ad' where "ad' = ad\<lparr>ad_data := (ad_data ad)[?n := slot],
    ad_next := of_int ((uint (ad_next ad) + 1) smod 1024), ad_rwlock := Unlocked\<rparr>"
  have invalid: "\<not> sl_valid (ad_data ad ! ?n)"
    using assms(2) ok(1,2) by (simp add: adapter_entries_def adapter_cursor_def slot_entry_def split: if_splits)
  have cpy: "strcpy (sl_message (ad_data ad ! ?n)) buffer = Inr (sl_message slot)"
    using assms(3,4) ok(2) ok(4) [of ?n] by (simp add: strcpy_ok slot_def)
  have run: "IDAdapter_push b i source rtype time buffer ad = Inr (int ?n, ad')"
    using ok(1-3) invalid cpy assms(5)
    by (simp add: IDAdapter_push_def Let_def ad'_def slot_def IDAadpter_SIZE_def)
  have "slot_ok slot" using assms(4) ok(2) ok(4) [of ?n] by (simp add: slot_ok_def slot_def)
  then have "list_all slot_ok ((ad_data ad)[?n := slot])"
    using assms(1) by (auto simp: adapter_ok_def intro: slots_update)
  moreover have cur: "unat (ad_next ad') = Suc ?n mod 1024"
    unfolding ad'_def using next_slot [OF ok(2)] by simp
  ultimately have "adapter_ok ad'"
    using ok(1) by (simp add: adapter_ok_def ad'_def IDAadpter_SIZE_def)
  moreover have "adapter_entries ad' = (adapter_entries ad)(?n := slot_entry slot)"
    using entries_update [of ?n ad slot] entries_cong [of ad' "ad\<lparr>ad_data := (ad_data ad)[?n := slot]\<rparr>"]
      ok(1,2) by (simp add: ad'_def)
  moreover have "slot_entry slot
      = Some (\<lparr>ia_addr = source, ia_old_id = i, ia_type = rtype\<rparr>, time, c_str buffer)"
    by (simp add: slot_entry_def slot_def)
  ultimately show ?thesis using run cur by (simp add: adapter_cursor_def ad'_def)
qed

lemma push_taken_slot:
  assumes "adapter_ok ad" and "adapter_entries ad (adapter_cursor ad) = Some d"
    and "rwlock_wrlock b (ad_rwlock ad) = Inr Writing"
  shows "IDAdapter_push b i source rtype time buffer ad = Inr (- 1, ad\<lparr>ad_rwlock := Writing\<rparr>)"
    and "adapter_ok (ad\<lparr>ad_rwlock := Writing\<rparr>)"
  using adapter_okD(1-3) [OF assms(1)] assms
  by (auto simp: IDAdapter_push_def Let_def adapter_entries_def adapter_cursor_def slot_entry_def
      adapter_ok_def split: if_splits)

lemma slot_index_less: "slot_index pos < 1024"
  using smod_int_range [of 1024 "to_short (uint pos)"] by (simp add: slot_index_def IDAadpter_SIZE_def)

lemma get_entry:
  assumes "adapter_ok ad" and "0 \<le> slot_index pos"
  shows "IDAdapter_get pos ad = Inr (map_option fst (adapter_entries ad (nat (slot_index pos))))"
  using adapter_okD(1) [OF assms(1)] assms(2) slot_index_less [of pos]
  by (simp add: IDAdapter_get_def adapter_entries_def slot_entry_def nat_less_iff)

lemma pop_entry:
  assumes "adapter_ok ad" and "0 \<le> slot_index pos"
    and "rwlock_rdlock b (ad_rwlock ad) = Inr l" and "rwlock_unlock l = Inr Unlocked"
  shows "\<exists>ad'. IDAdapter_pop b pos ad = Inr ad' \<and> adapter_ok ad' \<and> ad_rwlock ad' = Unlocked
    \<and> adapter_cursor ad' = adapter_cursor ad
    \<and> adapter_entries ad' = (adapter_entries ad)(nat (slot_index pos) := None)"
proof -
  define i where "i = nat (slot_index pos)"
  have i: "slot_index pos = int i" "i < 1024"
    using slot_index_less [of pos] assms(2) by (auto simp: i_def nat_less_iff)
  define slot where "slot = (ad_data ad ! i)\<lparr>sl_valid := False\<rparr>"
  define ad' where "ad' = ad\<lparr>ad_data := (ad_data ad)[i := slot], ad_rwlock := Unlocked\<rparr>"
  have run: "IDAdapter_pop b pos ad = Inr ad'"
    using assms(3,4) i adapter_okD(1) [OF assms(1)]
    by (simp add: IDAdapter_pop_def ad'_def slot_def arr_set_def)
  have "slot_ok slot" using i adapter_okD(4) [OF assms(1)] by (simp add: slot_ok_def slot_def)
  then have "list_all slot_ok ((ad_data ad)[i := slot])"
    using assms(1) by (auto simp: adapter_ok_def intro: slots_update)
  then have "adapter_ok ad'" using assms(1) by (simp add: adapter_ok_def ad'_def)
  moreover have "adapter_entries ad' = (adapter_entries ad)(i := slot_entry slot)"
    using entries_update [of i ad slot] entries_cong [of ad' "ad\<lparr>ad_data := (ad_data ad)[i := slot]\<rparr>"]
      i adapter_okD(1) [OF assms(1)] by (simp add: ad'_def)
  ultimately show ?thesis
    using run by (simp add: i_def adapter_cursor_def ad'_def slot_entry_def slot_def)
qed

lemma rdlock_ok: "adapter_ok ad \<Longrightarrow>
    \<exists>l. rwlock_rdlock True (ad_rwlock ad) = Inr l \<and> rwlock_unlock l = Inr Unlocked"
  by (auto simp: adapter_ok_def)

interpretation glibc: ticket_table adapter_ok 1024 adapter_cursor adapter_entries pending_ok fst
  "push_pending True" look_ticket "pop_ticket True"
proof unfold_locales
  fix ad i and d e :: pending
  assume ok: "adapter_ok ad"
  obtain c time q where e: "e = (c, time, q)" by (cases e) auto
  show "\<exists>s'. push_pending True e ad = Inr (int (adapter_cursor ad), s') \<and> adapter_ok s'
      \<and> adapter_cursor s' = Suc (adapter_cursor ad) mod 1024
      \<and> adapter_entries s' = (adapter_entries ad)(adapter_cursor ad \<mapsto> e)"
    if "pending_ok e" "adapter_entries ad (adapter_cursor ad) = None"
    using push_free_slot [OF ok that(2) _ _ wrlock_ok [OF ok],
        of "q @ [0]" "ia_old_id c" "ia_addr c" "ia_type c" time] that(1)
    by (cases c) (auto simp: push_pending_def pending_ok_def e)
  show "\<exists>s'. push_pending True e ad = Inr (- 1, s') \<and> adapter_ok s'
      \<and> adapter_cursor s' = adapter_cursor ad \<and> adapter_entries s' = adapter_entries ad"
    if "adapter_entries ad (adapter_cursor ad) = Some d"
    using push_taken_slot [OF ok that wrlock_ok [OF ok]]
    by (auto simp: push_pending_def e adapter_cursor_def intro: entries_cong)
  show "look_ticket i ad = Inr (map_option fst (adapter_entries ad i))" if "i < 1024"
    using get_entry [OF ok, of "of_nat i"] that by (simp add: look_ticket_def slot_index_ticket)
  show "\<exists>s'. pop_ticket True i ad = Inr s' \<and> adapter_ok s' \<and> adapter_cursor s' = adapter_cursor ad
      \<and> adapter_entries s' = (adapter_entries ad)(i := None)" if "i < 1024"
    using rdlock_ok [OF ok] pop_entry [OF ok, of "of_nat i" True] that
    by (auto simp: pop_ticket_def slot_index_ticket)
qed

lemma init_adapter_ok [simp]: "adapter_ok init_adapter"
  and init_adapter_cursor [simp]: "adapter_cursor init_adapter = 0"
  and init_adapter_entries [simp]: "adapter_entries init_adapter = Map.empty"
  by (simp_all add: adapter_ok_def init_adapter_def IDAadpter_SIZE_def slot_ok_def zero_slot_def
      list_all_iff adapter_cursor_def adapter_entries_def fun_eq_iff slot_entry_def)

section \<open>Properties\<close>



text \<open>A query that \<open>IDAdapter_push\<close> accepts is found again by \<open>IDAdapter_get\<close> under the id it
  was given, with the client's address, id and type, after any sequence of other calls that does
  not remove that id.\<close>

theorem adapter_finds_client:
  assumes "adapter_ok ad" and "pending_ok (i, time, q)"
    and "adapter_entries ad (adapter_cursor ad) = None"
    and "list_all (op_ok 1024 pending_ok) xs" and "Pop (adapter_cursor ad) \<notin> set xs"
  shows "\<exists>ad1 rs ad2.
    IDAdapter_push True (ia_old_id i) (ia_addr i) (ia_type i) time (q @ [0]) ad = Inr (int (adapter_cursor ad), ad1)
    \<and> ticket_run (push_pending True) look_ticket (pop_ticket True) xs ad1 = Inr (rs, ad2)
    \<and> adapter_ok ad2 \<and> IDAdapter_get (of_nat (adapter_cursor ad)) ad2 = Inr (Some i)"
  using glibc.look_after_push [OF assms(1-3) _ assms(4,5)] adapter_okD(2) [OF assms(1)]
  by (simp add: push_pending_def look_ticket_def adapter_cursor_def)

theorem adapter_finds_client_witness:
  "\<exists>ad1 rs ad2. IDAdapter_push True 7 [10, 0, 0, 1] 1 5 ([1, 7, 1] @ [0]) init_adapter = Inr (0, ad1)
    \<and> ticket_run (push_pending True) look_ticket (pop_ticket True) [Pop 3, Look 0] ad1 = Inr (rs, ad2)
    \<and> adapter_ok ad2
    \<and> IDAdapter_get 0 ad2 = Inr (Some \<lparr>ia_addr = [10, 0, 0, 1], ia_old_id = 7, ia_type = 1\<rparr>)"
  using adapter_finds_client [of init_adapter "\<lparr>ia_addr = [10, 0, 0, 1], ia_old_id = 7, ia_type = 1\<rparr>" 5
      "[1, 7, 1]" "[Pop 3, Look 0]"]
  by (simp add: pending_ok_def)

text \<open>C34. When the slot in turn is still in use, \<open>IDAdapter_push\<close> answers -1 and returns with the
  lock held. If a thread that asks again for a lock it holds blocks, the next push and the next
  pop never return; if it is refused, the next pop releases the lock.\<close>

theorem adapter_full_keeps_lock:
  assumes "adapter_ok ad" and "ad_rwlock ad = Unlocked"
    and "adapter_entries ad (adapter_cursor ad) = Some e"
  defines "full \<equiv> ad\<lparr>ad_rwlock := Writing\<rparr>"
  shows "IDAdapter_push edeadlk i source rtype time buffer ad = Inr (- 1, full)
    \<and> IDAdapter_push False i' source' rtype' time' buffer' full = Inl SelfDeadlock
    \<and> IDAdapter_pop False pos full = Inl SelfDeadlock
    \<and> (\<exists>ad'. IDAdapter_pop True 0 full = Inr ad' \<and> ad_rwlock ad' = Unlocked)"
proof -
  have "IDAdapter_push edeadlk i source rtype time buffer ad = Inr (- 1, full)" "adapter_ok full"
    using push_taken_slot [OF assms(1,3), of edeadlk] assms(2) by (simp_all add: full_def)
  moreover have "slot_index 0 = 0" using slot_index_ticket [of 0] by simp
  ultimately show ?thesis
    using pop_entry [of full 0 True Writing]
    by (auto simp: IDAdapter_push_def IDAdapter_pop_def full_def)
qed

text \<open>An adapter whose slot in turn is in use.\<close>

definition busy_adapter :: adapter where
  "busy_adapter = init_adapter\<lparr>ad_data := (ad_data init_adapter)[0 := zero_slot\<lparr>sl_valid := True\<rparr>]\<rparr>"

lemma busy_adapter_ok:
  shows "adapter_ok busy_adapter" and "ad_rwlock busy_adapter = Unlocked"
    and "adapter_entries busy_adapter (adapter_cursor busy_adapter)
      = Some (sl_info zero_slot, 0, c_str (sl_message zero_slot))"
proof -
  have "list_all slot_ok ((ad_data init_adapter)[0 := zero_slot\<lparr>sl_valid := True\<rparr>])"
    by (rule slots_update)
      (simp_all add: init_adapter_def IDAadpter_SIZE_def slot_ok_def zero_slot_def list_all_iff)
  then show "adapter_ok busy_adapter"
    by (simp add: busy_adapter_def adapter_ok_def init_adapter_def IDAadpter_SIZE_def)
qed (simp_all add: busy_adapter_def init_adapter_def IDAadpter_SIZE_def zero_slot_def
      adapter_entries_def adapter_cursor_def slot_entry_def)

theorem adapter_full_keeps_lock_witness:
  "IDAdapter_push False 7 [10, 0, 0, 1] 1 5 [1, 7, 0] busy_adapter = Inr (- 1, busy_adapter\<lparr>ad_rwlock := Writing\<rparr>)
    \<and> IDAdapter_pop False 0 (busy_adapter\<lparr>ad_rwlock := Writing\<rparr>) = Inl SelfDeadlock"
  using adapter_full_keeps_lock [OF busy_adapter_ok, of False 7 "[10, 0, 0, 1]" 1 5 "[1, 7, 0]"] by blast

text \<open>A response whose id has the top bit set and is not a multiple of 1024 makes the adapter
  access memory in front of its table: the id becomes a negative \<open>short\<close> and its remainder a
  negative index.\<close>

theorem adapter_negative_id:
  assumes "32768 \<le> uint pos" and "uint pos mod 1024 \<noteq> 0"
  shows "IDAdapter_get pos ad = Inl OutOfBounds"
proof -
  have "uint pos < 65536" using uint_lt2p [of pos] by simp
  then have short: "to_short (uint pos) = uint pos - 65536" using assms(1) by (rule to_short_high)
  have "0 < (65536 - uint pos) mod 1024"
  proof (rule ccontr)
    assume "\<not> 0 < (65536 - uint pos) mod 1024"
    then have "1024 dvd 65536 - uint pos" using pos_mod_sign [of 1024 "65536 - uint pos"] by (simp add: dvd_eq_mod_eq_0)
    moreover have "(1024 :: int) dvd 65536" by simp
    ultimately have "1024 dvd 65536 - (65536 - uint pos)" using dvd_diff by blast
    then have "1024 dvd uint pos" by (simp only: diff_diff_eq2 add_diff_cancel_left' diff_add_cancel)
    with assms(2) show False by (simp add: dvd_eq_mod_eq_0)
  qed
  then have "slot_index pos < 0"
    using \<open>uint pos < 65536\<close> by (simp add: slot_index_def short IDAadpter_SIZE_def smod_int_alt_def sgn_if)
  then show ?thesis by (simp add: IDAdapter_get_def arr_get_def)
qed

theorem adapter_negative_id_witness: "IDAdapter_get 0xFFFF init_adapter = Inl OutOfBounds"
  by (rule adapter_negative_id) simp_all

end
