(* ===== verification/Relay.thy ===== *)
theory Relay
  imports IdAdapter StaticCache DnsCodec LruSpec
begin

text \<open>
  The relay loop, \<open>main\<close> of \<open>src/src/main.c\<close>: pending queries that timed out, responses from the
  upstream server, and requests from clients.

  The state is what survives an iteration: the caches, the ID adapter, the receive buffer, the
  address of the upstream server and the locals that are read before they are written. What the
  operating system supplies is input of a step: the datagrams, the results of \<open>time\<close> and
  \<open>clock\<close>. What a step hands to \<open>sendto\<close> is its output; a failing \<open>sendto\<close> is only logged.
\<close>

section \<open>Model\<close>

datatype sock = Server_sockfd | Query_sockfd

type_synonym packet = "sock \<times> byte list \<times> byte list"
  \<comment> \<open>socket, destination address, payload\<close>

datatype recv = RecvError | Recv "byte list" "byte list"
  \<comment> \<open>payload and source address of a datagram\<close>

record relay =
  rl_caches :: cacheset
  rl_adapter :: adapter
  rl_buffer :: "byte list"         \<comment> \<open>\<open>recv_buffer\<close>, 1024 bytes\<close>
  rl_query_server :: "byte list"   \<comment> \<open>a \<open>struct sockaddr_in\<close>\<close>
  rl_cliaddr :: "byte list"
  rl_len :: nat                    \<comment> \<open>the address length passed to \<open>recvfrom\<close>\<close>
  rl_question :: question
  rl_ans :: "answer list"          \<comment> \<open>\<open>ans[20]\<close>\<close>

definition DNS_TTL :: int where "DNS_TTL = 1000"
definition ADDR_LEN :: nat where "ADDR_LEN = 16"
definition TMP_ANS :: nat where "TMP_ANS = 10"  \<comment> \<open>\<open>tmp_ans_data[10]\<close>\<close>

text \<open>\<open>recvfrom\<close> stores at most \<open>MAX_DNS_SIZE\<close> bytes of the payload at the start of the buffer,
  and as much of the source address as the length passed in allows.\<close>

definition recv_payload :: "byte list \<Rightarrow> byte list" where
  "recv_payload payload = take (nat MAX_DNS_SIZE) payload"

definition store_addr :: "nat \<Rightarrow> byte list \<Rightarrow> byte list \<Rightarrow> byte list" where
  "store_addr len src old = take len src @ drop (min len (length src)) old"

definition send_bytes :: "byte list \<Rightarrow> int \<Rightarrow> byte list result" where
  "send_bytes buf n = (if 0 \<le> n \<and> n \<le> int (length buf) then Inr (take (nat n) buf) else Inl OutOfBounds)"

subsection \<open>Timeouts\<close>

text \<open>The scan over the adapter when \<open>select\<close> reports no socket; \<open>clk i\<close> is the clock when slot
  \<open>i\<close> is examined. The reply is as long as \<open>strlen\<close> of the stored message.\<close>

definition expire_slot :: "int \<Rightarrow> id_slot \<Rightarrow> (packet list \<times> id_slot) result" where
  "expire_slot now slot =
     (if sl_valid slot \<and> now - sl_start slot \<ge> DNS_TTL then
        bindE (set_header_flag (sl_message slot) FLAG_RESPONSE_NORMAL) (\<lambda>message.
        bindE (set_header_rcode_refused message) (\<lambda>message.
        bindE (read_cstr message) (\<lambda>text.
        Inr ([(Server_sockfd, ia_addr (sl_info slot), text)],
             slot\<lparr>sl_message := message, sl_valid := False\<rparr>))))
      else Inr ([], slot))"

fun expire_slots :: "(nat \<Rightarrow> int) \<Rightarrow> nat \<Rightarrow> id_slot list \<Rightarrow> (packet list \<times> id_slot list) result" where
  "expire_slots clk i [] = Inr ([], [])"
| "expire_slots clk i (slot # slots) =
     bindE (expire_slot (clk i) slot) (\<lambda>(out, slot).
     bindE (expire_slots clk (Suc i) slots) (\<lambda>(outs, slots).
     Inr (out @ outs, slot # slots)))"

definition handle_timeouts :: "(nat \<Rightarrow> int) \<Rightarrow> relay \<Rightarrow> (packet list \<times> relay) result" where
  "handle_timeouts clk st =
     bindE (expire_slots clk 0 (ad_data (rl_adapter st))) (\<lambda>(outs, slots).
     Inr (outs, st\<lparr>rl_adapter := (rl_adapter st)\<lparr>ad_data := slots\<rparr>\<rparr>))"

subsection \<open>Responses from the upstream server\<close>

text \<open>The loop that copies the answers to \<open>tmp_ans_data\<close>; \<open>label\<close> is the text of
  \<open>question.label\<close>, which all elements point to.\<close>

fun collect_answers :: "int \<Rightarrow> cstring \<Rightarrow> nat \<Rightarrow> nat \<Rightarrow> answer list \<Rightarrow> record_data list result" where
  "collect_answers now label count 0 ans = Inr []"
| "collect_answers now label count (Suc n) [] = Inl OutOfBounds"
| "collect_answers now label count (Suc n) (a # as) =
     (if count < TMP_ANS then
        bindE (collect_answers now label (Suc count) n as) (\<lambda>ds.
        Inr (\<lparr>rd_label = label, rd_ip = a_address a, rd_ttl = now + uint (a_ttl a)\<rparr> # ds))
      else Inl OutOfBounds)"

definition set_A_temp :: "cache \<Rightarrow> cacheset \<Rightarrow> cacheset" where
  "set_A_temp c cs = cs\<lparr>cs_A := (cs_A cs)\<lparr>cc_temp := c\<rparr>\<rparr>"

definition set_AAAA_temp :: "cache \<Rightarrow> cacheset \<Rightarrow> cacheset" where
  "set_AAAA_temp c cs = cs\<lparr>cs_AAAA := (cs_AAAA cs)\<lparr>cc_temp := c\<rparr>\<rparr>"

text \<open>The records of a response go to the cache of the type that was asked for. \<open>now\<close> is the
  reading the expiry times are counted from, \<open>now'\<close> the one taken inside the cache.\<close>

definition cache_response :: "int \<Rightarrow> int \<Rightarrow> byte \<Rightarrow> relay \<Rightarrow> relay prog" where
  "cache_response now now' rtype st =
     bindP (read_dns_answers (rl_ans st) (rl_buffer st)) (\<lambda>(ans_num, ans).
     let st = st\<lparr>rl_ans := ans\<rparr> in
     if ans_num > 0 then
       bindP (read_dns_question (rl_question st) (rl_buffer st) 12) (\<lambda>(_, qu).
       let st = st\<lparr>rl_question := qu\<rparr> in
       bindP (Some (read_cstr (q_label qu))) (\<lambda>label.
       bindP (Some (collect_answers now label 0 (nat ans_num) ans)) (\<lambda>send_data.
       if uint rtype = rrtype_val RRTYPE_A then
         bindP (set_cache_A_multi_record now' label send_data (cc_temp (cs_A (rl_caches st)))) (\<lambda>(_, c).
         Some (Inr (st\<lparr>rl_caches := set_A_temp c (rl_caches st)\<rparr>)))
       else
         bindP (set_cache_A_multi_record now' label send_data (cc_temp (cs_AAAA (rl_caches st)))) (\<lambda>(_, c).
         Some (Inr (st\<lparr>rl_caches := set_AAAA_temp c (rl_caches st)\<rparr>))))))
     else Some (Inr st))"

definition handle_relay :: "bool \<Rightarrow> int \<Rightarrow> int \<Rightarrow> recv \<Rightarrow> relay \<Rightarrow> (packet list \<times> relay) prog" where
  "handle_relay edeadlk now now' r st = (case r of RecvError \<Rightarrow> Some (Inr ([], st))
   | Recv payload src \<Rightarrow>
     let payload = recv_payload payload; total_size = length payload;
         st = st\<lparr>rl_buffer := blit 0 payload (rl_buffer st),
                 rl_query_server := store_addr (rl_len st) src (rl_query_server st),
                 rl_len := length src\<rparr>
     in
     bindP (Some (read_dns_header (rl_buffer st))) (\<lambda>(_, header).
     bindP (Some (IDAdapter_get (hd_id header) (rl_adapter st))) (\<lambda>iptoaddr.
     case iptoaddr of None \<Rightarrow> Some (Inr ([], st))
     | Some info \<Rightarrow>
       bindP (if uint (ia_type info) = rrtype_val RRTYPE_A \<or> uint (ia_type info) = rrtype_val RRTYPE_AAAA
              then cache_response now now' (ia_type info) st else Some (Inr st)) (\<lambda>st.
       Some (
         bindE (set_header_id (rl_buffer st) (ia_old_id info)) (\<lambda>buffer.
         bindE (IDAdapter_pop edeadlk (hd_id header) (rl_adapter st)) (\<lambda>ad.
         Inr ([(Server_sockfd, ia_addr info, take total_size buffer)],
              st\<lparr>rl_buffer := buffer, rl_adapter := ad\<rparr>))))))))"

subsection \<open>Requests from clients\<close>

definition refuse :: "(byte list \<Rightarrow> byte list result) \<Rightarrow> nat \<Rightarrow> relay \<Rightarrow> (packet list \<times> relay) result" where
  "refuse set_code n st =
     bindE (set_header_flag (rl_buffer st) FLAG_RESPONSE_NORMAL) (\<lambda>buffer.
     bindE (set_code buffer) (\<lambda>buffer.
     Inr ([(Server_sockfd, rl_cliaddr st, take n buffer)], st\<lparr>rl_buffer := buffer\<rparr>)))"

text \<open>Filling \<open>ans[count]\<close> from a record: the address, the time to live, and the question's name,
  type and class.\<close>

definition fill_answer :: "question \<Rightarrow> answer list \<Rightarrow> int \<Rightarrow> IP \<Rightarrow> int \<Rightarrow> answer list result" where
  "fill_answer qu ans count ip ttl =
     bindE (arr_get ans count) (\<lambda>a.
     bindE (strcpy (a_name a) (q_label qu)) (\<lambda>name.
     arr_set ans count (a\<lparr>a_name := name, a_address := ip, a_ttl := of_int ttl, a_type := q_qtype qu,
       a_class := q_qclass qu, a_has_cname := False\<rparr>)))"

fun fill_static :: "question \<Rightarrow> int \<Rightarrow> IP list \<Rightarrow> answer list \<Rightarrow> (int \<times> answer list) result" where
  "fill_static qu count [] ans = Inr (count, ans)"
| "fill_static qu count (ip # ips) ans =
     bindE (fill_answer qu ans count ip 3600) (\<lambda>ans. fill_static qu (count + 1) ips ans)"

fun fill_cached :: "int \<Rightarrow> question \<Rightarrow> int \<Rightarrow> record_data list \<Rightarrow> answer list
    \<Rightarrow> (int \<times> answer list) result" where
  "fill_cached now qu count [] ans = Inr (count, ans)"
| "fill_cached now qu count (d # ds) ans =
     bindE (fill_answer qu ans count (rd_ip d) (rd_ttl d - now)) (\<lambda>ans.
     fill_cached now qu (count + 1) ds ans)"

text \<open>The two look-ups, static first; \<open>tget\<close> is the time inside the cache look-up.\<close>

definition look_up :: "int \<Rightarrow> question \<Rightarrow> cstring \<Rightarrow> cacheset \<Rightarrow> (IP list \<times> record_data list \<times> cacheset) result" where
  "look_up tget qu label cs =
     (if uint (q_qtype qu) = rrtype_val RRTYPE_A then
        bindE (get_static_cache (cc_local (cs_A cs)) label) (\<lambda>p.
        bindE (static_chain (cc_local (cs_A cs)) p) (\<lambda>ips.
        if p \<noteq> None then Inr (ips, [], cs)
        else bindE (get_cache_A_record tget label (cc_temp (cs_A cs))) (\<lambda>(ds, c).
          Inr ([], ds, set_A_temp c cs))))
      else if uint (q_qtype qu) = rrtype_val RRTYPE_AAAA then
        bindE (get_static_cache (cc_local (cs_AAAA cs)) label) (\<lambda>p.
        bindE (static_chain (cc_local (cs_AAAA cs)) p) (\<lambda>ips.
        if p \<noteq> None then Inr (ips, [], cs)
        else bindE (get_cache_A_record tget label (cc_temp (cs_AAAA cs))) (\<lambda>(ds, c).
          Inr ([], ds, set_AAAA_temp c cs))))
      else Inr ([], [], cs))"

text \<open>The reply out of the caches, and passing the request on. \<open>rec\<close> is the size of the request.\<close>

definition reply_cached :: "int \<Rightarrow> relay \<Rightarrow> (packet list \<times> relay) prog" where
  "reply_cached count st =
     bindP (write_dns_response_by_query (rl_buffer st) (rl_ans st) (of_int count)) (\<lambda>(n, buffer).
     bindP (Some (send_bytes buffer n)) (\<lambda>bytes.
     Some (Inr ([(Server_sockfd, rl_cliaddr st, bytes)], st\<lparr>rl_buffer := buffer\<rparr>))))"

definition forward :: "bool \<Rightarrow> int \<Rightarrow> u16 \<Rightarrow> nat \<Rightarrow> relay \<Rightarrow> (packet list \<times> relay) result" where
  "forward edeadlk clk i rec st =
     bindE (arr_set (rl_buffer st) (int rec) 0) (\<lambda>buffer.
     bindE (IDAdapter_push edeadlk i (rl_cliaddr st) (ucast (q_qtype (rl_question st))) clk buffer
         (rl_adapter st)) (\<lambda>(new_id, ad).
     let st = st\<lparr>rl_buffer := buffer, rl_adapter := ad\<rparr> in
     if new_id \<noteq> - 1 then
       bindE (set_header_id buffer (of_int new_id)) (\<lambda>buffer.
       Inr ([(Query_sockfd, rl_query_server st, take rec buffer)],
            st\<lparr>rl_buffer := buffer, rl_len := ADDR_LEN\<rparr>))
     else Inr ([], st)))"

definition answer_request :: "bool \<Rightarrow> int \<Rightarrow> int \<Rightarrow> int \<Rightarrow> u16 \<Rightarrow> nat \<Rightarrow> relay \<Rightarrow> (packet list \<times> relay) prog" where
  "answer_request edeadlk tget now clk i rec st =
     bindP (read_dns_questions (rl_question st) (rl_buffer st)) (\<lambda>(_, qu).
     let st = st\<lparr>rl_question := qu\<rparr> in
     bindP (Some (read_cstr (q_label qu))) (\<lambda>label.
     bindP (Some (get_static_cache (cs_blacklist (rl_caches st)) label)) (\<lambda>black.
     if black \<noteq> None then Some (refuse set_header_rcode_name_error rec st)
     else
       bindP (Some (look_up tget qu label (rl_caches st))) (\<lambda>(ips, ds, cs).
       let st = st\<lparr>rl_caches := cs\<rparr> in
       bindP (Some (if ips \<noteq> [] then fill_static qu 0 ips (rl_ans st)
                    else fill_cached now qu 0 ds (rl_ans st))) (\<lambda>(count, ans).
       let st = st\<lparr>rl_ans := ans\<rparr> in
       if count \<noteq> 0 then reply_cached count st
       else Some (forward edeadlk clk i rec st))))))"

text \<open>A request that is not a query is answered with a refusal and then handled like any other.\<close>

definition handle_request :: "bool \<Rightarrow> int \<Rightarrow> int \<Rightarrow> int \<Rightarrow> recv \<Rightarrow> relay \<Rightarrow> (packet list \<times> relay) prog" where
  "handle_request edeadlk tget now clk r st = (case r of RecvError \<Rightarrow> Some (Inr ([], st))
   | Recv payload src \<Rightarrow>
     let payload = recv_payload payload; rec = length payload;
         st = st\<lparr>rl_buffer := blit 0 payload (rl_buffer st),
                 rl_cliaddr := store_addr ADDR_LEN src (rl_cliaddr st), rl_len := length src\<rparr>
     in
     bindP (Some (read_dns_header (rl_buffer st))) (\<lambda>(_, header).
     bindP (Some (if hd_flags header \<noteq> swap16 FLAG_QUERY then refuse set_header_rcode_refused rec st
                  else Inr ([], st))) (\<lambda>(out, st).
     bindP (answer_request edeadlk tget now clk (hd_id header) rec st) (\<lambda>(outs, st).
     Some (Inr (out @ outs, st))))))"

subsection \<open>The loop\<close>

text \<open>What \<open>select\<close> reports: an error, a timeout, or the datagrams waiting on the two sockets. The
  readings of the clocks belong to the iteration.\<close>

record clocks =
  ck_scan :: "nat \<Rightarrow> int"
  ck_now :: int
  ck_cache :: int
  ck_get :: int
  ck_reply :: int
  ck_push :: int

datatype selected = SelectError | SelectTimeout | Selected "recv option" "recv option"

definition loop_body :: "bool \<Rightarrow> clocks \<Rightarrow> selected \<Rightarrow> relay \<Rightarrow> (packet list \<times> relay) prog" where
  "loop_body edeadlk ck sel st = (case sel of
     SelectError \<Rightarrow> Some (Inr ([], st))
   | SelectTimeout \<Rightarrow> Some (handle_timeouts (ck_scan ck) st)
   | Selected query server \<Rightarrow>
       bindP (case query of None \<Rightarrow> Some (Inr ([], st))
              | Some r \<Rightarrow> handle_relay edeadlk (ck_now ck) (ck_cache ck) r st) (\<lambda>(out, st).
       bindP (case server of None \<Rightarrow> Some (Inr ([], st))
              | Some r \<Rightarrow> handle_request edeadlk (ck_get ck) (ck_reply ck) (ck_push ck) r st) (\<lambda>(outs, st).
       Some (Inr (out @ outs, st)))))"

fun run_loop :: "bool \<Rightarrow> (clocks \<times> selected) list \<Rightarrow> relay \<Rightarrow> (packet list \<times> relay) prog" where
  "run_loop edeadlk [] st = Some (Inr ([], st))"
| "run_loop edeadlk ((ck, sel) # xs) st =
     bindP (loop_body edeadlk ck sel st) (\<lambda>(out, st).
     bindP (run_loop edeadlk xs st) (\<lambda>(outs, st). Some (Inr (out @ outs, st))))"

end
