(* ===== verification/RelayProofs.thy ===== *)
theory RelayProofs
  imports Relay DnsProperties
begin

text \<open>
  What one step of the relay does to a well-formed request or response: the lemmas behind the
  properties of \<open>src/src/main.c\<close>.
\<close>

section \<open>Views of the state\<close>

definition local_view :: "staticCache \<Rightarrow> cstring \<Rightarrow> IP list" where
  "local_view C label = (if sc_is_init C then static_contents C label else [])"

text \<open>The cache pair a question type is answered from.\<close>

definition compound :: "u16 \<Rightarrow> cacheset \<Rightarrow> cacheCompound option" where
  "compound t cs = (if t = 1 then Some (cs_A cs) else if t = 28 then Some (cs_AAAA cs) else None)"

definition local_records :: "u16 \<Rightarrow> cacheset \<Rightarrow> cstring \<Rightarrow> IP list" where
  "local_records t cs label = (case compound t cs of None \<Rightarrow> [] | Some cc \<Rightarrow> local_view (cc_local cc) label)"

definition cached_records :: "u16 \<Rightarrow> cacheset \<Rightarrow> cstring \<Rightarrow> record_data list option" where
  "cached_records t cs label =
     (case compound t cs of None \<Rightarrow> None | Some cc \<Rightarrow> map_of (cache_contents (cc_temp cc)) label)"

definition temp_cache :: "u16 \<Rightarrow> cacheset \<Rightarrow> cache" where
  "temp_cache t cs = (if t = 1 then cc_temp (cs_A cs) else cc_temp (cs_AAAA cs))"

definition set_temp :: "u16 \<Rightarrow> cache \<Rightarrow> cacheset \<Rightarrow> cacheset" where
  "set_temp t c cs = (if t = 1 then set_A_temp c cs else set_AAAA_temp c cs)"

definition caches_ok :: "cacheset \<Rightarrow> bool" where
  "caches_ok cs \<longleftrightarrow> local_ok (cs_blacklist cs)
     \<and> local_ok (cc_local (cs_A cs)) \<and> cache_ready (cc_temp (cs_A cs))
     \<and> local_ok (cc_local (cs_AAAA cs)) \<and> cache_ready (cc_temp (cs_AAAA cs))"

definition relay_ok :: "relay \<Rightarrow> bool" where
  "relay_ok st \<longleftrightarrow> caches_ok (rl_caches st) \<and> adapter_ok (rl_adapter st)
     \<and> ad_rwlock (rl_adapter st) = Unlocked \<and> length (rl_buffer st) = 1024
     \<and> length (rl_query_server st) = ADDR_LEN \<and> length (rl_cliaddr st) = ADDR_LEN
     \<and> length (q_label (rl_question st)) = MAX_NAME_LENGTH
     \<and> length (rl_ans st) = 20 \<and> list_all answer_shape (rl_ans st)"

text \<open>The question structure after a question was read into it.\<close>

definition asked :: "byte list list \<Rightarrow> u16 \<Rightarrow> u16 \<Rightarrow> question \<Rightarrow> question" where
  "asked ls t c qu = qu\<lparr>q_label := blit 0 (dotted ls @ [0]) (q_label qu), q_qclass := c, q_qtype := t\<rparr>"

definition name_ok :: "byte list list \<Rightarrow> bool" where
  "name_ok ls \<longleftrightarrow> ls \<noteq> [] \<and> (\<forall>l \<in> set ls. valid_label l) \<and> length (dotted ls) < MAX_NAME_LENGTH"

section \<open>Buffers and headers\<close>

lemma blit_zero: "blit 0 m buf = m @ drop (length m) buf"
  by (simp add: blit_def)

lemma c_str_zero: "c_str (m @ 0 # x) = c_str m"
  by (induction m) (simp_all add: c_str_def)

lemma set_header_flag_wire:
  "set_header_flag (wire_header i fl qd an ns ad @ rest) v = Inr (wire_header i v qd an ns ad @ rest)"
  by (simp add: set_header_flag_def set16_def wire_header_def net16_def)

lemma set_header_id_wire:
  "set_header_id (wire_header i fl qd an ns ad @ rest) v = Inr (wire_header v fl qd an ns ad @ rest)"
  by (simp add: set_header_id_def set16_def wire_header_def net16_def)

lemma wire_flags_eq: "swap16 fl = swap16 fl' \<longleftrightarrow> fl = fl'"
  by (metis swap16_swap16)

lemma store_addr_full: "length src = n \<Longrightarrow> length old = n \<Longrightarrow> store_addr n src old = src"
  by (simp add: store_addr_def)

lemma recv_payload_short: "length m \<le> 520 \<Longrightarrow> recv_payload m = m"
  by (simp add: recv_payload_def MAX_DNS_SIZE_def)

lemma asked_simps [simp]:
  "q_qtype (asked ls t c qu) = t" "q_qclass (asked ls t c qu) = c"
  by (simp_all add: asked_def)

lemma asked_label:
  assumes "name_ok ls" and "length (q_label qu) = MAX_NAME_LENGTH"
  shows "length (q_label (asked ls t c qu)) = MAX_NAME_LENGTH"
    and "read_cstr (q_label (asked ls t c qu)) = Inr (dotted ls)"
    and "c_str (q_label (asked ls t c qu)) = dotted ls" and "0 \<in> set (q_label (asked ls t c qu))"
proof -
  have nz: "0 \<notin> set (dotted ls)"
    using assms(1) dotted_no_zero [of ls] by (simp add: name_ok_def valid_label_def)
  show len: "length (q_label (asked ls t c qu)) = MAX_NAME_LENGTH"
    using assms by (simp add: asked_def name_ok_def)
  show "c_str (q_label (asked ls t c qu)) = dotted ls" "0 \<in> set (q_label (asked ls t c qu))"
    using nz by (simp_all add: asked_def blit_zero)
  then show "read_cstr (q_label (asked ls t c qu)) = Inr (dotted ls)" by (simp add: read_cstr_def)
qed

lemma read_question_of_request:
  assumes "name_ok ls" and "length (q_label qu) = MAX_NAME_LENGTH"
    and "buf = wire_header i fl qd an ns ad @ wire_question ls t c @ rest" and "length buf = 1024"
  shows "read_dns_questions qu buf = Some (Inr (uint qd, asked ls t c qu))"
  using read_dns_questions_wire [of ls buf i fl qd an ns ad t c rest qu] assms
  by (simp add: asked_def name_ok_def MAX_NAME_LENGTH_def)

section \<open>Looking names up\<close>

lemma local_lookup:
  assumes "local_ok C"
  shows "\<exists>p. get_static_cache C label = Inr p \<and> static_chain C p = Inr (local_view C label)
    \<and> (p = None \<longleftrightarrow> local_view C label = [])"
proof (cases "sc_is_init C")
  case True
  then have ok: "static_ok C" using assms by (simp add: local_ok_def)
  then show ?thesis
  proof (cases rule: static_label_cases [OF ok, of label])
    case (1 i ips)
    then show ?thesis
      using get_static_hit [OF ok 1] static_look_contents [OF ok, of label] True
      by (simp add: local_view_def static_look_def)
  next
    case 2
    then show ?thesis
      using get_static_miss [OF ok 2] static_look_contents [OF ok, of label] True
      by (simp add: local_view_def static_look_def)
  qed
next
  case False
  then show ?thesis by (simp add: get_static_cache_def static_chain_def local_view_def)
qed

lemma set_temp_id [simp]:
  "set_A_temp (cc_temp (cs_A cs)) cs = cs" "set_AAAA_temp (cc_temp (cs_AAAA cs)) cs = cs"
  by (simp_all add: set_A_temp_def set_AAAA_temp_def)

lemma look_up_local:
  assumes "caches_ok cs" and "local_records t cs label \<noteq> []" and "q_qtype qu = t"
  shows "look_up tget qu label cs = Inr (local_records t cs label, [], cs)"
  using assms local_lookup [of "cc_local (cs_A cs)" label] local_lookup [of "cc_local (cs_AAAA cs)" label]
  by (auto simp: look_up_def local_records_def compound_def caches_ok_def split: if_splits)

lemma look_up_miss:
  assumes "caches_ok cs" and "local_records t cs label = []" and "cached_records t cs label = None"
    and "q_qtype qu = t"
  shows "look_up tget qu label cs = Inr ([], [], cs)"
  using assms local_lookup [of "cc_local (cs_A cs)" label] local_lookup [of "cc_local (cs_AAAA cs)" label]
    multi.get_miss [of "cc_temp (cs_A cs)" label tget] multi.get_miss [of "cc_temp (cs_AAAA cs)" label tget]
  by (auto simp: look_up_def local_records_def cached_records_def compound_def caches_ok_def split: if_splits)

text \<open>The caches after an entry of the cache of a type was written or read: it is now the most
  recently used one.\<close>

definition cache_put :: "u16 \<Rightarrow> cstring \<Rightarrow> record_data list \<Rightarrow> cacheset \<Rightarrow> cacheset \<Rightarrow> bool" where
  "cache_put t label ds cs cs' \<longleftrightarrow> (\<exists>c. cs' = set_temp t c cs \<and> cache_ready c
     \<and> cache_capacity c = cache_capacity (temp_cache t cs)
     \<and> cache_contents c = lru_put label ds (cache_contents (temp_cache t cs)))"

lemma cache_put_facts:
  assumes "cache_put t label ds cs cs'" and "t = 1 \<or> t = 28"
  shows "caches_ok cs \<Longrightarrow> caches_ok cs'" and "cs_blacklist cs' = cs_blacklist cs"
    and "local_records v cs' = local_records v cs"
    and "cached_records t cs' = (cached_records t cs)(label \<mapsto> ds)"
    and "cached_records t cs label = Some ds \<Longrightarrow> cached_records v cs' = cached_records v cs"
  using assms
  by (auto simp: cache_put_def set_temp_def temp_cache_def set_A_temp_def set_AAAA_temp_def caches_ok_def
      local_records_def cached_records_def compound_def fun_eq_iff)

lemma look_up_cached:
  assumes "caches_ok cs" and "local_records t cs label = []" and "cached_records t cs label = Some ds"
    and "\<not> expired tget ds" and "q_qtype qu = t"
  shows "\<exists>cs'. look_up tget qu label cs = Inr ([], ds, cs') \<and> cache_put t label ds cs cs'"
proof -
  have t: "t = 1 \<or> t = 28" and map: "map_of (cache_contents (temp_cache t cs)) label = Some ds"
    using assms(3) by (auto simp: cached_records_def compound_def temp_cache_def split: if_splits)
  have "cache_ready (temp_cache t cs)" using assms(1) by (simp add: caches_ok_def temp_cache_def)
  then obtain c where c: "get_cache_A_record tget label (temp_cache t cs) = Inr (ds, c)" "cache_ready c"
    "cache_capacity c = cache_capacity (temp_cache t cs)"
    "cache_contents c = lru_put label ds (cache_contents (temp_cache t cs))"
    using multi.get_hit [OF _ map assms(4)] by blast
  then have "look_up tget qu label cs = Inr ([], ds, set_temp t c cs)"
    using local_lookup [of "cc_local (cs_A cs)" label] local_lookup [of "cc_local (cs_AAAA cs)" label] assms(1,2,5) t
    by (auto simp: look_up_def local_records_def compound_def caches_ok_def set_temp_def temp_cache_def)
  with c show ?thesis by (auto simp: cache_put_def)
qed

section \<open>Filling the answers\<close>

text \<open>An answer filled for a question.\<close>

definition filled_answer :: "question \<Rightarrow> IP \<Rightarrow> int \<Rightarrow> answer \<Rightarrow> answer" where
  "filled_answer qu ip ttl a = a\<lparr>a_name := blit 0 (c_str (q_label qu) @ [0]) (a_name a), a_address := ip,
     a_ttl := of_int ttl, a_type := q_qtype qu, a_class := q_qclass qu, a_has_cname := False\<rparr>"

definition label_ok :: "question \<Rightarrow> bool" where
  "label_ok qu \<longleftrightarrow> 0 \<in> set (q_label qu) \<and> length (c_str (q_label qu)) < MAX_NAME_LENGTH"

lemma asked_label_ok: "name_ok ls \<Longrightarrow> length (q_label qu) = MAX_NAME_LENGTH \<Longrightarrow> label_ok (asked ls t c qu)"
  by (simp add: label_ok_def asked_label) (simp add: name_ok_def)

lemma fill_answer_ok:
  assumes "label_ok qu" and "list_all answer_shape ans" and "n < length ans" and "length (ip_addr ip) = 16"
  shows "fill_answer qu ans (int n) ip ttl = Inr (ans[n := filled_answer qu ip ttl (ans ! n)])"
    and "list_all answer_shape (ans[n := filled_answer qu ip ttl (ans ! n)])"
proof -
  have sh: "answer_shape (ans ! n)" using assms(2,3) by (simp add: list_all_length)
  then have "strcpy (a_name (ans ! n)) (q_label qu) = Inr (blit 0 (c_str (q_label qu) @ [0]) (a_name (ans ! n)))"
    using assms(1) by (intro strcpy_ok) (simp_all add: label_ok_def answer_shape_def)
  then show "fill_answer qu ans (int n) ip ttl = Inr (ans[n := filled_answer qu ip ttl (ans ! n)])"
    using assms(3) by (simp add: fill_answer_def filled_answer_def arr_set_def)
  have "answer_shape (filled_answer qu ip ttl (ans ! n))"
    using sh assms(1,4) by (simp add: answer_shape_def filled_answer_def label_ok_def)
  then show "list_all answer_shape (ans[n := filled_answer qu ip ttl (ans ! n)])"
    using assms(2) set_update_subset_insert [of ans n] by (auto simp: list_all_iff)
qed

text \<open>Both loops fill the array with a list of pairs of addresses and times to live.\<close>

fun fill_pairs :: "question \<Rightarrow> int \<Rightarrow> (IP \<times> int) list \<Rightarrow> answer list \<Rightarrow> (int \<times> answer list) result" where
  "fill_pairs qu count [] ans = Inr (count, ans)"
| "fill_pairs qu count ((ip, ttl) # ps) ans =
     bindE (fill_answer qu ans count ip ttl) (\<lambda>ans. fill_pairs qu (count + 1) ps ans)"

lemma fill_static_pairs: "fill_static qu count ips = fill_pairs qu count (map (\<lambda>ip. (ip, 3600)) ips)"
proof (induction ips arbitrary: count)
  case (Cons ip ips)
  show ?case by (rule ext) (simp add: Cons.IH)
qed (rule ext, simp)

lemma fill_cached_pairs:
  "fill_cached now qu count ds = fill_pairs qu count (map (\<lambda>d. (rd_ip d, rd_ttl d - now)) ds)"
proof (induction ds arbitrary: count)
  case (Cons d ds)
  show ?case by (rule ext) (simp add: Cons.IH)
qed (rule ext, simp)

definition shows_pair :: "question \<Rightarrow> IP \<times> int \<Rightarrow> answer \<Rightarrow> bool" where
  "shows_pair qu p a \<longleftrightarrow> c_str (a_name a) = c_str (q_label qu) \<and> 0 \<in> set (a_name a)
     \<and> a_address a = fst p \<and> a_ttl a = of_int (snd p) \<and> a_type a = q_qtype qu \<and> a_class a = q_qclass qu"

lemma filled_shows: "shows_pair qu (ip, ttl) (filled_answer qu ip ttl a)"
  by (simp add: shows_pair_def filled_answer_def) (simp add: blit_def)

lemma fill_pairs_ok:
  assumes "label_ok qu" and "list_all answer_shape ans" and "n + length ps \<le> length ans"
    and "list_all (\<lambda>p. length (ip_addr (fst p)) = 16) ps"
  shows "\<exists>ans'. fill_pairs qu (int n) ps ans = Inr (int (n + length ps), ans')
    \<and> length ans' = length ans \<and> list_all answer_shape ans' \<and> take n ans' = take n ans
    \<and> list_all2 (shows_pair qu) ps (take (length ps) (drop n ans'))"
  using assms(2-)
proof (induction ps arbitrary: n ans)
  case (Cons p ps)
  obtain ip ttl where p: "p = (ip, ttl)" by (cases p)
  let ?ans = "ans[n := filled_answer qu ip ttl (ans ! n)]"
  have n: "n < length ans" using Cons.prems(2) by simp
  have ip: "length (ip_addr ip) = 16" using Cons.prems(3) by (simp add: p)
  obtain ans' where run: "fill_pairs qu (int (Suc n)) ps ?ans = Inr (int (Suc n + length ps), ans')"
    and len: "length ans' = length ?ans" and sh: "list_all answer_shape ans'"
    and tk: "take (Suc n) ans' = take (Suc n) ?ans"
    and l2: "list_all2 (shows_pair qu) ps (take (length ps) (drop (Suc n) ans'))"
    using Cons.IH [OF fill_answer_ok(2) [OF assms(1) Cons.prems(1) n ip], of "Suc n" ttl] Cons.prems(2,3) by auto
  have nth: "ans' ! n = filled_answer qu ip ttl (ans ! n)"
    using arg_cong [OF tk, of "\<lambda>xs. xs ! n"] n by simp
  have "take n ans' = take n ans"
    using arg_cong [OF tk, of "take n"] by (simp add: min_absorb1)
  moreover have "drop n ans' = filled_answer qu ip ttl (ans ! n) # drop (Suc n) ans'"
    using n len nth Cons_nth_drop_Suc [of n ans'] by simp
  ultimately show ?case
    using fill_answer_ok(1) [OF assms(1) Cons.prems(1) n ip] run len sh l2 filled_shows
    by (auto simp: p add.commute)
qed simp

section \<open>The reply out of the caches\<close>

lemma split_dots_snoc: "DOT \<notin> set l \<Longrightarrow> split_dots (l @ DOT # s) = l # split_dots s"
  by (induction l) auto

lemma split_dots_plain: "DOT \<notin> set l \<Longrightarrow> split_dots l = [l]"
  by (induction l) auto

lemma split_dots_dotted: "ls \<noteq> [] \<Longrightarrow> \<forall>l \<in> set ls. DOT \<notin> set l \<Longrightarrow> split_dots (dotted ls) = ls"
proof (induction ls)
  case (Cons l ls)
  then show ?case
    by (cases "ls = []") (simp_all add: split_dots_plain split_dots_snoc dotted_Cons)
qed simp

text \<open>The wire form of an answer with an address and a time to live.\<close>

definition wire_pair :: "byte list list \<Rightarrow> u16 \<Rightarrow> u16 \<Rightarrow> IP \<times> int \<Rightarrow> byte list" where
  "wire_pair ls t c p = wire_name ls @ wire_rr t c (clip32 (sint (of_int (snd p) :: u32)))
     (take (rdata_size t) (ip_addr (fst p)))"

lemma shows_wire:
  assumes "shows_pair (asked ls t c qu) p a" and "name_ok ls" and "length (q_label qu) = MAX_NAME_LENGTH"
  shows "wire_answer a = wire_pair ls t c p"
  using assms split_dots_dotted [of ls]
  by (simp add: shows_pair_def wire_answer_def wire_pair_def asked_label name_ok_def valid_label_def)

lemma list_all2_shows_wire:
  assumes "list_all2 (shows_pair (asked ls t c qu)) ps as" and "name_ok ls"
    and "length (q_label qu) = MAX_NAME_LENGTH"
  shows "map wire_answer as = map (wire_pair ls t c) ps"
  using assms(1) by (induction rule: list_all2_induct) (simp_all add: shows_wire [OF _ assms(2,3)])

lemma write_answers_take:
  "n \<le> length as \<Longrightarrow> write_answers n as = write_answers n (take n as)"
proof (induction n arbitrary: as)
  case 0
  show ?case by (intro ext) simp
next
  case (Suc n)
  then obtain a as' where as: "as = a # as'" by (cases as) auto
  have eq: "write_answers n as' = write_answers n (take n as')" by (rule Suc.IH) (use Suc.prems as in simp)
  show ?case by (intro ext) (simp add: as flip: eq)
qed

lemma response_take:
  assumes "n \<le> length as" and "n < 65536"
  shows "write_dns_response_by_query buf as (of_nat n) = write_dns_response_by_query buf (take n as) (of_nat n)"
proof -
  have "unat (of_nat n :: u16) = n" using assms(2) by (simp add: unat_of_nat)
  then show ?thesis
    by (simp add: write_dns_response_by_query_def flip: write_answers_take [OF assms(1)])
qed

lemma shown_answer_ok:
  assumes "shows_pair (asked ls t c qu) p a" and "answer_shape a" and "t = 1 \<or> t = 28"
  shows "answer_ok a"
  using assms by (auto simp: shows_pair_def answer_ok_def answer_shape_def)

lemma reply_cached_wire:
  assumes "name_ok ls" and "length (q_label qu) = MAX_NAME_LENGTH" and "t = 1 \<or> t = 28"
    and "rl_buffer st = wire_header i fl qd an ns ad @ wire_question ls t c @ rest"
    and "list_all2 (shows_pair (asked ls t c qu)) ps (take (length ps) (rl_ans st))"
    and "list_all answer_shape (rl_ans st)" and "length (rl_ans st) = 20" and "length ps \<le> 20"
    and "length (concat (map (wire_pair ls t c) ps)) \<le> length rest"
  defines "reply \<equiv> wire_header i FLAG_RESPONSE_NORMAL qd (of_nat (length ps)) ns ad
    @ wire_question ls t c @ concat (map (wire_pair ls t c) ps)"
  shows "reply_cached (int (length ps)) st = Some (Inr ([(Server_sockfd, rl_cliaddr st, reply)],
    st\<lparr>rl_buffer := reply @ drop (length (concat (map (wire_pair ls t c) ps))) rest\<rparr>))"
proof -
  let ?as = "take (length ps) (rl_ans st)"
  have len: "length ?as = length ps" using assms(7,8) by simp
  have "list_all answer_ok ?as"
  proof (unfold list_all_length, intro allI impI)
    fix k assume k: "k < length ?as"
    have "shows_pair (asked ls t c qu) (ps ! k) (?as ! k)"
      using assms(5) k by (rule list_all2_nthD2)
    moreover have "answer_shape (?as ! k)"
      using assms(6) k by (simp add: list_all_length)
    ultimately show "answer_ok (?as ! k)" using assms(3) by (rule shown_answer_ok)
  qed
  moreover have wires: "map wire_answer ?as = map (wire_pair ls t c) ps"
    by (rule list_all2_shows_wire [OF assms(5,1,2)])
  ultimately have "write_dns_response_by_query (rl_buffer st) ?as (of_nat (length ps)) =
      Some (Inr (int (length reply), reply @ drop (length (concat (map (wire_pair ls t c) ps))) rest))"
    using write_dns_response_wire [of ls ?as rest i fl qd an ns ad t c] assms(1,4,8,9) len
    by (simp add: name_ok_def reply_def)
  then show ?thesis
    using response_take [of "length ps" "rl_ans st" "rl_buffer st"] assms(7,8)
    by (simp add: reply_cached_def send_bytes_def)
qed

section \<open>Requests\<close>

text \<open>The state after a datagram was received from a client.\<close>

definition received :: "byte list \<Rightarrow> byte list \<Rightarrow> relay \<Rightarrow> relay" where
  "received m src st = st\<lparr>rl_buffer := m @ drop (length m) (rl_buffer st), rl_cliaddr := src,
     rl_len := ADDR_LEN\<rparr>"

lemma received_simps [simp]:
  "rl_caches (received m src st) = rl_caches st" "rl_adapter (received m src st) = rl_adapter st"
  "rl_cliaddr (received m src st) = src" "rl_query_server (received m src st) = rl_query_server st"
  "rl_len (received m src st) = ADDR_LEN"
  by (simp_all add: received_def)

lemma bindP_pair [simp]: "bindP x (\<lambda>(a, b). Some (Inr (a, b))) = x"
proof (cases x)
  case (Some r)
  then show ?thesis by (cases r) auto
qed simp

lemma relay_ok_received:
  "relay_ok st \<Longrightarrow> length m \<le> 520 \<Longrightarrow> length src = ADDR_LEN \<Longrightarrow> relay_ok (received m src st)"
  by (simp add: relay_ok_def received_def)

lemma handle_request_wire:
  assumes "relay_ok st" and "length m \<le> 520" and "length src = ADDR_LEN"
    and "m = wire_header i fl qd an ns ad @ body"
  shows "handle_request b tget now clk (Recv m src) st =
    bindP (Some (if fl \<noteq> FLAG_QUERY then refuse set_header_rcode_refused (length m) (received m src st)
                 else Inr ([], received m src st))) (\<lambda>(out, st).
    bindP (answer_request b tget now clk i (length m) st) (\<lambda>(outs, st). Some (Inr (out @ outs, st))))"
proof -
  have "read_dns_header (m @ drop (length m) (rl_buffer st)) = Inr (12, \<lparr>hd_id = i, hd_flags = swap16 fl,
     hd_qdcount = qd, hd_ancount = an, hd_nscount = ns, hd_adcount = ad\<rparr>)"
    using read_dns_header_wire [of i fl qd an ns ad "body @ drop (length m) (rl_buffer st)"] assms(4) by simp
  then show ?thesis
    using assms(1-3)
    by (simp add: handle_request_def recv_payload_short blit_zero store_addr_full relay_ok_def received_def
        wire_flags_eq Let_def)
qed

lemma handle_request_query:
  assumes "relay_ok st" and "length m \<le> 520" and "length src = ADDR_LEN"
    and "m = wire_header i FLAG_QUERY qd an ns ad @ body"
  shows "handle_request b tget now clk (Recv m src) st
    = answer_request b tget now clk i (length m) (received m src st)"
  using handle_request_wire [OF assms] by simp

text \<open>The start of every request: the question and the blacklist.\<close>

lemma answer_request_start:
  assumes "relay_ok st" and "name_ok ls"
    and "rl_buffer st = wire_header i fl qd an ns ad @ wire_question ls t c @ rest"
    and qu: "qu = asked ls t c (rl_question st)"
  shows "relay_ok (st\<lparr>rl_question := qu\<rparr>)"
    and "local_view (cs_blacklist (rl_caches st)) (dotted ls) \<noteq> [] \<Longrightarrow>
      answer_request b tget now clk j n st = Some (refuse set_header_rcode_name_error n (st\<lparr>rl_question := qu\<rparr>))"
    and "local_view (cs_blacklist (rl_caches st)) (dotted ls) = [] \<Longrightarrow>
      answer_request b tget now clk j n st =
        bindP (Some (look_up tget qu (dotted ls) (rl_caches st))) (\<lambda>(ips, ds, cs).
        bindP (Some (if ips \<noteq> [] then fill_static qu 0 ips (rl_ans st) else fill_cached now qu 0 ds (rl_ans st)))
          (\<lambda>(count, ans).
        let st = st\<lparr>rl_question := qu, rl_caches := cs, rl_ans := ans\<rparr> in
        if count \<noteq> 0 then reply_cached count st else Some (forward b clk j n st)))"
proof -
  have len: "length (q_label (rl_question st)) = MAX_NAME_LENGTH" "length (rl_buffer st) = 1024"
    using assms(1) by (simp_all add: relay_ok_def)
  note rd = read_question_of_request [OF assms(2) len(1) assms(3) len(2), folded qu]
    asked_label [OF assms(2) len(1), of t c, folded qu]
  show "relay_ok (st\<lparr>rl_question := qu\<rparr>)" using assms(1) rd by (simp add: relay_ok_def)
  obtain p where p: "get_static_cache (cs_blacklist (rl_caches st)) (dotted ls) = Inr p"
    "p = None \<longleftrightarrow> local_view (cs_blacklist (rl_caches st)) (dotted ls) = []"
    using local_lookup [of "cs_blacklist (rl_caches st)"] assms(1) by (auto simp: relay_ok_def caches_ok_def)
  then show "local_view (cs_blacklist (rl_caches st)) (dotted ls) \<noteq> [] \<Longrightarrow>
      answer_request b tget now clk j n st = Some (refuse set_header_rcode_name_error n (st\<lparr>rl_question := qu\<rparr>))"
    using rd by (simp add: answer_request_def Let_def)
  assume "local_view (cs_blacklist (rl_caches st)) (dotted ls) = []"
  then show "answer_request b tget now clk j n st =
        bindP (Some (look_up tget qu (dotted ls) (rl_caches st))) (\<lambda>(ips, ds, cs).
        bindP (Some (if ips \<noteq> [] then fill_static qu 0 ips (rl_ans st) else fill_cached now qu 0 ds (rl_ans st)))
          (\<lambda>(count, ans).
        let st = st\<lparr>rl_question := qu, rl_caches := cs, rl_ans := ans\<rparr> in
        if count \<noteq> 0 then reply_cached count st else Some (forward b clk j n st)))"
    using rd p by (cases "look_up tget qu (dotted ls) (rl_caches st)") (auto simp: answer_request_def Let_def)
qed

text \<open>A reply with a list of addresses and times to live, from either kind of cache.\<close>

lemma reply_pairs:
  assumes "relay_ok st" and "name_ok ls" and "t = 1 \<or> t = 28"
    and buf: "rl_buffer st = wire_header i fl qd an ns ad @ wire_question ls t c @ rest"
    and qu: "qu = asked ls t c (rl_question st)" and cs: "caches_ok cs"
    and ps: "ps \<noteq> []" "length ps \<le> 20" "list_all (\<lambda>p. length (ip_addr (fst p)) = 16) ps"
    and fits: "length (concat (map (wire_pair ls t c) ps)) \<le> length rest"
  defines "reply \<equiv> wire_header i FLAG_RESPONSE_NORMAL qd (of_nat (length ps)) ns ad
    @ wire_question ls t c @ concat (map (wire_pair ls t c) ps)"
  shows "\<exists>st'. bindP (Some (fill_pairs qu 0 ps (rl_ans st))) (\<lambda>(count, ans).
        let st = st\<lparr>rl_question := qu, rl_caches := cs, rl_ans := ans\<rparr> in
        if count \<noteq> 0 then reply_cached count st else Some (forward b clk j n st))
      = Some (Inr ([(Server_sockfd, rl_cliaddr st, reply)], st'))
    \<and> relay_ok st' \<and> rl_caches st' = cs \<and> rl_adapter st' = rl_adapter st
    \<and> rl_query_server st' = rl_query_server st \<and> rl_len st' = rl_len st"
proof -
  have len: "length (q_label (rl_question st)) = MAX_NAME_LENGTH" "length (rl_buffer st) = 1024"
    "list_all answer_shape (rl_ans st)" "length (rl_ans st) = 20"
    using assms(1) by (simp_all add: relay_ok_def)
  have lab: "label_ok qu" using asked_label_ok [OF assms(2) len(1)] qu by simp
  obtain ans where ans: "fill_pairs qu 0 ps (rl_ans st) = Inr (int (length ps), ans)" "length ans = 20"
    "list_all answer_shape ans" "list_all2 (shows_pair qu) ps (take (length ps) ans)"
    using fill_pairs_ok [OF lab len(3), of 0 ps] ps len(4) by auto
  let ?st = "st\<lparr>rl_question := qu, rl_caches := cs, rl_ans := ans\<rparr>"
  have "reply_cached (int (length ps)) ?st = Some (Inr ([(Server_sockfd, rl_cliaddr ?st, reply)],
    ?st\<lparr>rl_buffer := reply @ drop (length (concat (map (wire_pair ls t c) ps))) rest\<rparr>))"
    unfolding reply_def
    by (rule reply_cached_wire [where qu = "rl_question st"])
      (use assms(2,3) buf ans ps fits qu len(1) in simp_all)
  moreover have "relay_ok (?st\<lparr>rl_buffer := reply @ drop (length (concat (map (wire_pair ls t c) ps))) rest\<rparr>)"
    using assms(1) cs ans buf fits asked_label(1) [OF assms(2) len(1), of t c, folded qu] len(2)
    by (simp add: relay_ok_def reply_def)
  ultimately show ?thesis using ans(1) ps(1) by (auto simp: Let_def)
qed

lemma answer_from_local:
  assumes "relay_ok st" and "name_ok ls" and "t = 1 \<or> t = 28"
    and buf: "rl_buffer st = wire_header i fl qd an ns ad @ wire_question ls t c @ rest"
    and white: "local_view (cs_blacklist (rl_caches st)) (dotted ls) = []"
    and ips: "local_records t (rl_caches st) (dotted ls) = ips" "ips \<noteq> []" "length ips \<le> 20"
      "list_all (\<lambda>ip. length (ip_addr ip) = 16) ips"
    and fits: "length (concat (map (\<lambda>ip. wire_pair ls t c (ip, 3600)) ips)) \<le> length rest"
  shows "\<exists>st'. answer_request b tget now clk j n st = Some (Inr ([(Server_sockfd, rl_cliaddr st,
      wire_header i FLAG_RESPONSE_NORMAL qd (of_nat (length ips)) ns ad @ wire_question ls t c
        @ concat (map (\<lambda>ip. wire_pair ls t c (ip, 3600)) ips))], st'))
    \<and> relay_ok st' \<and> rl_caches st' = rl_caches st \<and> rl_adapter st' = rl_adapter st
    \<and> rl_query_server st' = rl_query_server st \<and> rl_len st' = rl_len st"
proof -
  let ?ps = "map (\<lambda>ip. (ip, 3600)) ips" and ?qu = "asked ls t c (rl_question st)"
  have ok: "caches_ok (rl_caches st)" using assms(1) by (simp add: relay_ok_def)
  have "look_up tget ?qu (dotted ls) (rl_caches st) = Inr (ips, [], rl_caches st)"
    using look_up_local [OF ok, of t "dotted ls" ?qu tget] ips by simp
  then show ?thesis
    using answer_request_start(3) [OF assms(1,2) buf refl white, of b tget now clk j n]
      reply_pairs [OF assms(1-3) buf refl ok, of ?ps b clk j n] ips fits
    by (auto simp: fill_static_pairs comp_def list_all_iff)
qed

lemma answer_from_cache:
  assumes "relay_ok st" and "name_ok ls" and "t = 1 \<or> t = 28"
    and buf: "rl_buffer st = wire_header i fl qd an ns ad @ wire_question ls t c @ rest"
    and white: "local_view (cs_blacklist (rl_caches st)) (dotted ls) = []"
    and none: "local_records t (rl_caches st) (dotted ls) = []"
    and ds: "cached_records t (rl_caches st) (dotted ls) = Some ds" "\<not> expired tget ds" "ds \<noteq> []"
      "length ds \<le> 20" "list_all (\<lambda>d. length (ip_addr (rd_ip d)) = 16) ds"
    and fits: "length (concat (map (\<lambda>d. wire_pair ls t c (rd_ip d, rd_ttl d - now)) ds)) \<le> length rest"
  shows "\<exists>st'. answer_request b tget now clk j n st = Some (Inr ([(Server_sockfd, rl_cliaddr st,
      wire_header i FLAG_RESPONSE_NORMAL qd (of_nat (length ds)) ns ad @ wire_question ls t c
        @ concat (map (\<lambda>d. wire_pair ls t c (rd_ip d, rd_ttl d - now)) ds))], st'))
    \<and> relay_ok st' \<and> rl_adapter st' = rl_adapter st
    \<and> cache_put t (dotted ls) ds (rl_caches st) (rl_caches st')
    \<and> rl_query_server st' = rl_query_server st \<and> rl_len st' = rl_len st"
proof -
  let ?ps = "map (\<lambda>d. (rd_ip d, rd_ttl d - now)) ds" and ?qu = "asked ls t c (rl_question st)"
  have ok: "caches_ok (rl_caches st)" using assms(1) by (simp add: relay_ok_def)
  obtain cs where look: "look_up tget ?qu (dotted ls) (rl_caches st) = Inr ([], ds, cs)"
    and put: "cache_put t (dotted ls) ds (rl_caches st) cs"
    using look_up_cached [OF ok none ds(1,2)] asked_simps(1) by blast
  note cs = cache_put_facts(1) [OF put assms(3) ok]
  from look put show ?thesis
    using answer_request_start(3) [OF assms(1,2) buf refl white, of b tget now clk j n]
      reply_pairs [OF assms(1-3) buf refl cs, of ?ps b clk j n] ds fits
    by (auto simp: fill_cached_pairs comp_def list_all_iff)
qed

text \<open>A request that no cache answers is passed on under the next ticket.\<close>

lemma forward_wire:
  assumes "relay_ok st" and "adapter_entries (rl_adapter st) (adapter_cursor (rl_adapter st)) = None"
    and buf: "rl_buffer st = m @ rest" "length m \<le> 520"
    and m: "m = wire_header i fl qd an ns ad @ body"
  defines "k \<equiv> adapter_cursor (rl_adapter st)"
  shows "\<exists>st'. forward b clk j (length m) st
      = Inr ([(Query_sockfd, rl_query_server st, wire_header (of_nat k) fl qd an ns ad @ body)], st')
    \<and> relay_ok st' \<and> rl_caches st' = rl_caches st \<and> rl_query_server st' = rl_query_server st
    \<and> rl_len st' = ADDR_LEN \<and> adapter_cursor (rl_adapter st') = Suc k mod 1024
    \<and> adapter_entries (rl_adapter st') = (adapter_entries (rl_adapter st))(k \<mapsto>
        (\<lparr>ia_addr = rl_cliaddr st, ia_old_id = j, ia_type = ucast (q_qtype (rl_question st))\<rparr>, clk, c_str m))
    \<and> (\<exists>rest. IDAdapter_push b j (rl_cliaddr st) (ucast (q_qtype (rl_question st))) clk (m @ 0 # rest) (rl_adapter st)
        = Inr (int k, rl_adapter st'))"
proof -
  have ok: "adapter_ok (rl_adapter st)" "ad_rwlock (rl_adapter st) = Unlocked" "length (rl_buffer st) = 1024"
    using assms(1) by (simp_all add: relay_ok_def)
  then obtain r rest' where rest: "rest = r # rest'" using buf by (cases rest) auto
  let ?buf = "m @ 0 # rest'"
  have set: "arr_set (rl_buffer st) (int (length m)) 0 = Inr ?buf"
    using buf(1) rest by (simp add: arr_set_def)
  have "length (c_str ?buf) < 1024"
    using length_c_str_le [of m] buf(2) by (simp add: c_str_zero)
  then obtain ad' where push: "IDAdapter_push b j (rl_cliaddr st) (ucast (q_qtype (rl_question st))) clk ?buf
        (rl_adapter st) = Inr (int k, ad')" "adapter_ok ad'" "ad_rwlock ad' = Unlocked"
    "adapter_cursor ad' = Suc k mod 1024"
    "adapter_entries ad' = (adapter_entries (rl_adapter st))(k \<mapsto>
        (\<lparr>ia_addr = rl_cliaddr st, ia_old_id = j, ia_type = ucast (q_qtype (rl_question st))\<rparr>, clk, c_str m))"
    using push_free_slot [OF ok(1) assms(2), of ?buf b j "rl_cliaddr st" "ucast (q_qtype (rl_question st))" clk] ok(2)
    by (auto simp: k_def c_str_zero)
  have id: "set_header_id ?buf (of_int (int k)) = Inr (wire_header (of_nat k) fl qd an ns ad @ body @ 0 # rest')"
    using m by (simp add: set_header_id_wire)
  have len: "length m = 12 + length body" using m by simp
  show ?thesis
    unfolding forward_def
    using set push id assms(1) buf(1) len rest m by (auto simp: Let_def relay_ok_def)
qed

lemma answer_miss:
  assumes "relay_ok st" and "name_ok ls"
    and buf: "rl_buffer st = m @ tail" "length m \<le> 520"
      "m = wire_header i fl qd an ns ad @ wire_question ls t c @ rest"
    and white: "local_view (cs_blacklist (rl_caches st)) (dotted ls) = []"
    and none: "local_records t (rl_caches st) (dotted ls) = []" "cached_records t (rl_caches st) (dotted ls) = None"
    and free: "adapter_entries (rl_adapter st) (adapter_cursor (rl_adapter st)) = None"
  defines "k \<equiv> adapter_cursor (rl_adapter st)"
  shows "\<exists>st'. answer_request b tget now clk j (length m) st = Some (Inr (
      [(Query_sockfd, rl_query_server st, wire_header (of_nat k) fl qd an ns ad @ wire_question ls t c @ rest)], st'))
    \<and> relay_ok st' \<and> rl_caches st' = rl_caches st \<and> rl_query_server st' = rl_query_server st
    \<and> rl_len st' = ADDR_LEN \<and> adapter_cursor (rl_adapter st') = Suc k mod 1024
    \<and> adapter_entries (rl_adapter st') = (adapter_entries (rl_adapter st))(k \<mapsto>
        (\<lparr>ia_addr = rl_cliaddr st, ia_old_id = j, ia_type = ucast t\<rparr>, clk, c_str m))
    \<and> (\<exists>rest. IDAdapter_push b j (rl_cliaddr st) (ucast t) clk (m @ 0 # rest) (rl_adapter st)
        = Inr (int k, rl_adapter st'))"
proof -
  let ?qu = "asked ls t c (rl_question st)"
  let ?st = "st\<lparr>rl_question := ?qu, rl_caches := rl_caches st, rl_ans := rl_ans st\<rparr>"
  have ok: "caches_ok (rl_caches st)" using assms(1) by (simp add: relay_ok_def)
  have split: "rl_buffer st = wire_header i fl qd an ns ad @ wire_question ls t c @ rest @ tail"
    using buf by simp
  have "look_up tget ?qu (dotted ls) (rl_caches st) = Inr ([], [], rl_caches st)"
    by (rule look_up_miss [OF ok none asked_simps(1)])
  then have "answer_request b tget now clk j (length m) st = Some (forward b clk j (length m) ?st)"
    using answer_request_start(3) [OF assms(1,2) split refl white, of b tget now clk j "length m"]
    by (simp add: Let_def)
  moreover have "relay_ok ?st" using answer_request_start(1) [OF assms(1,2) split refl] by simp
  ultimately show ?thesis
    using forward_wire [of ?st m tail i fl qd an ns ad "wire_question ls t c @ rest" b clk j] buf free
    by (simp add: k_def)
qed

section \<open>Responses\<close>

lemma name_at_append: "name_at msg p ls jumped ts e \<Longrightarrow> name_at (msg @ tail) p ls jumped ts e"
proof (induction rule: name_at.induct)
  case (root p)
  then show ?case by (intro name_at.root) (simp_all add: nth_append)
next
  case (label p b l ls jumped ts e)
  then show ?case by (intro name_at.label) (auto simp: nth_append)
next
  case (pointer p q ls jumped ts e)
  then show ?case by (intro name_at.pointer [where q = q]) (auto simp: nth_append)
qed

lemma rrs_at_append: "rrs_at m p rs \<Longrightarrow> rrs_at (m @ tail) p rs"
proof (induction rs arbitrary: p)
  case (Cons r rs)
  then obtain q where q: "rr_at m p r q" "rrs_at (m @ tail) q rs" by auto
  then obtain ts pre post where "name_at m p (rr_labels r) True ts (length pre)" "rr_labels r \<noteq> []" "ts \<noteq> []"
    "m = pre @ wire_rr (rr_type r) (rr_class r) (rr_ttl r) (rr_data r) @ post"
    "q = length pre + 10 + length (rr_data r)"
    by (auto simp: rr_at_def)
  then have "name_at (m @ tail) p (rr_labels r) True ts (length pre) \<and> rr_labels r \<noteq> [] \<and> ts \<noteq> []
      \<and> m @ tail = pre @ wire_rr (rr_type r) (rr_class r) (rr_ttl r) (rr_data r) @ (post @ tail)
      \<and> q = length pre + 10 + length (rr_data r)"
    using name_at_append [of m p "rr_labels r" True ts "length pre" tail] by simp
  then have "rr_at (m @ tail) p r q" unfolding rr_at_def by blast
  with q(2) show ?case by auto
qed simp

text \<open>The cache record made of a resource record received at the time \<open>now\<close>.\<close>

definition record_of :: "int \<Rightarrow> cstring \<Rightarrow> rr \<Rightarrow> record_data \<Rightarrow> bool" where
  "record_of now label r d \<longleftrightarrow> rd_label d = label \<and> rd_ttl d = now + uint (rr_ttl r)
     \<and> length (ip_addr (rd_ip d)) = 16 \<and> take (length (rr_data r)) (ip_addr (rd_ip d)) = rr_data r
     \<and> ip_type (rd_ip d) = ucast (rr_type r)"

lemma collect_answers_ok:
  assumes "list_all2 decodes rs (take (length rs) as)" and "list_all answer_shape as"
    and "count + length rs \<le> TMP_ANS"
  shows "\<exists>ds. collect_answers now label count (length rs) as = Inr ds \<and> list_all2 (record_of now label) rs ds"
  using assms
proof (induction rs arbitrary: count as)
  case (Cons r rs)
  then obtain a as' where as: "as = a # as'" by (cases as) auto
  obtain ds where "collect_answers now label (Suc count) (length rs) as' = Inr ds" "list_all2 (record_of now label) rs ds"
    using Cons.IH [of as' "Suc count"] Cons.prems as by auto
  moreover have "record_of now label r \<lparr>rd_label = label, rd_ip = a_address a, rd_ttl = now + uint (a_ttl a)\<rparr>"
    using Cons.prems by (simp add: as record_of_def decodes_def answer_shape_def)
  ultimately show ?case using Cons.prems(3) by (simp add: as)
qed simp

lemma collect_answers_overflow:
  assumes "count \<le> TMP_ANS" and "count + n > TMP_ANS" and "n \<le> length as"
  shows "collect_answers now label count n as = Inl OutOfBounds"
  using assms
proof (induction now label count n as rule: collect_answers.induct)
  case (3 now label count n a as)
  then show ?case by (cases "count = TMP_ANS") auto
qed auto

text \<open>The records of the question's type are cached.\<close>

definition response_ok :: "byte list \<Rightarrow> u16 \<Rightarrow> u16 \<Rightarrow> byte list list \<Rightarrow> u16 \<Rightarrow> u16 \<Rightarrow> rr list \<Rightarrow> u16 \<Rightarrow> u16 \<Rightarrow> byte list \<Rightarrow> bool" where
  "response_ok m i fl ls t c rs ns ad rest \<longleftrightarrow>
     m = wire_header i fl 1 (of_nat (length rs)) ns ad @ wire_question ls t c @ rest \<and> length m \<le> 520
     \<and> rrs_at m (12 + length (wire_question ls t c)) rs \<and> list_all rr_ok rs \<and> length rs < 65536"

lemma response_okD:
  assumes "response_ok m i fl ls t c rs ns ad rest"
  shows "m = wire_header i fl 1 (of_nat (length rs)) ns ad @ wire_question ls t c @ rest" and "length m \<le> 520"
    and "rrs_at m (12 + length (wire_question ls t c)) rs" and "list_all rr_ok rs" and "length rs < 65536"
  using assms unfolding response_ok_def by blast+

lemma cache_response_read:
  assumes "relay_ok st" and "name_ok ls" and r: "response_ok m i fl ls t c rs ns ad rest"
    and buf: "rl_buffer st = m @ tail"
    and n: "length (filter is_address rs) < 20"
  obtains ans qu where "read_dns_answers (rl_ans st) (rl_buffer st)
      = Some (Inr (int (length (filter is_address rs)), ans))"
    and "length ans = 20" and "list_all answer_shape ans"
    and "list_all2 decodes (filter is_address rs) (take (length (filter is_address rs)) ans)"
    and "read_dns_question (rl_question st) (rl_buffer st) 12 = Some (Inr (int (length (dotted ls)) + 2, qu))"
    and "length (q_label qu) = MAX_NAME_LENGTH" and "read_cstr (q_label qu) = Inr (dotted ls)"
proof -
  have len: "length (q_label (rl_question st)) = MAX_NAME_LENGTH" "length (rl_buffer st) = 1024"
    "list_all answer_shape (rl_ans st)" "length (rl_ans st) = 20"
    using assms(1) by (simp_all add: relay_ok_def)
  have name: "ls \<noteq> []" "\<forall>l \<in> set ls. valid_label l" "length (dotted ls) < 256"
    using assms(2) by (simp_all add: name_ok_def MAX_NAME_LENGTH_def)
  have m: "rl_buffer st = wire_header i fl 1 (of_nat (length rs)) ns ad @ wire_question ls t c @ rest @ tail"
    using response_okD(1) [OF r] buf by simp
  have at: "rrs_at (rl_buffer st) (12 + length (wire_question ls t c)) rs"
    unfolding buf by (rule rrs_at_append) (rule response_okD(3) [OF r])
  obtain ans where ans: "read_dns_answers (rl_ans st) (rl_buffer st)
      = Some (Inr (int (length (filter is_address rs)), ans))" "length ans = 20" "list_all answer_shape ans"
    "list_all2 decodes (filter is_address rs) (take (length (filter is_address rs)) ans)"
    using read_dns_answers_rrs [OF name(1,2) m at _ _ _ len(3)] response_okD(4,5) [OF r] n len(2,4) by auto
  obtain t' c' where "read_dns_question (rl_question st) (rl_buffer st) 12 = Some (Inr (int (length (dotted ls)) + 2,
      (rl_question st)\<lparr>q_label := blit 0 (dotted ls @ [0]) (q_label (rl_question st)), q_qclass := c', q_qtype := t'\<rparr>))"
    using read_dns_question_wire [OF name(1,2) m, of "rl_question st"] len(1,2) name(3)
    by (auto simp: MAX_NAME_LENGTH_def)
  then have "read_dns_question (rl_question st) (rl_buffer st) 12
      = Some (Inr (int (length (dotted ls)) + 2, asked ls t' c' (rl_question st)))"
    by (simp add: asked_def)
  then show thesis using that ans asked_label(1,2) [OF assms(2) len(1), of t' c'] by blast
qed

lemma fresh_records:
  assumes "list_all2 (record_of now label) rs ds" and "\<forall>r \<in> set rs. now' \<le> now + uint (rr_ttl r)"
  shows "list_all (\<lambda>d. rd_label d = label \<and> now' \<le> rd_ttl d) ds"
  using assms by (induction rule: list_all2_induct) (auto simp: record_of_def)

lemma cache_response_ok:
  assumes "relay_ok st" and "name_ok ls" and r: "response_ok m i fl ls t c rs ns ad rest"
    and buf: "rl_buffer st = m @ tail" and v: "v = 1 \<or> v = 28"
    and n: "filter is_address rs \<noteq> []" "length (filter is_address rs) \<le> 10"
    and fresh: "\<forall>r \<in> set (filter is_address rs). now' \<le> now + uint (rr_ttl r)"
    and room: "length (cache_contents (temp_cache v (rl_caches st))) < cache_capacity (temp_cache v (rl_caches st))"
  shows "\<exists>st' ds. cache_response now now' (ucast v) st = Some (Inr st') \<and> relay_ok st'
    \<and> list_all2 (record_of now (dotted ls)) (filter is_address rs) ds
    \<and> cache_put v (dotted ls) ds (rl_caches st) (rl_caches st')
    \<and> rl_buffer st' = rl_buffer st \<and> rl_adapter st' = rl_adapter st \<and> rl_len st' = rl_len st
    \<and> rl_query_server st' = rl_query_server st"
proof -
  let ?rs = "filter is_address rs"
  have n20: "length ?rs < 20" using n(2) by simp
  obtain ans qu where ans: "read_dns_answers (rl_ans st) (rl_buffer st) = Some (Inr (int (length ?rs), ans))"
    "length ans = 20" "list_all answer_shape ans" "list_all2 decodes ?rs (take (length ?rs) ans)"
    and qu: "read_dns_question (rl_question st) (rl_buffer st) 12 = Some (Inr (int (length (dotted ls)) + 2, qu))"
      "length (q_label qu) = MAX_NAME_LENGTH" "read_cstr (q_label qu) = Inr (dotted ls)"
    by (rule cache_response_read [OF assms(1-4) n20]) blast
  obtain ds where ds: "collect_answers now (dotted ls) 0 (length ?rs) ans = Inr ds"
    "list_all2 (record_of now (dotted ls)) ?rs ds"
    using collect_answers_ok [OF ans(4,3), of 0 now "dotted ls"] n(2) by (auto simp: TMP_ANS_def)
  have all: "list_all (\<lambda>d. rd_label d = dotted ls \<and> now' \<le> rd_ttl d) ds"
    using fresh_records [OF ds(2) fresh] .
  then have "stored_multi now' (dotted ls) ds = Some ds"
    using ds(2) n(1) by (auto simp: stored_multi_def Let_def list_all_iff)
  moreover have "cache_ready (temp_cache v (rl_caches st))"
    using assms(1) by (simp add: relay_ok_def caches_ok_def temp_cache_def)
  ultimately obtain x d' where put: "set_cache_A_multi_record now' (dotted ls) ds (temp_cache v (rl_caches st))
      = Some (Inr (x, d'))" "cache_ready d'" "cache_capacity d' = cache_capacity (temp_cache v (rl_caches st))"
    "cache_contents d' = lru_put (dotted ls) ds (cache_contents (temp_cache v (rl_caches st)))"
    using multi.put_ok [OF _ room, of now' "dotted ls" ds ds] by auto
  then have stored: "cache_put v (dotted ls) ds (rl_caches st) (set_temp v d' (rl_caches st))"
    by (auto simp: cache_put_def)
  let ?st = "st\<lparr>rl_ans := ans, rl_question := qu, rl_caches := set_temp v d' (rl_caches st)\<rparr>"
  have pos: "0 < length ?rs" using n(1) by simp
  have "cache_response now now' (ucast v) st = Some (Inr ?st)"
    using ans(1) qu ds(1) put(1) v pos
    by (auto simp: cache_response_def Let_def temp_cache_def set_temp_def)
  moreover have "relay_ok ?st"
    using assms(1) ans(2,3) qu(2) cache_put_facts(1) [OF stored v] by (simp add: relay_ok_def)
  ultimately show ?thesis
    using ds(2) stored by (intro exI [of _ ?st] exI [of _ ds]) simp
qed

lemma cache_response_empty:
  assumes "relay_ok st" and "name_ok ls" and r: "response_ok m i fl ls t c rs ns ad rest"
    and buf: "rl_buffer st = m @ tail" and n: "filter is_address rs = []"
  shows "\<exists>st'. cache_response now now' rtype st = Some (Inr st') \<and> relay_ok st'
    \<and> rl_caches st' = rl_caches st \<and> rl_buffer st' = rl_buffer st \<and> rl_adapter st' = rl_adapter st
    \<and> rl_len st' = rl_len st \<and> rl_query_server st' = rl_query_server st"
proof -
  have n20: "length (filter is_address rs) < 20" using n by simp
  obtain ans where "read_dns_answers (rl_ans st) (rl_buffer st) = Some (Inr (int (length (filter is_address rs)), ans))"
    "length ans = 20" "list_all answer_shape ans"
    by (rule cache_response_read [OF assms(1-4) n20]) blast
  then show ?thesis
    using assms(1) n by (auto simp: cache_response_def Let_def relay_ok_def)
qed

text \<open>The state after a datagram was received on the query socket.\<close>

definition responded :: "byte list \<Rightarrow> byte list \<Rightarrow> relay \<Rightarrow> relay" where
  "responded m src st = st\<lparr>rl_buffer := m @ drop (length m) (rl_buffer st), rl_query_server := src,
     rl_len := ADDR_LEN\<rparr>"

lemma relay_ok_responded:
  "relay_ok st \<Longrightarrow> length m \<le> 520 \<Longrightarrow> length src = ADDR_LEN \<Longrightarrow> relay_ok (responded m src st)"
  by (simp add: relay_ok_def responded_def)

lemma handle_relay_wire:
  assumes "relay_ok st" and "rl_len st = ADDR_LEN" and "length m \<le> 520" and "length src = ADDR_LEN"
    and "m = wire_header i fl qd an ns ad @ body"
  shows "handle_relay b now now' (Recv m src) st =
    bindP (Some (IDAdapter_get i (rl_adapter st))) (\<lambda>iptoaddr.
     case iptoaddr of None \<Rightarrow> Some (Inr ([], responded m src st))
     | Some info \<Rightarrow>
       bindP (if uint (ia_type info) = rrtype_val RRTYPE_A \<or> uint (ia_type info) = rrtype_val RRTYPE_AAAA
              then cache_response now now' (ia_type info) (responded m src st) else Some (Inr (responded m src st)))
         (\<lambda>st.
       Some (
         bindE (set_header_id (rl_buffer st) (ia_old_id info)) (\<lambda>buffer.
         bindE (IDAdapter_pop b i (rl_adapter st)) (\<lambda>ad.
         Inr ([(Server_sockfd, ia_addr info, take (length m) buffer)],
              st\<lparr>rl_buffer := buffer, rl_adapter := ad\<rparr>))))))"
proof -
  have "read_dns_header (m @ drop (length m) (rl_buffer st)) = Inr (12, \<lparr>hd_id = i, hd_flags = swap16 fl,
     hd_qdcount = qd, hd_ancount = an, hd_nscount = ns, hd_adcount = ad\<rparr>)"
    using read_dns_header_wire [of i fl qd an ns ad "body @ drop (length m) (rl_buffer st)"] assms(5) by simp
  then show ?thesis
    using assms(1-4)
    by (cases "IDAdapter_get i (rl_adapter st)")
      (auto simp: handle_relay_def recv_payload_short blit_zero store_addr_full relay_ok_def responded_def Let_def
        split: option.split)
qed

lemma pop_live:
  assumes "adapter_ok ad" and "ad_rwlock ad = Unlocked" and "k < 1024"
  shows "\<exists>ad'. IDAdapter_pop b (of_nat k) ad = Inr ad' \<and> adapter_ok ad' \<and> ad_rwlock ad' = Unlocked
    \<and> adapter_cursor ad' = adapter_cursor ad \<and> adapter_entries ad' = (adapter_entries ad)(k := None)"
  using pop_entry [OF assms(1), of "of_nat k" b "Reading 1"] assms(2,3) by (simp add: slot_index_ticket)

lemma get_live:
  assumes "adapter_ok ad" and "k < 1024"
  shows "IDAdapter_get (of_nat k) ad = Inr (map_option fst (adapter_entries ad k))"
  using get_entry [OF assms(1), of "of_nat k"] assms(2) by (simp add: slot_index_ticket)

text \<open>What follows the caching: the client gets the response under its own id and the ticket is
  given back.\<close>

lemma relay_finish:
  assumes "relay_ok st" and "k < 1024" and "rl_buffer st = m @ tail"
    and "m = wire_header i fl qd an ns ad @ body"
  shows "\<exists>st'. bindE (set_header_id (rl_buffer st) (ia_old_id info)) (\<lambda>buffer.
         bindE (IDAdapter_pop b (of_nat k) (rl_adapter st)) (\<lambda>ad.
         Inr ([(Server_sockfd, ia_addr info, take (length m) buffer)],
              st\<lparr>rl_buffer := buffer, rl_adapter := ad\<rparr>)))
      = Inr ([(Server_sockfd, ia_addr info, wire_header (ia_old_id info) fl qd an ns ad @ body)], st')
    \<and> relay_ok st' \<and> rl_caches st' = rl_caches st \<and> rl_query_server st' = rl_query_server st
    \<and> rl_len st' = rl_len st \<and> adapter_cursor (rl_adapter st') = adapter_cursor (rl_adapter st)
    \<and> adapter_entries (rl_adapter st') = (adapter_entries (rl_adapter st))(k := None)
    \<and> IDAdapter_pop b (of_nat k) (rl_adapter st) = Inr (rl_adapter st')"
proof -
  obtain ad' where "IDAdapter_pop b (of_nat k) (rl_adapter st) = Inr ad'" "adapter_ok ad'" "ad_rwlock ad' = Unlocked"
    "adapter_cursor ad' = adapter_cursor (rl_adapter st)"
    "adapter_entries ad' = (adapter_entries (rl_adapter st))(k := None)"
    using pop_live [OF _ _ assms(2), of "rl_adapter st" b] assms(1) by (auto simp: relay_ok_def)
  moreover have "length m = 12 + length body" using assms(4) by simp
  ultimately show ?thesis
    using assms(1,3,4) by (auto simp: set_header_id_wire relay_ok_def)
qed

lemma relay_response_plain:
  assumes "relay_ok st" and "rl_len st = ADDR_LEN" and "length m \<le> 520" and "length src = ADDR_LEN"
    and m: "m = wire_header (of_nat k) fl qd an ns ad @ body" and k: "k < 1024"
    and e: "adapter_entries (rl_adapter st) k = Some (info, time, q)" and ty: "ia_type info \<notin> {1, 28}"
  shows "\<exists>st'. handle_relay b now now' (Recv m src) st = Some (Inr (
      [(Server_sockfd, ia_addr info, wire_header (ia_old_id info) fl qd an ns ad @ body)], st'))
    \<and> relay_ok st' \<and> rl_caches st' = rl_caches st \<and> rl_query_server st' = src \<and> rl_len st' = ADDR_LEN
    \<and> adapter_cursor (rl_adapter st') = adapter_cursor (rl_adapter st)
    \<and> adapter_entries (rl_adapter st') = (adapter_entries (rl_adapter st))(k := None)
    \<and> IDAdapter_pop b (of_nat k) (rl_adapter st) = Inr (rl_adapter st')"
proof -
  have "IDAdapter_get (of_nat k) (rl_adapter st) = Inr (Some info)"
    using get_live [OF _ k, of "rl_adapter st"] e assms(1) by (simp add: relay_ok_def)
  moreover have "uint (ia_type info) \<noteq> 1" "uint (ia_type info) \<noteq> 28"
    using ty by (auto simp: word_uint_eq_iff)
  ultimately show ?thesis
    using handle_relay_wire [OF assms(1-4) m, of b now now']
      relay_finish [OF relay_ok_responded [OF assms(1,3,4)] k _ m, of "drop (length m) (rl_buffer st)" info b]
    by (auto simp: responded_def)
qed

text \<open>A response to a query of type A or AAAA, given what becomes of its records.\<close>

lemma relay_response_stored:
  assumes "relay_ok st" and "rl_len st = ADDR_LEN" and "length src = ADDR_LEN"
    and m: "m = wire_header (of_nat k) fl qd an ns ad @ body" "length m \<le> 520" and k: "k < 1024"
    and e: "adapter_entries (rl_adapter st) k = Some (info, time, q)"
    and ty: "ia_type info \<in> {1, 28}"
    and st1: "cache_response now now' (ia_type info) (responded m src st) = Some (Inr st1)" "relay_ok st1"
      "rl_buffer st1 = rl_buffer (responded m src st)" "rl_adapter st1 = rl_adapter st"
      "rl_query_server st1 = src" "rl_len st1 = ADDR_LEN"
  shows "\<exists>st'. handle_relay b now now' (Recv m src) st = Some (Inr ([(Server_sockfd, ia_addr info,
      wire_header (ia_old_id info) fl qd an ns ad @ body)], st'))
    \<and> relay_ok st' \<and> rl_caches st' = rl_caches st1 \<and> rl_query_server st' = src \<and> rl_len st' = ADDR_LEN
    \<and> adapter_cursor (rl_adapter st') = adapter_cursor (rl_adapter st)
    \<and> adapter_entries (rl_adapter st') = (adapter_entries (rl_adapter st))(k := None)
    \<and> IDAdapter_pop b (of_nat k) (rl_adapter st) = Inr (rl_adapter st')"
proof -
  have buf: "rl_buffer st1 = m @ drop (length m) (rl_buffer st)" by (simp add: st1(3) responded_def)
  have "IDAdapter_get (of_nat k) (rl_adapter st) = Inr (Some info)"
    using get_live [OF _ k, of "rl_adapter st"] e assms(1) by (simp add: relay_ok_def)
  moreover have "uint (ia_type info) = 1 \<or> uint (ia_type info) = 28" using ty by auto
  ultimately show ?thesis
    using handle_relay_wire [OF assms(1,2) m(2) assms(3) m(1), of b now now'] st1
      relay_finish [OF st1(2) k buf m(1), of info b]
    by auto
qed

lemma relay_response_cached:
  assumes "relay_ok st" and "rl_len st = ADDR_LEN" and "length src = ADDR_LEN" and "name_ok ls"
    and r: "response_ok m (of_nat k) fl ls t c rs ns ad rest" and k: "k < 1024"
    and e: "adapter_entries (rl_adapter st) k = Some (info, time, q)"
    and ty: "ia_type info = ucast v" and v: "v = 1 \<or> v = 28"
    and n: "filter is_address rs \<noteq> []" "length (filter is_address rs) \<le> 10"
    and fresh: "\<forall>r \<in> set (filter is_address rs). now' \<le> now + uint (rr_ttl r)"
    and room: "length (cache_contents (temp_cache v (rl_caches st))) < cache_capacity (temp_cache v (rl_caches st))"
  shows "\<exists>st' ds. handle_relay b now now' (Recv m src) st = Some (Inr ([(Server_sockfd, ia_addr info,
      wire_header (ia_old_id info) fl 1 (of_nat (length rs)) ns ad @ wire_question ls t c @ rest)], st'))
    \<and> relay_ok st' \<and> list_all2 (record_of now (dotted ls)) (filter is_address rs) ds
    \<and> cache_put v (dotted ls) ds (rl_caches st) (rl_caches st') \<and> rl_query_server st' = src \<and> rl_len st' = ADDR_LEN
    \<and> adapter_cursor (rl_adapter st') = adapter_cursor (rl_adapter st)
    \<and> adapter_entries (rl_adapter st') = (adapter_entries (rl_adapter st))(k := None)
    \<and> IDAdapter_pop b (of_nat k) (rl_adapter st) = Inr (rl_adapter st')"
proof -
  note m = response_okD(1,2) [OF r]
  have ok: "relay_ok (responded m src st)" by (rule relay_ok_responded [OF assms(1) m(2) assms(3)])
  have buf: "rl_buffer (responded m src st) = m @ drop (length m) (rl_buffer st)" by (simp add: responded_def)
  obtain st1 ds where st1: "cache_response now now' (ucast v) (responded m src st) = Some (Inr st1)" "relay_ok st1"
    "rl_buffer st1 = rl_buffer (responded m src st)" "rl_adapter st1 = rl_adapter st"
    "rl_query_server st1 = src" "rl_len st1 = ADDR_LEN"
    and ds: "list_all2 (record_of now (dotted ls)) (filter is_address rs) ds"
    "cache_put v (dotted ls) ds (rl_caches st) (rl_caches st1)"
    using cache_response_ok [OF ok assms(4) r buf v n fresh] room by (auto simp: responded_def)
  have "ia_type info \<in> {1, 28}" using ty v by auto
  then show ?thesis
    using relay_response_stored [OF assms(1-3) m k e _ st1 [folded ty], of b] ds by auto
qed

lemma relay_response_empty:
  assumes "relay_ok st" and "rl_len st = ADDR_LEN" and "length src = ADDR_LEN" and "name_ok ls"
    and r: "response_ok m (of_nat k) fl ls t c rs ns ad rest" and k: "k < 1024"
    and e: "adapter_entries (rl_adapter st) k = Some (info, time, q)" and ty: "ia_type info \<in> {1, 28}"
    and n: "filter is_address rs = []"
  shows "\<exists>st'. handle_relay b now now' (Recv m src) st = Some (Inr ([(Server_sockfd, ia_addr info,
      wire_header (ia_old_id info) fl 1 (of_nat (length rs)) ns ad @ wire_question ls t c @ rest)], st'))
    \<and> relay_ok st' \<and> rl_caches st' = rl_caches st \<and> rl_query_server st' = src \<and> rl_len st' = ADDR_LEN
    \<and> adapter_cursor (rl_adapter st') = adapter_cursor (rl_adapter st)
    \<and> adapter_entries (rl_adapter st') = (adapter_entries (rl_adapter st))(k := None)
    \<and> IDAdapter_pop b (of_nat k) (rl_adapter st) = Inr (rl_adapter st')"
proof -
  note m = response_okD(1,2) [OF r]
  have ok: "relay_ok (responded m src st)" by (rule relay_ok_responded [OF assms(1) m(2) assms(3)])
  have buf: "rl_buffer (responded m src st) = m @ drop (length m) (rl_buffer st)" by (simp add: responded_def)
  obtain st1 where st1: "cache_response now now' (ia_type info) (responded m src st) = Some (Inr st1)" "relay_ok st1"
    "rl_buffer st1 = rl_buffer (responded m src st)" "rl_adapter st1 = rl_adapter st"
    "rl_query_server st1 = src" "rl_len st1 = ADDR_LEN" and "rl_caches st1 = rl_caches st"
    using cache_response_empty [OF ok assms(4) r buf n, of now now' "ia_type info"] by (auto simp: responded_def)
  then show ?thesis
    using relay_response_stored [OF assms(1-3) m k e ty st1, of b] by auto
qed

text \<open>A response under a ticket that is not in use is dropped.\<close>

lemma relay_response_dropped:
  assumes "relay_ok st" and "rl_len st = ADDR_LEN" and "length m \<le> 520" and "length src = ADDR_LEN"
    and m: "m = wire_header (of_nat k) fl qd an ns ad @ body" and k: "k < 1024"
    and e: "adapter_entries (rl_adapter st) k = None"
  shows "handle_relay b now now' (Recv m src) st = Some (Inr ([], responded m src st))"
proof -
  have "IDAdapter_get (of_nat k) (rl_adapter st) = Inr None"
    using get_live [OF _ k, of "rl_adapter st"] e assms(1) by (simp add: relay_ok_def)
  then show ?thesis using handle_relay_wire [OF assms(1-4) m, of b now now'] by simp
qed

end
