(* ===== verification/Printf.thy ===== *)
theory Printf
  imports Bytes
begin

text \<open>
  The part of \<open>printf\<close> the program uses: the conversions \<open>%d\<close>, \<open>%s\<close>, \<open>%x\<close> and \<open>%%\<close> with the
  flags \<open>-\<close> and \<open>0\<close> and a field width. An argument of the wrong kind, or a missing one, is
  undefined.
\<close>

definition str :: "string \<Rightarrow> cstring" where
  "str s = map of_char s"

datatype va = VInt int | VStr cstring

definition digit :: "nat \<Rightarrow> byte" where
  "digit d = of_nat (if d < 10 then 48 + d else 87 + d)"

function number :: "nat \<Rightarrow> nat \<Rightarrow> cstring" where
  "number base n = (if base < 2 \<or> n < base then [digit n] else number base (n div base) @ [digit (n mod base)])"
  by auto
termination by (relation "measure snd") auto

declare number.simps [simp del]

definition dec :: "int \<Rightarrow> cstring" where
  "dec i = (if i < 0 then 45 # number 10 (nat (- i)) else number 10 (nat i))"

definition is_digit :: "byte \<Rightarrow> bool" where
  "is_digit b \<longleftrightarrow> 48 \<le> uint b \<and> uint b \<le> 57"

definition is_flag :: "byte \<Rightarrow> bool" where
  "is_flag b \<longleftrightarrow> b = 45 \<or> b = 48"

text \<open>The number a string starts with.\<close>

fun digits :: "int \<Rightarrow> cstring \<Rightarrow> int" where
  "digits acc [] = acc"
| "digits acc (b # bs) = (if 48 \<le> uint b \<and> uint b \<le> 57 then digits (10 * acc + (uint b - 48)) bs else acc)"

definition pad :: "cstring \<Rightarrow> nat \<Rightarrow> cstring \<Rightarrow> cstring" where
  "pad flags width t =
     (if 45 \<in> set flags then t @ replicate (width - length t) 32
      else if 48 \<in> set flags then replicate (width - length t) 48 @ t
      else replicate (width - length t) 32 @ t)"

fun convert :: "byte \<Rightarrow> va \<Rightarrow> cstring result" where
  "convert k (VInt i) =
     (if k = of_char (CHR ''d'') then Inr (dec i)
      else if k = of_char (CHR ''x'') then Inr (number 16 (nat (i mod 2 ^ 32)))
      else Inl BadArgument)"
| "convert k (VStr s) = (if k = of_char (CHR ''s'') then Inr s else Inl BadArgument)"

function vformat :: "cstring \<Rightarrow> va list \<Rightarrow> cstring result" where
  "vformat [] ap = Inr []"
| "vformat (c # fmt) ap =
     (if c \<noteq> of_char (CHR ''%'') then bindE (vformat fmt ap) (\<lambda>t. Inr (c # t))
      else
        let flags = takeWhile is_flag fmt; spec = dropWhile is_flag fmt;
            width = nat (digits 0 spec)
        in case dropWhile is_digit spec of
             [] \<Rightarrow> Inl BadArgument
           | k # fmt \<Rightarrow>
               if k = c then bindE (vformat fmt ap) (\<lambda>t. Inr (c # t))
               else
                 case ap of
                   [] \<Rightarrow> Inl BadArgument
                 | v # ap \<Rightarrow>
                     bindE (convert k v) (\<lambda>s.
                     bindE (vformat fmt ap) (\<lambda>t. Inr (pad flags width s @ t))))"
  by pat_completeness auto

lemma directive_shorter: "dropWhile is_digit (dropWhile is_flag fmt) = k # rest \<Longrightarrow> length rest < length fmt"
  using length_dropWhile_le [of is_digit "dropWhile is_flag fmt"] length_dropWhile_le [of is_flag fmt]
  by (metis length_Cons less_eq_Suc_le order_trans)

termination vformat by (relation "measure (\<lambda>(fmt, ap). length fmt)") (auto dest: directive_shorter intro: less_SucI)

end
