(* ===== verification/Startup.thy ===== *)
theory Startup
  imports LocalRecord RelayProofs Printf
begin

text \<open>
  Start-up and shut-down of the relay, \<open>init\<close>, \<open>init_query_server\<close> and \<open>clean_up\<close> of
  \<open>src/src/main.c\<close>: the command line, the local records, the caches and the address of the
  upstream server. The sockets, which \<open>init\<close> opens last, are in the theory \<open>Network\<close>. The
  initial bytes of the automatic variables of \<open>main\<close> are arguments.
\<close>

section \<open>Model\<close>

subsection \<open>The command line\<close>

text \<open>\<open>atoi\<close>: white space, a sign, digits up to the first other character; a number outside the
  range of \<open>int\<close> is undefined.\<close>

definition atoi :: "cstring \<Rightarrow> int result" where
  "atoi s = (let s = dropWhile isspace s;
       n = (case s of [] \<Rightarrow> 0
            | b # bs \<Rightarrow> if b = 45 then - digits 0 bs else if b = 43 then digits 0 bs else digits 0 s)
     in if - (2 ^ 31) \<le> n \<and> n < 2 ^ 31 then Inr n else Inl BadConversion)"

record options =
  opt_debug :: "cstring option"
  opt_file :: "cstring option"
  opt_server :: "cstring option"
  opt_cache_num :: int

text \<open>\<open>dnsExit\<close> prints the usage and ends the process.\<close>

definition dnsExit :: "'a result" where
  "dnsExit = Inl (Exit 0)"

fun parse_args :: "cstring list \<Rightarrow> options \<Rightarrow> options result" where
  "parse_args [] opts = Inr opts"
| "parse_args [a] opts = dnsExit"
| "parse_args (a # v # args) opts =
     (if a = str ''-d'' then parse_args args (opts\<lparr>opt_debug := Some v\<rparr>)
      else if a = str ''-f'' then parse_args args (opts\<lparr>opt_file := Some v\<rparr>)
      else if a = str ''-s'' then parse_args args (opts\<lparr>opt_server := Some v\<rparr>)
      else if a = str ''-c'' then bindE (atoi v) (\<lambda>n. parse_args args (opts\<lparr>opt_cache_num := n\<rparr>))
      else dnsExit)"

definition no_options :: options where
  "no_options = \<lparr>opt_debug = None, opt_file = None, opt_server = None, opt_cache_num = 0\<rparr>"

subsection \<open>Initialisation\<close>

text \<open>The \<open>struct sockaddr_in\<close> of the upstream server: family 2 in host order, port 53, the
  address, or null when the text is not one, and eight zero bytes.\<close>

definition init_query_server :: "pton \<Rightarrow> cstring \<Rightarrow> byte list" where
  "init_query_server pton4 addr =
     [2, 0, 0, 53] @ (case pton4 addr of Some bs \<Rightarrow> bs | None \<Rightarrow> replicate 4 0) @ replicate 8 0"

text \<open>The automatic variables of \<open>main\<close> and \<open>load_local_record\<close> that hold arbitrary bytes.\<close>

record garbage =
  gb_ip :: "byte list"
  gb_cliaddr :: "byte list"
  gb_len :: nat
  gb_question :: question
  gb_ans :: "answer list"

definition init :: "pton \<Rightarrow> pton \<Rightarrow> (cstring \<Rightarrow> byte list option) \<Rightarrow> garbage \<Rightarrow> cstring list \<Rightarrow> relay result" where
  "init pton4 pton6 files g args =
     bindE (parse_args args no_options) (\<lambda>opts.
     let file = (case opt_file opts of None \<Rightarrow> str ''dnsrelay.txt'' | Some f \<Rightarrow> f);
         n = (if opt_cache_num opts \<noteq> 0 then opt_cache_num opts else LRU_BUFFER_LENGTH)
     in
     bindE (load_local_record pton4 pton6 (gb_ip g) (files file) zero_cacheset) (\<lambda>(_, cs).
     bindE (init_A_record_cache n CACHE_INFINTE_SIZE CACHE_FILLING_FACTOR) (\<lambda>A.
     bindE (init_A_record_cache n CACHE_INFINTE_SIZE CACHE_FILLING_FACTOR) (\<lambda>AAAA.
     Inr \<lparr>rl_caches = set_AAAA_temp AAAA (set_A_temp A cs), rl_adapter = init_adapter,
          rl_buffer = replicate 1024 0,
          rl_query_server = init_query_server pton4
            (case opt_server opts of None \<Rightarrow> str ''10.3.9.4'' | Some s \<Rightarrow> s),
          rl_cliaddr = gb_cliaddr g, rl_len = gb_len g, rl_question = gb_question g, rl_ans = gb_ans g\<rparr>))))"

definition clean_up :: "cacheset \<Rightarrow> cacheset result" where
  "clean_up cs =
     bindE (free_staticCache (cc_local (cs_A cs))) (\<lambda>a.
     bindE (free_staticCache (cc_local (cs_AAAA cs))) (\<lambda>d.
     bindE (free_staticCache (cs_blacklist cs)) (\<lambda>b.
     bindE (free_cache (cc_temp (cs_A cs))) (\<lambda>A.
     bindE (free_cache (cc_temp (cs_AAAA cs))) (\<lambda>AAAA.
     Inr \<lparr>cs_blacklist = b, cs_A = \<lparr>cc_temp = A, cc_local = a\<rparr>,
          cs_AAAA = \<lparr>cc_temp = AAAA, cc_local = d\<rparr>\<rparr>)))))"

section \<open>Lemmas\<close>

definition garbage_ok :: "garbage \<Rightarrow> bool" where
  "garbage_ok g \<longleftrightarrow> length (gb_ip g) = 16 \<and> length (gb_cliaddr g) = ADDR_LEN
     \<and> length (q_label (gb_question g)) = MAX_NAME_LENGTH \<and> length (gb_ans g) = 20
     \<and> list_all answer_shape (gb_ans g)"

lemma init_temp:
  assumes "0 \<le> n" and "n < 2 ^ 29"
  defines "m \<equiv> if n \<noteq> 0 then n else LRU_BUFFER_LENGTH"
  shows "\<exists>c. init_A_record_cache m CACHE_INFINTE_SIZE CACHE_FILLING_FACTOR = Inr c \<and> cache_ready c
    \<and> cache_contents c = [] \<and> cache_capacity c = nat m - 1"
proof -
  have m: "0 < m" "m < 2 ^ 29" using assms by (auto simp: LRU_BUFFER_LENGTH_def)
  then have "(of_int m :: rat) < of_int (2 ^ 29)" by (simp only: of_int_less_iff)
  then have "of_int m / CACHE_FILLING_FACTOR < 2 ^ 31 - 1" by (simp add: CACHE_FILLING_FACTOR_def)
  then show ?thesis
    using init_ready [of m CACHE_FILLING_FACTOR CACHE_INFINTE_SIZE] m
    by (simp add: init_A_record_cache_def CACHE_FILLING_FACTOR_def CACHE_INFINTE_SIZE_def)
qed

text \<open>A file that is missing or well formed.\<close>

definition file_ok :: "byte list option \<Rightarrow> bool" where
  "file_ok f \<longleftrightarrow> f = None \<or> (\<exists>es. f = Some (render es) \<and> list_all entry_ok es \<and> length es < 2 ^ 30)"

lemma load_any:
  assumes "pton_ok pton4 pton6" and "length addr = 16" and "file_ok f" and "no_local cs"
  shows "\<exists>ok cs'. load_local_record pton4 pton6 addr f cs = Inr (ok, cs')
    \<and> local_ok (cs_blacklist cs') \<and> local_ok (cc_local (cs_A cs')) \<and> local_ok (cc_local (cs_AAAA cs'))"
proof (cases "f = None \<or> f = Some []")
  case True
  have "local_ok zero_staticCache" by (simp add: local_ok_def zero_staticCache_def)
  with True assms(4) show ?thesis by (auto simp: load_local_record_def init_sets_def no_local_def)
next
  case False
  then obtain es where es: "f = Some (render es)" "list_all entry_ok es" "length es < 2 ^ 30"
    using assms(3) by (auto simp: file_ok_def)
  then have ne: "es \<noteq> []" using False by auto
  show ?thesis
    using load_result [OF assms(1,2) es(2) ne es(3) assms(4) refl, of "[]"] es(1) by (auto simp: local_ok_def)
qed

lemma init_query_server_length: "pton_ok pton4 pton6 \<Longrightarrow> length (init_query_server pton4 s) = ADDR_LEN"
  by (auto simp: init_query_server_def pton_ok_def ADDR_LEN_def split: option.splits)

lemma init_relay:
  assumes "pton_ok pton4 pton6" and "garbage_ok g" and "\<And>f. file_ok (files f)"
    and "parse_args args no_options = Inr opts" and "0 \<le> opt_cache_num opts" and "opt_cache_num opts < 2 ^ 29"
  shows "\<exists>st. init pton4 pton6 files g args = Inr st \<and> relay_ok st \<and> rl_adapter st = init_adapter
    \<and> rl_len st = gb_len g
    \<and> (\<forall>v. cache_contents (temp_cache v (rl_caches st)) = [])
    \<and> (\<forall>v. cache_capacity (temp_cache v (rl_caches st))
        = nat (if opt_cache_num opts \<noteq> 0 then opt_cache_num opts else LRU_BUFFER_LENGTH) - 1)
    \<and> (\<forall>name. opt_file opts = Some name \<longrightarrow> files name = None \<longrightarrow>
        cs_blacklist (rl_caches st) = zero_staticCache \<and> (\<forall>v. local_records v (rl_caches st) = (\<lambda>_. [])))"
proof -
  let ?f = "case opt_file opts of None \<Rightarrow> str ''dnsrelay.txt'' | Some f \<Rightarrow> f"
  have none: "no_local zero_cacheset" by (simp add: no_local_def zero_cacheset_def)
  obtain b cs where load: "load_local_record pton4 pton6 (gb_ip g) (files ?f) zero_cacheset = Inr (b, cs)"
    and ok: "local_ok (cs_blacklist cs)" "local_ok (cc_local (cs_A cs))" "local_ok (cc_local (cs_AAAA cs))"
    using load_any [OF assms(1) _ assms(3) none, of "gb_ip g" ?f] assms(2) by (auto simp: garbage_ok_def)
  obtain c where c: "init_A_record_cache (if opt_cache_num opts \<noteq> 0 then opt_cache_num opts else LRU_BUFFER_LENGTH)
      CACHE_INFINTE_SIZE CACHE_FILLING_FACTOR = Inr c" "cache_ready c" "cache_contents c = []"
    "cache_capacity c = nat (if opt_cache_num opts \<noteq> 0 then opt_cache_num opts else LRU_BUFFER_LENGTH) - 1"
    using init_temp [OF assms(5,6)] by blast
  define st where "st = \<lparr>rl_caches = set_AAAA_temp c (set_A_temp c cs), rl_adapter = init_adapter,
          rl_buffer = replicate 1024 0,
          rl_query_server = init_query_server pton4 (case opt_server opts of None \<Rightarrow> str ''10.3.9.4'' | Some s \<Rightarrow> s),
          rl_cliaddr = gb_cliaddr g, rl_len = gb_len g, rl_question = gb_question g, rl_ans = gb_ans g\<rparr>"
  have "init pton4 pton6 files g args = Inr st"
    unfolding init_def using assms(4) load c(1) by (simp add: Let_def st_def)
  moreover have "relay_ok st"
    using assms(2) ok c(2) init_query_server_length [OF assms(1)]
    by (simp add: relay_ok_def st_def caches_ok_def garbage_ok_def set_A_temp_def set_AAAA_temp_def)
      (simp add: init_adapter_def)
  moreover have "cs = zero_cacheset" if "opt_file opts = Some name" "files name = None" for name
    using load that by (simp add: load_local_record_def)
  ultimately show ?thesis
    using c(3,4)
    by (auto simp: st_def temp_cache_def set_A_temp_def set_AAAA_temp_def zero_cacheset_def local_records_def
        compound_def local_view_def zero_staticCache_def fun_eq_iff)
qed

end
