(* ===== verification/RelayProperties.thy ===== *)
theory RelayProperties
  imports Startup
begin

text \<open>
  The properties of the relay loop of \<open>src/src/main.c\<close>: what a client and the upstream server
  observe.
\<close>

section \<open>Helper lemmas\<close>

text \<open>A cached record as it is sent \<open>age\<close> seconds after it was received.\<close>

definition aged_rr :: "byte list list \<Rightarrow> u16 \<Rightarrow> u16 \<Rightarrow> int \<Rightarrow> rr \<Rightarrow> byte list" where
  "aged_rr ls t c age r = wire_name ls @ wire_rr t c (clip32 (sint (of_int (uint (rr_ttl r) - age) :: u32))) (rr_data r)"

lemma wire_pair_aged:
  assumes "record_of now label r d" and "length (rr_data r) = rdata_size t"
  shows "wire_pair ls t c (rd_ip d, rd_ttl d - now') = aged_rr ls t c (now' - now) r"
proof -
  have "rd_ttl d - now' = uint (rr_ttl r) - (now' - now)" using assms(1) by (simp add: record_of_def)
  moreover have "take (rdata_size t) (ip_addr (rd_ip d)) = rr_data r"
    using assms by (simp add: record_of_def)
  ultimately show ?thesis by (simp only: wire_pair_def aged_rr_def fst_conv snd_conv)
qed

lemma wire_pairs_aged:
  assumes "list_all2 (record_of now label) rs ds" and "\<forall>r \<in> set rs. length (rr_data r) = rdata_size t"
  shows "map (\<lambda>d. wire_pair ls t c (rd_ip d, rd_ttl d - now')) ds = map (aged_rr ls t c (now' - now)) rs"
  using assms by (induction rule: list_all2_induct) (simp_all add: wire_pair_aged)

lemma records_shape:
  assumes "list_all2 (record_of now label) rs ds" and "rs \<noteq> []" and "\<forall>r \<in> set rs. tget \<le> now + uint (rr_ttl r)"
  shows "length ds = length rs" and "ds \<noteq> []" and "list_all (\<lambda>d. length (ip_addr (rd_ip d)) = 16) ds"
    and "\<not> expired tget ds"
proof -
  show len: "length ds = length rs" using assms(1) by (simp add: list_all2_lengthD)
  then show ne: "ds \<noteq> []" using assms(2) by auto
  show "list_all (\<lambda>d. length (ip_addr (rd_ip d)) = 16) ds"
    using assms(1) by (induction rule: list_all2_induct) (auto simp: record_of_def)
  have "tget \<le> rd_ttl (hd ds)"
    using fresh_records [OF assms(1,3)] ne by (cases ds) auto
  then show "\<not> expired tget ds" using ne by (simp add: expired_def)
qed

text \<open>The query a client sends.\<close>

definition query :: "u16 \<Rightarrow> u16 \<Rightarrow> byte list list \<Rightarrow> u16 \<Rightarrow> u16 \<Rightarrow> byte list \<Rightarrow> byte list" where
  "query i ad ls t c rest = wire_header i FLAG_QUERY 1 0 0 ad @ wire_question ls t c @ rest"

definition request_ok :: "byte list list \<Rightarrow> u16 \<Rightarrow> u16 \<Rightarrow> byte list \<Rightarrow> byte list \<Rightarrow> bool" where
  "request_ok ls t c rest src \<longleftrightarrow> name_ok ls \<and> 12 + length (wire_question ls t c @ rest) \<le> 520
     \<and> length src = ADDR_LEN"

text \<open>No cache has an answer for the name.\<close>

definition unknown :: "byte list list \<Rightarrow> u16 \<Rightarrow> cacheset \<Rightarrow> bool" where
  "unknown ls t cs \<longleftrightarrow> local_view (cs_blacklist cs) (dotted ls) = [] \<and> local_records t cs (dotted ls) = []
     \<and> cached_records t cs (dotted ls) = None"

lemma request_received:
  assumes "relay_ok st" and "request_ok ls t c rest src"
  shows "handle_request b tget now clk (Recv (query i ad ls t c rest) src) st
      = answer_request b tget now clk i (length (query i ad ls t c rest)) (received (query i ad ls t c rest) src st)"
    and "relay_ok (received (query i ad ls t c rest) src st)" and "name_ok ls"
    and "length (query i ad ls t c rest) \<le> 520"
    and "rl_buffer (received (query i ad ls t c rest) src st) = query i ad ls t c rest
      @ drop (length (query i ad ls t c rest)) (rl_buffer st)"
proof -
  have len: "length (query i ad ls t c rest) \<le> 520" and src: "length src = ADDR_LEN"
    using assms(2) by (simp_all add: request_ok_def query_def)
  show "handle_request b tget now clk (Recv (query i ad ls t c rest) src) st
      = answer_request b tget now clk i (length (query i ad ls t c rest)) (received (query i ad ls t c rest) src st)"
    by (rule handle_request_query [OF assms(1) len src]) (simp add: query_def)
  show "relay_ok (received (query i ad ls t c rest) src st)"
    by (rule relay_ok_received [OF assms(1) len src])
qed (use assms(2) in \<open>simp_all add: request_ok_def query_def received_def\<close>)

lemma request_forwarded:
  assumes "relay_ok st" and "request_ok ls t c rest src" and "unknown ls t (rl_caches st)"
    and "adapter_entries (rl_adapter st) (adapter_cursor (rl_adapter st)) = None"
  defines "k \<equiv> adapter_cursor (rl_adapter st)"
  shows "\<exists>st'. handle_request b tget now clk (Recv (query i ad ls t c rest) src) st
      = Some (Inr ([(Query_sockfd, rl_query_server st, query (of_nat k) ad ls t c rest)], st'))
    \<and> relay_ok st' \<and> rl_caches st' = rl_caches st \<and> rl_query_server st' = rl_query_server st
    \<and> rl_len st' = ADDR_LEN \<and> adapter_cursor (rl_adapter st') = Suc k mod 1024
    \<and> adapter_entries (rl_adapter st') = (adapter_entries (rl_adapter st))(k \<mapsto>
        (\<lparr>ia_addr = src, ia_old_id = i, ia_type = ucast t\<rparr>, clk, c_str (query i ad ls t c rest)))
    \<and> (\<exists>x. IDAdapter_push b i src (ucast t) clk (query i ad ls t c rest @ 0 # x) (rl_adapter st)
        = Inr (int k, rl_adapter st'))"
proof -
  let ?m = "query i ad ls t c rest" and ?q = "wire_question ls t c @ rest"
  have m: "?m = wire_header i FLAG_QUERY 1 0 0 ad @ ?q" by (simp add: query_def)
  note rc = request_received(1,2) [OF assms(1,2), where i = i and ad = ad]
    request_received(3) [OF assms(1,2)] request_received(4,5) [OF assms(1,2), where i = i and ad = ad]
  show ?thesis
    unfolding rc(1) k_def
    using answer_miss [OF rc(2,3,5,4) m, where b = b and tget = tget and now = now and clk = clk and j = i]
      assms(3,4)
    by (simp add: unknown_def query_def)
qed

lemma request_answered_from_cache:
  assumes "relay_ok st" and "request_ok ls t c rest src" and "t = 1 \<or> t = 28"
    and "local_view (cs_blacklist (rl_caches st)) (dotted ls) = []" and "local_records t (rl_caches st) (dotted ls) = []"
    and "cached_records t (rl_caches st) (dotted ls) = Some ds" and "list_all2 (record_of now (dotted ls)) rs ds"
    and rs: "rs \<noteq> []" "length rs \<le> 20" "\<forall>r \<in> set rs. tget \<le> now + uint (rr_ttl r)"
      "\<forall>r \<in> set rs. length (rr_data r) = rdata_size t"
    and fits: "12 + length (wire_question ls t c @ concat (map (aged_rr ls t c (now2 - now)) rs)) \<le> 1024"
  shows "\<exists>st'. handle_request b tget now2 clk (Recv (query i ad ls t c rest) src) st
      = Some (Inr ([(Server_sockfd, src, wire_header i FLAG_RESPONSE_NORMAL 1 (of_nat (length rs)) 0 ad
          @ wire_question ls t c @ concat (map (aged_rr ls t c (now2 - now)) rs))], st'))
    \<and> relay_ok st' \<and> rl_adapter st' = rl_adapter st \<and> rl_len st' = ADDR_LEN
    \<and> rl_query_server st' = rl_query_server st \<and> cache_put t (dotted ls) ds (rl_caches st) (rl_caches st')"
proof -
  let ?m = "query i ad ls t c rest" and ?w = "concat (map (aged_rr ls t c (now2 - now)) rs)"
  let ?st = "received ?m src st" and ?tail = "rest @ drop (length ?m) (rl_buffer st)"
  note rc = request_received(1,2) [OF assms(1,2), where i = i and ad = ad]
    request_received(3) [OF assms(1,2)] request_received(4,5) [OF assms(1,2), where i = i and ad = ad]
  have buf: "rl_buffer ?st = wire_header i FLAG_QUERY 1 0 0 ad @ wire_question ls t c @ ?tail"
    using rc(5) by (simp add: query_def)
  have "length (rl_buffer ?st) = 1024" using rc(2) by (simp add: relay_ok_def)
  then have "length ?w \<le> length ?tail" using fits by (simp add: buf)
  moreover have "map (\<lambda>d. wire_pair ls t c (rd_ip d, rd_ttl d - now2)) ds = map (aged_rr ls t c (now2 - now)) rs"
    by (rule wire_pairs_aged [OF assms(7) rs(4)])
  moreover note shape = records_shape [OF assms(7) rs(1,3)]
  ultimately show ?thesis
    unfolding rc(1)
    using answer_from_cache [OF rc(2,3) assms(3) buf, where ds = ds and b = b and tget = tget and now = now2
        and clk = clk and j = i and n = "length ?m"] assms(4-6) rs(2)
    by auto
qed

lemma request_blacklisted:
  assumes "relay_ok st" and "request_ok ls t c rest src"
    and "local_view (cs_blacklist (rl_caches st)) (dotted ls) \<noteq> []"
  shows "\<exists>st'. handle_request b tget now clk (Recv (query i ad ls t c rest) src) st
      = Some (Inr ([(Server_sockfd, src, wire_header i 0x8003 1 0 0 ad @ wire_question ls t c @ rest)], st'))
    \<and> relay_ok st' \<and> rl_caches st' = rl_caches st \<and> rl_adapter st' = rl_adapter st
    \<and> rl_query_server st' = rl_query_server st \<and> rl_len st' = ADDR_LEN"
proof -
  let ?m = "query i ad ls t c rest" and ?q = "wire_question ls t c @ rest"
  let ?st = "(received ?m src st)\<lparr>rl_question := asked ls t c (rl_question (received ?m src st))\<rparr>"
  let ?tail = "drop (length ?m) (rl_buffer st)"
  note rc = request_received(1,2) [OF assms(1,2), where i = i and ad = ad]
    request_received(3) [OF assms(1,2)] request_received(4,5) [OF assms(1,2), where i = i and ad = ad]
  have buf: "rl_buffer (received ?m src st) = wire_header i FLAG_QUERY 1 0 0 ad @ wire_question ls t c @ rest @ ?tail"
    using rc(5) by (simp add: query_def)
  have "set_header_rcode_name_error (wire_header i FLAG_RESPONSE_NORMAL 1 0 0 ad @ ?q @ ?tail)
      = Inr (wire_header i 0x8003 1 0 0 ad @ ?q @ ?tail)"
  proof -
    have "be16 (hi8 FLAG_RESPONSE_NORMAL) (lo8 FLAG_RESPONSE_NORMAL AND 0xf0 OR 3) = 0x8003" by code_simp
    then show ?thesis by (simp add: set_header_rcode_name_error_def set_rcode_wire)
  qed
  moreover have "length ?m = 12 + length ?q" by (simp add: query_def)
  ultimately have "refuse set_header_rcode_name_error (length ?m) ?st
      = Inr ([(Server_sockfd, src, wire_header i 0x8003 1 0 0 ad @ ?q)],
          ?st\<lparr>rl_buffer := wire_header i 0x8003 1 0 0 ad @ ?q @ ?tail\<rparr>)"
    using buf by (simp add: refuse_def set_header_flag_wire)
  moreover have "relay_ok (?st\<lparr>rl_buffer := wire_header i 0x8003 1 0 0 ad @ ?q @ ?tail\<rparr>)"
    using answer_request_start(1) [OF rc(2,3) buf refl] buf by (simp add: relay_ok_def)
  ultimately show ?thesis
    unfolding rc(1)
    using answer_request_start(2) [OF rc(2,3) buf refl, of b tget now clk i "length ?m"] assms(3) by auto
qed

lemma request_local:
  assumes "relay_ok st" and "request_ok ls t c rest src" and "t = 1 \<or> t = 28"
    and "local_view (cs_blacklist (rl_caches st)) (dotted ls) = []"
    and "local_records t (rl_caches st) (dotted ls) = ips" and "ips \<noteq> []" and "length ips \<le> 20"
    and "\<forall>ip \<in> set ips. length (ip_addr ip) = 16"
    and "12 + length (wire_question ls t c @ concat (map (\<lambda>ip. wire_pair ls t c (ip, 3600)) ips)) \<le> 1024"
  shows "\<exists>st'. handle_request b tget now clk (Recv (query i ad ls t c rest) src) st
      = Some (Inr ([(Server_sockfd, src, wire_header i FLAG_RESPONSE_NORMAL 1 (of_nat (length ips)) 0 ad
          @ wire_question ls t c @ concat (map (\<lambda>ip. wire_pair ls t c (ip, 3600)) ips))], st'))
    \<and> relay_ok st' \<and> rl_caches st' = rl_caches st \<and> rl_adapter st' = rl_adapter st
    \<and> rl_query_server st' = rl_query_server st \<and> rl_len st' = ADDR_LEN"
proof -
  let ?m = "query i ad ls t c rest" and ?tail = "rest @ drop (length (query i ad ls t c rest)) (rl_buffer st)"
  note rc = request_received(1,2) [OF assms(1,2), where i = i and ad = ad]
    request_received(3) [OF assms(1,2)] request_received(4,5) [OF assms(1,2), where i = i and ad = ad]
  have buf: "rl_buffer (received ?m src st) = wire_header i FLAG_QUERY 1 0 0 ad @ wire_question ls t c @ ?tail"
    using rc(5) by (simp add: query_def)
  have "length (rl_buffer (received ?m src st)) = 1024" using rc(2) by (simp add: relay_ok_def)
  then have "length (concat (map (\<lambda>ip. wire_pair ls t c (ip, 3600)) ips)) \<le> length ?tail"
    using assms(9) by (simp add: buf)
  then show ?thesis
    unfolding rc(1)
    using answer_from_local [OF rc(2,3) assms(3) buf, where ips = ips and b = b and tget = tget and now = now
        and clk = clk and j = i and n = "length ?m"] assms(4-8)
    by (auto simp: list_all_iff)
qed

section \<open>Properties\<close>

text \<open>The relay as its users see it, over three turns of the loop. A client's query for a name
  no cache knows goes to the upstream server unchanged but for its id, which becomes a free
  ticket. The server's response under that ticket goes to the client unchanged but for the id,
  which is the client's own again, and its one to ten address records are cached. A later query
  for the name, from any client, is answered at once with these records, their times to live
  reduced by their age; the upstream server is not asked again. At the end the table of pending
  queries is as it was.\<close>

theorem relay_resolves_and_caches:
  assumes "relay_ok st" and "t = 1 \<or> t = 28"
    and "request_ok ls t c rest1 src1" and "unknown ls t (rl_caches st)"
    and "adapter_entries (rl_adapter st) (adapter_cursor (rl_adapter st)) = None"
    and "k = adapter_cursor (rl_adapter st)"
    and "response_ok m (of_nat k) fl ls t c rs ns ad rest" and "length up = ADDR_LEN"
    and "as = filter is_address rs" and "as \<noteq> []" and "length as \<le> 10"
    and "\<forall>r \<in> set as. length (rr_data r) = rdata_size t
      \<and> max (ck_cache ck2) (ck_get ck3) \<le> ck_now ck2 + uint (rr_ttl r)"
    and "length (cache_contents (temp_cache t (rl_caches st))) < cache_capacity (temp_cache t (rl_caches st))"
    and "request_ok ls t c rest3 src3" and "age = ck_reply ck3 - ck_now ck2"
    and "12 + length (wire_question ls t c @ concat (map (aged_rr ls t c age) as)) \<le> 1024"
  shows "\<exists>st'. run_loop b
      [(ck1, Selected None (Some (Recv (query i1 ad1 ls t c rest1) src1))),
       (ck2, Selected (Some (Recv m up)) None),
       (ck3, Selected None (Some (Recv (query i3 ad3 ls t c rest3) src3)))] st
    = Some (Inr (
      [(Query_sockfd, rl_query_server st, query (of_nat k) ad1 ls t c rest1),
       (Server_sockfd, src1, wire_header i1 fl 1 (of_nat (length rs)) ns ad @ wire_question ls t c @ rest),
       (Server_sockfd, src3, wire_header i3 FLAG_RESPONSE_NORMAL 1 (of_nat (length as)) 0 ad3
         @ wire_question ls t c @ concat (map (aged_rr ls t c age) as))], st'))
    \<and> relay_ok st' \<and> adapter_entries (rl_adapter st') = adapter_entries (rl_adapter st)"
proof -
  have k: "k < 1024"
    using adapter_okD(2) [of "rl_adapter st"] assms(1,6) by (simp add: relay_ok_def adapter_cursor_def)
  let ?info = "\<lparr>ia_addr = src1, ia_old_id = i1, ia_type = ucast t\<rparr>"
  obtain st1 where st1: "handle_request b (ck_get ck1) (ck_reply ck1) (ck_push ck1) (Recv (query i1 ad1 ls t c rest1) src1) st
      = Some (Inr ([(Query_sockfd, rl_query_server st, query (of_nat k) ad1 ls t c rest1)], st1))"
    "relay_ok st1" "rl_caches st1 = rl_caches st" "rl_len st1 = ADDR_LEN"
    "adapter_entries (rl_adapter st1) = (adapter_entries (rl_adapter st))(k \<mapsto>
        (?info, ck_push ck1, c_str (query i1 ad1 ls t c rest1)))"
    using request_forwarded [OF assms(1,3,4,5), of b "ck_get ck1" "ck_reply ck1" "ck_push ck1" i1 ad1] assms(6)
    by auto
  have name: "name_ok ls" using assms(3) by (simp add: request_ok_def)
  have e: "adapter_entries (rl_adapter st1) k = Some (?info, ck_push ck1, c_str (query i1 ad1 ls t c rest1))"
    by (simp add: st1(5))
  obtain st2 ds where st2: "handle_relay b (ck_now ck2) (ck_cache ck2) (Recv m up) st1 = Some (Inr ([(Server_sockfd, src1,
      wire_header i1 fl 1 (of_nat (length rs)) ns ad @ wire_question ls t c @ rest)], st2))" "relay_ok st2"
    "list_all2 (record_of (ck_now ck2) (dotted ls)) as ds"
    "cache_put t (dotted ls) ds (rl_caches st) (rl_caches st2)"
    "adapter_entries (rl_adapter st2) = adapter_entries (rl_adapter st)"
    using relay_response_cached [OF st1(2,4) assms(8) name assms(7) k e, of t "ck_cache ck2" "ck_now ck2" b] assms(2,5,6,9-13)
      st1(3,5) by fastforce
  note put = cache_put_facts [OF st2(4) assms(2)]
  have known: "cached_records t (rl_caches st2) (dotted ls) = Some ds" by (simp add: put(4))
  obtain st3 where "handle_request b (ck_get ck3) (ck_reply ck3) (ck_push ck3) (Recv (query i3 ad3 ls t c rest3) src3) st2
      = Some (Inr ([(Server_sockfd, src3, wire_header i3 FLAG_RESPONSE_NORMAL 1 (of_nat (length as)) 0 ad3
          @ wire_question ls t c @ concat (map (aged_rr ls t c age) as))], st3))" "relay_ok st3"
    "rl_adapter st3 = rl_adapter st2"
    using request_answered_from_cache [OF st2(2) assms(14,2) _ _ known st2(3) assms(10), of "ck_get ck3" "ck_reply ck3" b "ck_push ck3" i3 ad3]
      assms(4,11,12,15,16) put(2,3) by (auto simp: unknown_def)
  then show ?thesis
    using st1(1) st2(1,5) by (simp add: loop_body_def)
qed

text \<open>A relay just started without local records, and a response with one address, for the examples.\<close>

definition sample_garbage :: garbage where
  "sample_garbage = \<lparr>gb_ip = replicate 16 0, gb_cliaddr = replicate 16 0, gb_len = 16,
     gb_question = blank_question, gb_ans = replicate 20 blank_answer\<rparr>"

lemma sample_garbage_ok: "garbage_ok sample_garbage"
  by (simp add: garbage_ok_def sample_garbage_def ADDR_LEN_def blank_question_def MAX_NAME_LENGTH_def list_all_iff)

lemma relay_example:
  obtains st where "relay_ok st" and "rl_adapter st = init_adapter" and "rl_len st = ADDR_LEN"
    and "\<And>ls t. unknown ls t (rl_caches st)"
    and "\<And>v. length (cache_contents (temp_cache v (rl_caches st))) < cache_capacity (temp_cache v (rl_caches st))"
    and "init toy_pton4 toy_pton6 (\<lambda>_. None) sample_garbage [str ''-f'', str ''x''] = Inr st"
    and "\<And>v. cache_contents (temp_cache v (rl_caches st)) = []"
proof -
  have "parse_args [str ''-f'', str ''x''] no_options = Inr (no_options\<lparr>opt_file := Some (str ''x'')\<rparr>)"
    by (simp add: str_def)
  then obtain st where "relay_ok st" "rl_adapter st = init_adapter" "rl_len st = 16"
    "\<forall>v. cache_contents (temp_cache v (rl_caches st)) = []"
    "\<forall>v. cache_capacity (temp_cache v (rl_caches st)) = 999"
    "cs_blacklist (rl_caches st) = zero_staticCache" "\<forall>v. local_records v (rl_caches st) = (\<lambda>_. [])"
    "init toy_pton4 toy_pton6 (\<lambda>_. None) sample_garbage [str ''-f'', str ''x''] = Inr st"
    using init_relay [OF toy_pton_ok sample_garbage_ok, of "\<lambda>_. None" "[str ''-f'', str ''x'']"]
    by (auto simp: file_ok_def no_options_def sample_garbage_def LRU_BUFFER_LENGTH_def)
  moreover have "cache_contents (cc_temp (cs_A (rl_caches st))) = []"
    "cache_contents (cc_temp (cs_AAAA (rl_caches st))) = []"
    using calculation(4) [rule_format, of 1] calculation(4) [rule_format, of 28] by (simp_all add: temp_cache_def)
  moreover from this calculation have "unknown ls t (rl_caches st)" for ls t
    by (simp add: unknown_def local_view_def zero_staticCache_def cached_records_def compound_def)
  ultimately show thesis using that [of st] by (simp add: ADDR_LEN_def)
qed

definition sample_rr :: rr where
  "sample_rr = \<lparr>rr_labels = [[97]], rr_type = 1, rr_class = 1, rr_ttl = 300, rr_data = [10, 0, 0, 1]\<rparr>"

definition sample_wire :: "byte list" where
  "sample_wire = [192, 12] @ wire_rr 1 1 300 [10, 0, 0, 1]"

text \<open>A response to the query for the name \<open>a\<close>, with \<open>n\<close> copies of the record, its name a pointer to
  the question.\<close>

definition sample_response :: "u16 \<Rightarrow> nat \<Rightarrow> byte list" where
  "sample_response i n = wire_header i 0x8180 1 (of_nat n) 0 0 @ wire_question [[97]] 1 1 @ concat (replicate n sample_wire)"

lemma sample_wire_length: "length sample_wire = 16" "length (wire_question [[97]] 1 1) = 7"
  by (simp_all add: sample_wire_def wire_rr_def wire_question_def)

lemma sample_rrs_at:
  assumes "name_at m 12 [[97]] False [[97]] 14" and "m = pre @ concat (replicate n sample_wire)"
  shows "rrs_at m (length pre) (replicate n sample_rr)"
  using assms(2)
proof (induction n arbitrary: pre)
  case (Suc n)
  let ?p = "length pre" and ?rest = "concat (replicate n sample_wire)"
  have m: "m = pre @ [192, 12] @ wire_rr 1 1 300 [10, 0, 0, 1] @ ?rest" using Suc.prems by (simp add: sample_wire_def)
  have at: "m ! ?p = 192" "m ! Suc ?p = 12" "Suc ?p < length m" by (simp_all add: m nth_append)
  have "be16 192 12 = 0xc00c" by code_simp
  then have "name_at m ?p [[97]] True [[97]] (?p + 2)"
    using assms(1) at by (intro name_at.pointer [where q = 12 and jumped = False])
      (simp_all add: is_compress_iff get_compress_pos_def COMPRESS_MASK_def)
  then have "rr_at m ?p sample_rr (?p + 16)"
    unfolding rr_at_def sample_rr_def using m
    by (intro exI [of _ "[[97]]"] exI [of _ "pre @ [192, 12]"] exI [of _ ?rest]) simp
  moreover have "rrs_at m (length (pre @ sample_wire)) (replicate n sample_rr)"
    by (rule Suc.IH) (use Suc.prems in simp)
  ultimately show ?case by (auto simp: sample_wire_length)
qed simp

lemma sample_response_ok:
  assumes "n \<le> 30"
  shows "response_ok (sample_response i n) i 0x8180 [[97]] 1 1 (replicate n sample_rr) 0 0 (concat (replicate n sample_wire))"
proof -
  let ?h = "wire_header i 0x8180 1 (of_nat n) 0 0" and ?q = "wire_question [[97]] 1 1"
  let ?m = "sample_response i n"
  have m: "?m = (?h @ ?q) @ concat (replicate n sample_wire)" by (simp add: sample_response_def)
  have "name_at ?m 12 [[97]] False [[97]] 14"
    using wire_name_at [of "[[97]]" ?m ?h "net16 1 @ net16 1 @ concat (replicate n sample_wire)"]
    by (simp add: sample_response_def wire_question_def)
  then have "rrs_at ?m (length (?h @ ?q)) (replicate n sample_rr)" using m by (rule sample_rrs_at)
  moreover have "length (concat (replicate n sample_wire)) = 16 * n" by (induction n) (simp_all add: sample_wire_length)
  ultimately show ?thesis
    using assms by (auto simp: response_ok_def m sample_wire_length rr_ok_def is_address_def MAX_NAME_LENGTH_def
        sample_rr_def list_all_iff)
qed

lemma sample_request_ok: "request_ok [[97]] 1 1 [] (replicate 16 x)"
  by (simp add: request_ok_def name_ok_def valid_label_def DOT_def MAX_NAME_LENGTH_def wire_question_def ADDR_LEN_def)

theorem relay_resolves_and_caches_witness:
  "\<exists>st ck st'. relay_ok st \<and> run_loop True
      [(ck, Selected None (Some (Recv (query 5 0 [[97]] 1 1 []) (replicate 16 1)))),
       (ck, Selected (Some (Recv (sample_response 0 1) (replicate 16 2))) None),
       (ck, Selected None (Some (Recv (query 6 0 [[97]] 1 1 []) (replicate 16 3))))] st
    = Some (Inr (
      [(Query_sockfd, rl_query_server st, query 0 0 [[97]] 1 1 []),
       (Server_sockfd, replicate 16 1, sample_response 5 1),
       (Server_sockfd, replicate 16 3, wire_header 6 FLAG_RESPONSE_NORMAL 1 1 0 0
         @ wire_question [[97]] 1 1 @ aged_rr [[97]] 1 1 0 sample_rr)], st'))"
proof -
  obtain st where st: "relay_ok st" "rl_adapter st = init_adapter" "\<And>ls t. unknown ls t (rl_caches st)"
    "\<And>v. length (cache_contents (temp_cache v (rl_caches st))) < cache_capacity (temp_cache v (rl_caches st))"
    by (rule relay_example) blast
  let ?ck = "\<lparr>ck_scan = \<lambda>_. 0, ck_now = 0, ck_cache = 0, ck_get = 0, ck_reply = 0, ck_push = 0\<rparr>"
  have run: "\<exists>st'. run_loop True
      [(?ck, Selected None (Some (Recv (query 5 0 [[97]] 1 1 []) (replicate 16 1)))),
       (?ck, Selected (Some (Recv (sample_response (of_nat 0) 1) (replicate 16 2))) None),
       (?ck, Selected None (Some (Recv (query 6 0 [[97]] 1 1 []) (replicate 16 3))))] st
    = Some (Inr (
      [(Query_sockfd, rl_query_server st, query (of_nat 0) 0 [[97]] 1 1 []),
       (Server_sockfd, replicate 16 1, wire_header 5 0x8180 1 (of_nat (length (replicate 1 sample_rr))) 0 0
         @ wire_question [[97]] 1 1 @ concat (replicate 1 sample_wire)),
       (Server_sockfd, replicate 16 3, wire_header 6 FLAG_RESPONSE_NORMAL 1 (of_nat (length [sample_rr])) 0 0
         @ wire_question [[97]] 1 1 @ concat (map (aged_rr [[97]] 1 1 0) [sample_rr]))], st'))
    \<and> relay_ok st' \<and> adapter_entries (rl_adapter st') = adapter_entries (rl_adapter st)"
    by (rule relay_resolves_and_caches [OF st(1) _ sample_request_ok st(3) _ _ sample_response_ok [of 1]])
      (simp_all add: st(2,4) ADDR_LEN_def is_address_def sample_request_ok
        sample_rr_def rdata_size_def aged_rr_def wire_question_def wire_rr_def)
  show ?thesis
    by (rule exI [of _ st], rule exI [of _ ?ck]) (use st(1) run in \<open>auto simp: sample_response_def\<close>)
qed

text \<open>A request for a blacklisted name gets one reply, at once: the request with the flags of a
  response and the code for a name that does not exist. Nothing goes upstream, and neither the
  caches nor the table of pending queries changes.\<close>

theorem blacklisted_name_refused:
  assumes "relay_ok st" and "request_ok ls t c rest src"
    and "local_view (cs_blacklist (rl_caches st)) (dotted ls) \<noteq> []"
  shows "\<exists>st'. handle_request b tget now clk (Recv (query i ad ls t c rest) src) st
      = Some (Inr ([(Server_sockfd, src, wire_header i 0x8003 1 0 0 ad @ wire_question ls t c @ rest)], st'))
    \<and> relay_ok st' \<and> rl_caches st' = rl_caches st \<and> rl_adapter st' = rl_adapter st"
  using request_blacklisted [OF assms] by blast

theorem blacklisted_name_refused_witness:
  "\<exists>st st'. relay_ok st \<and> handle_request True 0 0 0 (Recv (query 5 0 [[97]] 1 1 []) (replicate 16 1)) st
    = Some (Inr ([(Server_sockfd, replicate 16 1, wire_header 5 0x8003 1 0 0 0 @ wire_question [[97]] 1 1 @ [])], st'))"
proof -
  obtain st where st: "relay_ok st" by (rule relay_example)
  obtain C where C: "static_ok C" "static_contents C [97] = [\<lparr>ip_addr = replicate 16 0, ip_type = 4\<rparr>]"
    by (rule static_example) blast
  let ?st = "st\<lparr>rl_caches := (rl_caches st)\<lparr>cs_blacklist := C\<rparr>\<rparr>"
  have "relay_ok ?st" using st C(1) by (simp add: relay_ok_def caches_ok_def local_ok_def)
  moreover have "local_view (cs_blacklist (rl_caches ?st)) (dotted [[97]]) \<noteq> []"
    using C static_okD(1) [OF C(1)] by (simp add: local_view_def)
  ultimately show ?thesis
    using blacklisted_name_refused [of ?st "[[97]]" 1 1 "[]" "replicate 16 1" True 0 0 0 5 0] sample_request_ok by blast
qed

text \<open>A request of type A or AAAA for a name in the local records is answered from them, each
  address with a time to live of one hour, in the order of the file; the upstream server is not
  asked.\<close>

theorem local_name_answered:
  assumes "relay_ok st" and "request_ok ls t c rest src" and "t = 1 \<or> t = 28"
    and "local_view (cs_blacklist (rl_caches st)) (dotted ls) = []"
    and "local_records t (rl_caches st) (dotted ls) = ips" and "ips \<noteq> []" and "length ips \<le> 20"
    and "\<forall>ip \<in> set ips. length (ip_addr ip) = 16"
    and "12 + length (wire_question ls t c @ concat (map (\<lambda>ip. wire_pair ls t c (ip, 3600)) ips)) \<le> 1024"
  shows "\<exists>st'. handle_request b tget now clk (Recv (query i ad ls t c rest) src) st
      = Some (Inr ([(Server_sockfd, src, wire_header i FLAG_RESPONSE_NORMAL 1 (of_nat (length ips)) 0 ad
          @ wire_question ls t c @ concat (map (\<lambda>ip. wire_pair ls t c (ip, 3600)) ips))], st'))
    \<and> relay_ok st' \<and> rl_caches st' = rl_caches st \<and> rl_adapter st' = rl_adapter st"
  using request_local [OF assms] by blast

theorem local_name_answered_witness:
  "\<exists>st st'. relay_ok st \<and> handle_request True 0 0 0 (Recv (query 5 0 [[97]] 1 1 []) (replicate 16 1)) st
    = Some (Inr ([(Server_sockfd, replicate 16 1, wire_header 5 FLAG_RESPONSE_NORMAL 1 1 0 0
        @ wire_question [[97]] 1 1 @ wire_name [[97]] @ wire_rr 1 1 3600 [0, 0, 0, 0])], st'))"
proof -
  obtain st where st: "relay_ok st" "\<And>ls t. unknown ls t (rl_caches st)" by (rule relay_example) blast
  obtain C where C: "static_ok C" "static_contents C [97] = [\<lparr>ip_addr = replicate 16 0, ip_type = 4\<rparr>]"
    by (rule static_example) blast
  let ?ip = "\<lparr>ip_addr = replicate 16 0, ip_type = 4\<rparr>"
  let ?st = "st\<lparr>rl_caches := (rl_caches st)\<lparr>cs_A := (cs_A (rl_caches st))\<lparr>cc_local := C\<rparr>\<rparr>\<rparr>"
  have ok: "relay_ok ?st" using st(1) C(1) by (simp add: relay_ok_def caches_ok_def local_ok_def)
  have white: "local_view (cs_blacklist (rl_caches ?st)) (dotted [[97]]) = []"
    using st(2) [of "[[97]]" 1] by (simp add: unknown_def)
  have local: "local_records 1 (rl_caches ?st) (dotted [[97]]) = [?ip]"
    using C static_okD(1) [OF C(1)] by (simp add: local_records_def compound_def local_view_def)
  have wire: "wire_pair [[97]] 1 1 (?ip, 3600) = wire_name [[97]] @ wire_rr 1 1 3600 [0, 0, 0, 0]"
    by code_simp
  have "\<exists>st'. handle_request True 0 0 0 (Recv (query 5 0 [[97]] 1 1 []) (replicate 16 1)) ?st
      = Some (Inr ([(Server_sockfd, replicate 16 1, wire_header 5 FLAG_RESPONSE_NORMAL 1 (of_nat (length [?ip])) 0 0
          @ wire_question [[97]] 1 1 @ concat (map (\<lambda>ip. wire_pair [[97]] 1 1 (ip, 3600)) [?ip]))], st'))
    \<and> relay_ok st' \<and> rl_caches st' = rl_caches ?st \<and> rl_adapter st' = rl_adapter ?st"
    by (rule local_name_answered [OF ok sample_request_ok _ white local])
      (simp_all add: wire wire_question_def wire_rr_def)
  with ok show ?thesis by (auto simp: wire)
qed

text \<open>C35. A request whose flags are not those of a query is refused and yet handled: when no cache
  knows the name, the client gets the refusal, and the request, now carrying the flags of that
  refusal, goes to the upstream server and occupies a ticket.\<close>

theorem refused_request_still_forwarded:
  assumes "relay_ok st" and "request_ok ls t c rest src" and "unknown ls t (rl_caches st)"
    and "adapter_entries (rl_adapter st) (adapter_cursor (rl_adapter st)) = None" and "fl \<noteq> FLAG_QUERY"
    and "m = wire_header i fl qd an ns ad @ wire_question ls t c @ rest"
  shows "\<exists>st'. handle_request b tget now clk (Recv m src) st = Some (Inr (
      [(Server_sockfd, src, wire_header i 0x8005 qd an ns ad @ wire_question ls t c @ rest),
       (Query_sockfd, rl_query_server st, wire_header (of_nat (adapter_cursor (rl_adapter st))) 0x8005 qd an ns ad
          @ wire_question ls t c @ rest)], st'))
    \<and> adapter_entries (rl_adapter st') (adapter_cursor (rl_adapter st)) \<noteq> None"
proof -
  let ?q = "wire_question ls t c @ rest" and ?tail = "drop (length m) (rl_buffer st)"
  let ?m = "wire_header i 0x8005 qd an ns ad @ ?q"
  let ?st = "(received m src st)\<lparr>rl_buffer := ?m @ ?tail\<rparr>"
  have len: "length m \<le> 520" "length src = ADDR_LEN" "length m = length ?m" and name: "name_ok ls"
    using assms(2,6) by (simp_all add: request_ok_def)
  have ok: "relay_ok ?st"
    using relay_ok_received [OF assms(1) len(1,2)] len(3) by (simp add: relay_ok_def received_def)
  have buf: "rl_buffer ?st = ?m @ ?tail" and short: "length ?m \<le> 520" using len by simp_all
  have "set_header_rcode_refused (wire_header i FLAG_RESPONSE_NORMAL qd an ns ad @ ?q @ ?tail) = Inr (?m @ ?tail)"
  proof -
    have "be16 (hi8 FLAG_RESPONSE_NORMAL) (lo8 FLAG_RESPONSE_NORMAL AND 0xf0 OR 5) = 0x8005" by code_simp
    then show ?thesis by (simp add: set_header_rcode_refused_def set_rcode_wire)
  qed
  then have "refuse set_header_rcode_refused (length m) (received m src st)
      = Inr ([(Server_sockfd, src, ?m)], ?st)"
    using len(3) assms(6) by (simp add: refuse_def received_def set_header_flag_wire)
  moreover obtain st' where "answer_request b tget now clk i (length ?m) ?st = Some (Inr (
      [(Query_sockfd, rl_query_server st, wire_header (of_nat (adapter_cursor (rl_adapter st))) 0x8005 qd an ns ad @ ?q)], st'))"
    "adapter_entries (rl_adapter st') (adapter_cursor (rl_adapter st)) \<noteq> None"
    using answer_miss [OF ok name buf short refl, where b = b and tget = tget and now = now and clk = clk and j = i]
      assms(3,4) by (auto simp: unknown_def)
  ultimately show ?thesis
    using handle_request_wire [OF assms(1) len(1,2) assms(6), of b tget now clk] assms(5) len(3) by simp
qed

theorem refused_request_still_forwarded_witness:
  "\<exists>st st'. relay_ok st \<and> handle_request True 0 0 0
      (Recv (wire_header 5 0x8180 1 0 0 0 @ wire_question [[97]] 1 1 @ []) (replicate 16 1)) st
    = Some (Inr ([(Server_sockfd, replicate 16 1, wire_header 5 0x8005 1 0 0 0 @ wire_question [[97]] 1 1 @ []),
       (Query_sockfd, rl_query_server st, wire_header 0 0x8005 1 0 0 0 @ wire_question [[97]] 1 1 @ [])], st'))"
proof -
  obtain st where st: "relay_ok st" "rl_adapter st = init_adapter" "\<And>ls t. unknown ls t (rl_caches st)"
    by (rule relay_example) blast
  then show ?thesis
    using refused_request_still_forwarded [OF st(1) sample_request_ok st(3), of "0x8180" _ 5 1 0 0 0 True 0 0 0 1]
    by (auto simp: FLAG_QUERY_def)
qed

text \<open>C32. The upstream server is whoever answered last: a datagram on the query socket replaces the
  server's address by its sender's, even when it belongs to no pending query and is dropped. The
  next query that no cache answers goes to that sender.\<close>

theorem any_sender_becomes_upstream:
  assumes "relay_ok st" and "rl_len st = ADDR_LEN" and "length evil = ADDR_LEN"
    and "k < 1024" and "adapter_entries (rl_adapter st) k = None"
    and "m = wire_header (of_nat k) fl qd an ns ad @ body" and "length m \<le> 520"
    and "request_ok ls t c rest src" and "unknown ls t (rl_caches st)"
    and "adapter_entries (rl_adapter st) (adapter_cursor (rl_adapter st)) = None"
  shows "\<exists>st'. run_loop b [(ck1, Selected (Some (Recv m evil)) None),
      (ck2, Selected None (Some (Recv (query i ad' ls t c rest) src)))] st
    = Some (Inr ([(Query_sockfd, evil, query (of_nat (adapter_cursor (rl_adapter st))) ad' ls t c rest)], st'))"
proof -
  have get: "IDAdapter_get (of_nat k) (rl_adapter st) = Inr None"
    using get_live [OF _ assms(4), of "rl_adapter st"] assms(1,5) by (simp add: relay_ok_def)
  have drop: "handle_relay b (ck_now ck1) (ck_cache ck1) (Recv m evil) st = Some (Inr ([], responded m evil st))"
    using handle_relay_wire [OF assms(1,2,7,3,6), of b "ck_now ck1" "ck_cache ck1"] get by simp
  have same: "rl_caches (responded m evil st) = rl_caches st" "rl_adapter (responded m evil st) = rl_adapter st"
    "rl_query_server (responded m evil st) = evil"
    by (simp_all add: responded_def)
  obtain st' where "handle_request b (ck_get ck2) (ck_reply ck2) (ck_push ck2) (Recv (query i ad' ls t c rest) src)
      (responded m evil st)
    = Some (Inr ([(Query_sockfd, evil, query (of_nat (adapter_cursor (rl_adapter st))) ad' ls t c rest)], st'))"
    using request_forwarded [OF relay_ok_responded [OF assms(1,7,3)] assms(8), of b "ck_get ck2" "ck_reply ck2"
        "ck_push ck2" i ad'] assms(9,10)
    unfolding same by blast
  then show ?thesis using drop by (simp add: loop_body_def)
qed

theorem any_sender_becomes_upstream_witness:
  "\<exists>st ck st'. relay_ok st \<and> rl_query_server st \<noteq> replicate 16 9
    \<and> run_loop True [(ck, Selected (Some (Recv (wire_header 0 0 0 0 0 0) (replicate 16 9))) None),
      (ck, Selected None (Some (Recv (query 5 0 [[97]] 1 1 []) (replicate 16 1))))] st
    = Some (Inr ([(Query_sockfd, replicate 16 9, query 0 0 [[97]] 1 1 [])], st'))"
proof -
  obtain st0 where st0: "relay_ok st0" "rl_adapter st0 = init_adapter" "rl_len st0 = ADDR_LEN"
    "\<And>ls t. unknown ls t (rl_caches st0)"
    by (rule relay_example) blast
  let ?st = "st0\<lparr>rl_query_server := replicate 16 8\<rparr>"
  let ?ck = "\<lparr>ck_scan = \<lambda>_. 0, ck_now = 0, ck_cache = 0, ck_get = 0, ck_reply = 0, ck_push = 0\<rparr>"
  have ok: "relay_ok ?st" using st0(1) by (simp add: relay_ok_def ADDR_LEN_def)
  have run: "\<exists>st'. run_loop True [(?ck, Selected (Some (Recv (wire_header (of_nat 0) 0 0 0 0 0 @ []) (replicate 16 9))) None),
      (?ck, Selected None (Some (Recv (query 5 0 [[97]] 1 1 []) (replicate 16 1))))] ?st
    = Some (Inr ([(Query_sockfd, replicate 16 9, query (of_nat (adapter_cursor (rl_adapter ?st))) 0 [[97]] 1 1 [])], st'))"
    by (rule any_sender_becomes_upstream [OF ok _ _ _ _ refl _ sample_request_ok])
      (simp_all add: st0 ADDR_LEN_def)
  show ?thesis
    by (rule exI [of _ ?st], rule exI [of _ ?ck]) (use ok run st0(2) in \<open>auto simp: numeral_eq_Suc\<close>)
qed



lemma length_c_str_upto: "k < length m \<Longrightarrow> m ! k = 0 \<Longrightarrow> length (c_str m) \<le> k"
proof -
  assume k: "k < length m" "m ! k = 0"
  then have "c_str m = c_str (take k m)"
    using id_take_nth_drop [OF k(1)] c_str_zero [of "take k m" "drop (Suc k) m"] by simp
  then show ?thesis using length_c_str_le [of "take k m"] k(1) by simp
qed



text \<open>C12. \<open>init\<close> brings the relay into a state that satisfies the invariant, for every accepted
  command line and every file that is missing or well formed: the learnt records are empty with
  room for all but one of the records asked for, and no query is pending.\<close>

theorem init_establishes_invariant:
  assumes "pton_ok pton4 pton6" and "garbage_ok g" and "\<And>f. file_ok (files f)"
    and "parse_args args no_options = Inr opts" and "0 \<le> opt_cache_num opts" and "opt_cache_num opts < 2 ^ 29"
  shows "\<exists>st. init pton4 pton6 files g args = Inr st \<and> relay_ok st
    \<and> adapter_entries (rl_adapter st) = Map.empty
    \<and> cache_contents (temp_cache v (rl_caches st)) = []
    \<and> cache_capacity (temp_cache v (rl_caches st))
        = nat (if opt_cache_num opts \<noteq> 0 then opt_cache_num opts else LRU_BUFFER_LENGTH) - 1"
proof -
  obtain st where "init pton4 pton6 files g args = Inr st" "relay_ok st" "rl_adapter st = init_adapter"
    "\<forall>v. cache_contents (temp_cache v (rl_caches st)) = []"
    "\<forall>v. cache_capacity (temp_cache v (rl_caches st))
      = nat (if opt_cache_num opts \<noteq> 0 then opt_cache_num opts else LRU_BUFFER_LENGTH) - 1"
    using init_relay [OF assms(1,2) _ assms(4-6), of files] assms(3) by blast
  then show ?thesis by auto
qed

theorem init_establishes_invariant_witness:
  "\<exists>st. init toy_pton4 toy_pton6 (\<lambda>_. Some (render [([48], [97])])) sample_garbage [str ''-c'', str ''50''] = Inr st
    \<and> relay_ok st \<and> cache_capacity (temp_cache 1 (rl_caches st)) = 49"
proof -
  have f: "file_ok (Some (render [([48], [97])]))"
    unfolding file_ok_def by (intro disjI2 exI [of _ "[([48], [97])]"]) (simp add: entry_ok_def word_ok_def isspace_def)
  have p: "parse_args [str ''-c'', str ''50''] no_options = Inr (no_options\<lparr>opt_cache_num := 50\<rparr>)"
    by (simp add: str_def atoi_def isspace_def Let_def)
  show ?thesis
    using init_establishes_invariant [OF toy_pton_ok sample_garbage_ok _ p, of "\<lambda>_. Some (render [([48], [97])])" 1] f
    by (auto simp: no_options_def)
qed

end
