(* ===== verification/RelayTypes.thy ===== *)
theory RelayTypes
  imports RelayProperties
begin

text \<open>
  The types of the relay's state. In C the sizes of the buffers are part of their types; in the
  model they are lengths of lists, and this theory shows that no operation changes them: every
  turn of the loop that returns, whatever datagrams it received, keeps the shape of the state.
\<close>

named_theorems same_size \<comment> \<open>an operation that returns keeps the size of the object it writes\<close>

section \<open>Buffers\<close>

lemma arr_set_size [same_size]: "arr_set xs i v = Inr ys \<Longrightarrow> length ys = length xs"
  by (auto dest: arr_set_InrD)

lemma write_bytes_size [same_size]: "write_bytes buf p bs = Inr buf' \<Longrightarrow> length buf' = length buf"
  by (auto simp: write_bytes_def split: if_splits)

lemma set16_size [same_size]: "set16 buf p v = Inr buf' \<Longrightarrow> length buf' = length buf"
  by (auto simp: set16_def bindE_Inr_iff dest!: same_size)

lemma set32_size [same_size]: "set32 buf p v = Inr buf' \<Longrightarrow> length buf' = length buf"
  by (auto simp: set32_def bindE_Inr_iff dest!: same_size)

lemma strcpy_size [same_size]: "strcpy dest src = Inr dest' \<Longrightarrow> length dest' = length dest"
  by (auto simp: strcpy_def bindE_Inr_iff dest!: same_size)

section \<open>Names\<close>

lemma str_to_label_loop_size [same_size]:
  "str_to_label_loop d maxlen hs buf q c j = Inr (rest, buf', q', c', j') \<Longrightarrow> length buf' = length buf"
  by (induction d maxlen hs buf q c j rule: str_to_label_loop.induct)
    (auto simp: bindE_Inr_iff split: if_splits dest!: same_size)

lemma str_to_label_size [same_size]: "str_to_label buf d host maxlen = Inr (n, buf') \<Longrightarrow> length buf' = length buf"
  by (auto simp: str_to_label_def bindE_Inr_iff split: if_splits dest!: same_size)

lemma copy_label_size [same_size]: "copy_label msg s n dest d i = Inr (dest', i') \<Longrightarrow> length dest' = length dest"
  by (induction msg s n dest d i rule: copy_label.induct) (auto simp: bindE_Inr_iff dest!: same_size)

lemma fetch_loop_size:
  "fetch_loop msg dest d src now i = Some y \<Longrightarrow> (case y of Inl e \<Rightarrow> True | Inr (r, dest', q) \<Rightarrow> length dest' = length dest)"
proof (induction rule: fetch_loop.raw_induct [rotated, consumes 1, case_names step])
  case (step f msg dest d src now i y)
  show ?case
  proof (cases y)
    case (Inr z)
    with step(2) show ?thesis
      by (auto simp: bindP_Inr_iff split: if_splits dest!: step(1) same_size)
  qed simp
qed

lemma fetch_label_size [same_size]: "fetch_label msg dest src = Some (Inr (r, dest', q)) \<Longrightarrow> length dest' = length dest"
  using fetch_loop_size [of msg dest 0 src 0 0] by (auto simp: fetch_label_def)

section \<open>Messages\<close>

lemma header_setter_size [same_size]:
  "set_header_id buf i = Inr buf' \<Longrightarrow> length buf' = length buf"
  "set_header_flag buf fl = Inr buf' \<Longrightarrow> length buf' = length buf"
  "set_header_rcode_refused buf = Inr buf' \<Longrightarrow> length buf' = length buf"
  "set_header_rcode_name_error buf = Inr buf' \<Longrightarrow> length buf' = length buf"
  by (auto simp: set_header_id_def set_header_flag_def set_header_rcode_refused_def set_header_rcode_name_error_def
      set_rcode_def bindE_Inr_iff dest!: same_size)

lemma read_dns_question_size [same_size]:
  "read_dns_question qu msg src = Some (Inr (n, qu')) \<Longrightarrow> length (q_label qu') = length (q_label qu)"
  by (auto simp: read_dns_question_def bindP_Inr_iff bindE_Inr_iff Let_def split: if_splits dest!: same_size)

lemma read_dns_questions_size [same_size]:
  "read_dns_questions qu msg = Some (Inr (n, qu')) \<Longrightarrow> length (q_label qu') = length (q_label qu)"
  by (auto simp: read_dns_questions_def bindP_Inr_iff bindE_Inr_iff Let_def dest!: same_size)

lemma read_dns_answer_size [same_size]:
  "read_dns_answer a msg src = Some (Inr (n, a', good)) \<Longrightarrow> length (a_name a') = length (a_name a)"
  by (auto simp: read_dns_answer_def bindP_Inr_iff bindE_Inr_iff Let_def split: if_splits dest!: same_size)

lemma bindE_InrE: "bindE m f = Inr y \<Longrightarrow> (\<And>x. m = Inr x \<Longrightarrow> f x = Inr y \<Longrightarrow> R) \<Longrightarrow> R"
  by (auto simp: bindE_Inr_iff)

lemma write_dns_answer_size [same_size]:
  assumes "write_dns_answer buf p name rtype rclass ttl rdata = Inr (n, buf')"
  shows "length buf' = length buf"
proof -
  note sizes = str_to_label_size set16_size set32_size write_bytes_size
  consider "rtype = 1" | "rtype = 28" | "rtype \<noteq> 1" "rtype \<noteq> 28" by blast
  then show ?thesis
  proof cases
    case 1
    with assms show ?thesis
      by (auto simp: write_dns_answer_def Let_def elim!: bindE_InrE split: if_splits dest!: sizes)
  next
    case 2
    with assms show ?thesis
      by (auto simp: write_dns_answer_def Let_def elim!: bindE_InrE split: if_splits dest!: sizes)
  next
    case 3
    with assms show ?thesis
      by (auto simp: write_dns_answer_def Let_def elim!: bindE_InrE split: if_splits dest!: sizes)
  qed
qed

lemma write_answers_size [same_size]: "write_answers n as buf data = Inr (m, buf') \<Longrightarrow> length buf' = length buf"
  by (induction n as buf data rule: write_answers.induct) (auto simp: bindE_Inr_iff dest!: same_size)

lemma write_response_size [same_size]:
  "write_dns_response_by_query buf as n = Some (Inr (m, buf')) \<Longrightarrow> length buf' = length buf"
  by (auto simp: write_dns_response_by_query_def bindP_Inr_iff dest!: same_size)

text \<open>The array of twenty answers, with names of 256 bytes.\<close>

definition answers_typed :: "answer list \<Rightarrow> bool" where
  "answers_typed ans \<longleftrightarrow> length ans = 20 \<and> list_all (\<lambda>a. length (a_name a) = MAX_NAME_LENGTH) ans"

lemma answers_typed_update:
  "answers_typed ans \<Longrightarrow> arr_set ans i a = Inr ans' \<Longrightarrow> length (a_name a) = MAX_NAME_LENGTH \<Longrightarrow> answers_typed ans'"
  using set_update_subset_insert [of ans "nat i" a]
  by (auto simp: answers_typed_def list_all_iff dest!: arr_set_InrD)

lemma answers_typed_get: "answers_typed ans \<Longrightarrow> arr_get ans i = Inr a \<Longrightarrow> length (a_name a) = MAX_NAME_LENGTH"
  by (auto simp: answers_typed_def list_all_length dest!: arr_get_InrD)

lemma read_answers_typed:
  "read_answers msg n ans cnt data = Some (Inr (m, ans')) \<Longrightarrow> answers_typed ans \<Longrightarrow> answers_typed ans'"
proof (induction msg n ans cnt data rule: read_answers.induct)
  case (2 msg n ans cnt data)
  then show ?case
    using answers_typed_get [OF 2(3)] answers_typed_update [OF 2(3)]
    by (auto simp: bindP_Inr_iff dest!: read_dns_answer_size)
qed simp

lemma read_dns_answers_typed:
  "read_dns_answers ans msg = Some (Inr (m, ans')) \<Longrightarrow> answers_typed ans \<Longrightarrow> answers_typed ans'"
  by (auto simp: read_dns_answers_def bindP_Inr_iff intro: read_answers_typed)

lemma fill_answer_typed:
  assumes "fill_answer qu ans n ip ttl = Inr ans'" and "answers_typed ans"
  shows "answers_typed ans'"
  using assms(1) answers_typed_get [OF assms(2)] answers_typed_update [OF assms(2)]
  by (auto simp: fill_answer_def bindE_Inr_iff dest!: strcpy_size)

lemma fill_pairs_typed: "fill_pairs qu n ps ans = Inr (m, ans') \<Longrightarrow> answers_typed ans \<Longrightarrow> answers_typed ans'"
  by (induction qu n ps ans rule: fill_pairs.induct) (auto simp: bindE_Inr_iff dest: fill_answer_typed)

section \<open>The ID adapter\<close>

text \<open>A slot: the message has a zero byte behind the flags of the header, so that it is still a C
  string once the reply to a timeout has set them.\<close>

definition slot_typed :: "id_slot \<Rightarrow> bool" where
  "slot_typed s \<longleftrightarrow> length (sl_message s) = 1024 \<and> 0 \<in> set (drop 4 (sl_message s))
     \<and> length (ia_addr (sl_info s)) = ADDR_LEN"

definition adapter_typed :: "adapter \<Rightarrow> bool" where
  "adapter_typed ad \<longleftrightarrow> length (ad_data ad) = 1024 \<and> list_all slot_typed (ad_data ad)"

lemma adapter_typed_update:
  "adapter_typed ad \<Longrightarrow> slot_typed s \<Longrightarrow> adapter_typed (ad\<lparr>ad_data := (ad_data ad)[i := s]\<rparr>)"
  using set_update_subset_insert [of "ad_data ad" i s] by (auto simp: adapter_typed_def list_all_iff)

lemma adapter_typed_get: "adapter_typed ad \<Longrightarrow> arr_get (ad_data ad) i = Inr s \<Longrightarrow> slot_typed s"
  by (auto simp: adapter_typed_def list_all_length dest!: arr_get_InrD)

lemma adapter_typed_fields [simp]:
  "adapter_typed (ad\<lparr>ad_rwlock := l\<rparr>) = adapter_typed ad" "adapter_typed (ad\<lparr>ad_next := n\<rparr>) = adapter_typed ad"
  by (simp_all add: adapter_typed_def)

lemma strcpy_ends:
  assumes "strcpy dest src = Inr dest'" and "0 \<in> set (drop 4 dest)"
  shows "0 \<in> set (drop 4 dest')"
proof -
  let ?s = "c_str src @ [0]"
  have d: "dest' = ?s @ drop (length ?s) dest" "length ?s \<le> length dest"
    using assms(1) by (auto simp: strcpy_def read_cstr_def bindE_Inr_iff write_bytes_def blit_def split: if_splits)
  show ?thesis
  proof (cases "4 \<le> length (c_str src)")
    case True
    then show ?thesis by (simp add: d(1))
  next
    case False
    then have "length ?s \<le> 4" by simp
    then have "drop 4 dest' = drop (4 - length ?s) (drop (length ?s) dest)" unfolding d(1) drop_append by simp
    then have "drop 4 dest' = drop 4 dest" using \<open>length ?s \<le> 4\<close> by (simp only: drop_drop) simp
    then show ?thesis using assms(2) by simp
  qed
qed

lemma push_typed:
  assumes "IDAdapter_push b i src rtype time buf ad = Inr (n, ad')" and "adapter_typed ad" and "length src = ADDR_LEN"
  shows "adapter_typed ad'"
proof -
  have "adapter_typed (ad\<lparr>ad_data := (ad_data ad)[p := \<lparr>sl_info = \<lparr>ia_addr = src, ia_old_id = i, ia_type = rtype\<rparr>,
      sl_valid = True, sl_start = time, sl_message = message\<rparr>], ad_next := nx, ad_rwlock := l\<rparr>)"
    if "arr_get (ad_data ad) q = Inr slot" "strcpy (sl_message slot) buf = Inr message" for p q slot message nx l
    using adapter_typed_get [OF assms(2) that(1)] strcpy_size [OF that(2)] strcpy_ends [OF that(2)]
      adapter_typed_update [OF assms(2)] assms(3) by (simp add: slot_typed_def)
  then show ?thesis
    using assms(1,2) by (auto simp: IDAdapter_push_def bindE_Inr_iff Let_def split: if_splits)
qed

lemma pop_typed:
  assumes "IDAdapter_pop b pos ad = Inr ad'" and "adapter_typed ad"
  shows "adapter_typed ad'"
proof -
  obtain slot l where slot: "arr_get (ad_data ad) (slot_index pos) = Inr slot"
    and ad': "ad' = ad\<lparr>ad_data := (ad_data ad)[nat (slot_index pos) := slot\<lparr>sl_valid := False\<rparr>], ad_rwlock := l\<rparr>"
    using assms(1) by (auto simp: IDAdapter_pop_def bindE_Inr_iff dest!: arr_set_InrD)
  then show ?thesis
    using adapter_typed_get [OF assms(2) slot] adapter_typed_update [OF assms(2)] by (simp add: slot_typed_def)
qed

lemma get_typed: "IDAdapter_get pos ad = Inr (Some info) \<Longrightarrow> adapter_typed ad \<Longrightarrow> length (ia_addr info) = ADDR_LEN"
  by (auto simp: IDAdapter_get_def bindE_Inr_iff slot_typed_def split: if_splits dest: adapter_typed_get)


section \<open>The relay\<close>

definition packet_typed :: "packet \<Rightarrow> bool" where
  "packet_typed p \<longleftrightarrow> (case p of (_, addr, payload) \<Rightarrow> length addr = ADDR_LEN \<and> length payload \<le> 1024)"

definition relay_typed :: "relay \<Rightarrow> bool" where
  "relay_typed st \<longleftrightarrow> length (rl_buffer st) = 1024 \<and> length (rl_query_server st) = ADDR_LEN
     \<and> length (rl_cliaddr st) = ADDR_LEN \<and> length (q_label (rl_question st)) = MAX_NAME_LENGTH
     \<and> answers_typed (rl_ans st) \<and> adapter_typed (rl_adapter st)"

text \<open>What an operation that sends packets promises when it returns.\<close>

definition outcome_typed :: "packet list \<times> relay \<Rightarrow> bool" where
  "outcome_typed r \<longleftrightarrow> (case r of (outs, st) \<Rightarrow> list_all packet_typed outs \<and> relay_typed st)"

lemma flag_ends:
  assumes "set_header_flag buf fl = Inr buf'" and "0 \<in> set (drop 4 buf)"
  shows "0 \<in> set (drop 4 buf')"
proof -
  have "buf' = buf[2 := hi8 fl, 3 := lo8 fl]" if "4 \<le> length buf"
    using assms(1) that by (simp add: set_header_flag_def set16_def arr_set_def)
  moreover have "4 \<le> length buf" using assms(2) by (cases "length buf \<le> 4") auto
  ultimately show ?thesis using assms(2) by simp
qed

lemma rcode_ends:
  assumes "set_header_rcode_refused buf = Inr buf'" and "0 \<in> set (drop 4 buf)"
  shows "0 \<in> set (drop 4 buf')"
  using assms by (auto simp: set_header_rcode_refused_def set_rcode_def bindE_Inr_iff dest!: arr_set_InrD)

lemma expire_slot_typed:
  assumes "expire_slot now slot = Inr (outs, slot')" and "slot_typed slot"
  shows "list_all packet_typed outs \<and> slot_typed slot'"
proof (cases "sl_valid slot \<and> now - sl_start slot \<ge> DNS_TTL")
  case True
  then obtain m1 m2 where m1: "set_header_flag (sl_message slot) FLAG_RESPONSE_NORMAL = Inr m1"
    and m2: "set_header_rcode_refused m1 = Inr m2"
    and outs: "outs = [(Server_sockfd, ia_addr (sl_info slot), c_str m2)]" "slot' = slot\<lparr>sl_message := m2, sl_valid := False\<rparr>"
    using assms(1) by (auto simp: expire_slot_def bindE_Inr_iff read_cstr_def split: if_splits)
  show ?thesis
    using header_setter_size(2) [OF m1] header_setter_size(3) [OF m2] flag_ends [OF m1] rcode_ends [OF m2]
      length_c_str_le [of m2] assms(2)
    by (simp add: outs slot_typed_def packet_typed_def)
qed (use assms in \<open>auto simp: expire_slot_def\<close>)

lemma expire_slots_typed:
  "expire_slots clk i slots = Inr (outs, slots') \<Longrightarrow> list_all slot_typed slots
    \<Longrightarrow> list_all packet_typed outs \<and> list_all slot_typed slots' \<and> length slots' = length slots"
  by (induction clk i slots arbitrary: outs slots' rule: expire_slots.induct)
    (fastforce simp: bindE_Inr_iff dest!: expire_slot_typed)+

lemma handle_timeouts_typed: "handle_timeouts clk st = Inr r \<Longrightarrow> relay_typed st \<Longrightarrow> outcome_typed r"
  by (auto simp: handle_timeouts_def bindE_Inr_iff outcome_typed_def relay_typed_def adapter_typed_def
      dest: expire_slots_typed)

lemma refuse_typed:
  assumes "refuse set_code n st = Inr r" and "relay_typed st"
    and "\<And>buf buf'. set_code buf = Inr buf' \<Longrightarrow> length buf' = length buf"
  shows "outcome_typed r"
  using assms by (auto simp: refuse_def bindE_Inr_iff outcome_typed_def relay_typed_def packet_typed_def dest!: same_size assms(3))

lemma reply_cached_typed: "reply_cached count st = Some (Inr r) \<Longrightarrow> relay_typed st \<Longrightarrow> outcome_typed r"
  by (auto simp: reply_cached_def bindP_Inr_iff send_bytes_def outcome_typed_def relay_typed_def packet_typed_def
      split: if_splits dest!: same_size)

lemma forward_typed: "forward b clk i n st = Inr r \<Longrightarrow> relay_typed st \<Longrightarrow> outcome_typed r"
  by (auto simp: forward_def bindE_Inr_iff Let_def outcome_typed_def relay_typed_def packet_typed_def
      split: if_splits dest!: same_size dest: push_typed)

lemma cache_response_typed:
  "cache_response now now' rtype st = Some (Inr st') \<Longrightarrow> relay_typed st \<Longrightarrow> relay_typed st'"
  by (auto simp: cache_response_def bindP_Inr_iff Let_def relay_typed_def
      split: if_splits dest!: read_dns_question_size dest: read_dns_answers_typed)

lemma fill_typed:
  "(if ips \<noteq> [] then fill_static qu 0 ips ans else fill_cached now qu 0 ds ans) = Inr (n, ans')
    \<Longrightarrow> answers_typed ans \<Longrightarrow> answers_typed ans'"
  by (auto simp: fill_static_pairs fill_cached_pairs split: if_splits intro: fill_pairs_typed)

lemma answer_request_typed:
  assumes "answer_request b tget now clk i n st = Some (Inr r)" and "relay_typed st"
  shows "outcome_typed r"
proof -
  obtain m qu where qu: "read_dns_questions (rl_question st) (rl_buffer st) = Some (Inr (m, qu))"
    using assms(1) by (auto simp: answer_request_def bindP_Inr_iff)
  let ?st = "st\<lparr>rl_question := qu\<rparr>"
  have typed: "relay_typed ?st" using assms(2) read_dns_questions_size [OF qu] by (simp add: relay_typed_def)
  have "relay_typed (?st\<lparr>rl_caches := cs, rl_ans := ans\<rparr>)" if "answers_typed ans" for cs ans
    using typed that by (simp add: relay_typed_def)
  note filled = this [OF fill_typed]
  have "answers_typed (rl_ans st)" using assms(2) by (simp add: relay_typed_def)
  then show ?thesis
    using assms(1) qu
    by (auto simp: answer_request_def bindP_Inr_iff Let_def split: if_splits
        intro: refuse_typed [OF _ typed] reply_cached_typed [OF _ filled] forward_typed [OF _ filled]
        dest: header_setter_size)
qed

lemma store_addr_typed: "length src = ADDR_LEN \<Longrightarrow> length old = ADDR_LEN \<Longrightarrow> length (store_addr n src old) = ADDR_LEN"
  by (simp add: store_addr_def)

lemma received_typed:
  assumes "relay_typed st"
  shows "length (blit 0 (recv_payload payload) (rl_buffer st)) = 1024" and "length (recv_payload payload) \<le> 1024"
  using assms by (auto simp: relay_typed_def recv_payload_def blit_def MAX_DNS_SIZE_def)

definition recv_typed :: "recv \<Rightarrow> bool" where
  "recv_typed r \<longleftrightarrow> (case r of RecvError \<Rightarrow> True | Recv payload src \<Rightarrow> length src = ADDR_LEN)"

lemma handle_request_typed:
  assumes "handle_request b tget now clk r st = Some (Inr out)" and "relay_typed st" and "recv_typed r"
  shows "outcome_typed out"
proof (cases r)
  case (Recv payload src)
  define st0 where "st0 = st\<lparr>rl_buffer := blit 0 (recv_payload payload) (rl_buffer st),
      rl_cliaddr := store_addr ADDR_LEN src (rl_cliaddr st), rl_len := length src\<rparr>"
  have typed: "relay_typed st0"
    using assms(2,3) Recv received_typed(1) [OF assms(2)]
    by (simp add: st0_def relay_typed_def recv_typed_def store_addr_typed)
  obtain i first st1 outs st2 where
      first: "refuse set_header_rcode_refused (length (recv_payload payload)) st0 = Inr (first, st1)
        \<or> (first, st1) = ([], st0)"
    and rest: "answer_request b tget now clk i (length (recv_payload payload)) st1 = Some (Inr (outs, st2))"
    and out: "out = (first @ outs, st2)"
    using assms(1) unfolding Recv handle_request_def Let_def bindP_Inr_iff recv.case st0_def [symmetric]
    by (auto simp: bindP_Inr_iff split: if_splits) (metis append_Nil, blast+)
  have "outcome_typed (first, st1)"
    using first typed refuse_typed [OF _ typed header_setter_size(3)] by (auto simp: outcome_typed_def)
  then show ?thesis
    using answer_request_typed [OF rest] out by (simp add: outcome_typed_def)
qed (use assms in \<open>auto simp: handle_request_def outcome_typed_def\<close>)

lemma handle_relay_typed:
  assumes "handle_relay b now now' r st = Some (Inr out)" and "relay_typed st" and "recv_typed r"
  shows "outcome_typed out"
proof (cases r)
  case (Recv payload src)
  define st0 where "st0 = st\<lparr>rl_buffer := blit 0 (recv_payload payload) (rl_buffer st),
      rl_query_server := store_addr (rl_len st) src (rl_query_server st), rl_len := length src\<rparr>"
  have typed: "relay_typed st0"
    using assms(2,3) Recv received_typed(1) [OF assms(2)]
    by (simp add: st0_def relay_typed_def recv_typed_def store_addr_typed)
  note run = assms(1) [unfolded Recv handle_relay_def Let_def recv.case, folded st0_def]
  obtain n header where header: "read_dns_header (rl_buffer st0) = Inr (n, header)"
    using run by (auto simp: bindP_Inr_iff)
  obtain iptoaddr where get: "IDAdapter_get (hd_id header) (rl_adapter st0) = Inr iptoaddr"
    using run by (auto simp: header bindP_Inr_iff)
  note rest = run [unfolded header get bindP_simps prod.case]
  show ?thesis
  proof (cases iptoaddr)
    case None
    then show ?thesis using rest typed by (auto simp: outcome_typed_def)
  next
    case (Some info)
    obtain st1 where st1: "(if uint (ia_type info) = rrtype_val RRTYPE_A \<or> uint (ia_type info) = rrtype_val RRTYPE_AAAA
        then cache_response now now' (ia_type info) st0 else Some (Inr st0)) = Some (Inr st1)"
      and fin: "bindE (set_header_id (rl_buffer st1) (ia_old_id info)) (\<lambda>buffer.
         bindE (IDAdapter_pop b (hd_id header) (rl_adapter st1)) (\<lambda>ad.
         Inr ([(Server_sockfd, ia_addr info, take (length (recv_payload payload)) buffer)],
              st1\<lparr>rl_buffer := buffer, rl_adapter := ad\<rparr>))) = Inr out"
      using rest unfolding Some option.case bindP_Inr_iff by blast
    have typed1: "relay_typed st1"
      using st1 typed cache_response_typed [OF _ typed] by (auto split: if_splits)
    obtain buffer ad where set: "set_header_id (rl_buffer st1) (ia_old_id info) = Inr buffer"
      and pop: "IDAdapter_pop b (hd_id header) (rl_adapter st1) = Inr ad"
      and out: "out = ([(Server_sockfd, ia_addr info, take (length (recv_payload payload)) buffer)],
        st1\<lparr>rl_buffer := buffer, rl_adapter := ad\<rparr>)"
      using fin by (auto simp: bindE_Inr_iff)
    show ?thesis
      using get_typed [OF get [unfolded Some]] header_setter_size(1) [OF set] pop_typed [OF pop] typed typed1
      by (simp add: out outcome_typed_def relay_typed_def packet_typed_def)
  qed
qed (use assms in \<open>auto simp: handle_relay_def outcome_typed_def\<close>)

definition selected_typed :: "selected \<Rightarrow> bool" where
  "selected_typed sel \<longleftrightarrow> (case sel of Selected up client \<Rightarrow>
     pred_option recv_typed up \<and> pred_option recv_typed client | _ \<Rightarrow> True)"

lemma loop_body_typed:
  assumes "loop_body b ck sel st = Some (Inr (outs, st'))" and "relay_typed st" and "selected_typed sel"
  shows "list_all packet_typed outs" and "relay_typed st'"
proof -
  have "outcome_typed (outs, st')"
  proof (cases sel)
    case SelectTimeout
    then show ?thesis using assms(1,2) by (auto simp: loop_body_def intro: handle_timeouts_typed)
  next
    case (Selected up client)
    obtain out1 st1 out2 st2 where
        one: "(case up of None \<Rightarrow> Some (Inr ([], st))
              | Some r \<Rightarrow> handle_relay b (ck_now ck) (ck_cache ck) r st) = Some (Inr (out1, st1))"
      and two: "(case client of None \<Rightarrow> Some (Inr ([], st1))
              | Some r \<Rightarrow> handle_request b (ck_get ck) (ck_reply ck) (ck_push ck) r st1) = Some (Inr (out2, st2))"
      and out: "outs = out1 @ out2" "st' = st2"
      using assms(1) Selected by (auto simp: loop_body_def bindP_Inr_iff)
    have first: "outcome_typed (out1, st1)"
      using one assms(2,3) Selected
      by (auto simp: selected_typed_def outcome_typed_def split: option.splits dest!: handle_relay_typed)
    then have "outcome_typed (out2, st2)"
      using two assms(3) Selected
      by (auto simp: selected_typed_def outcome_typed_def split: option.splits dest!: handle_request_typed)
    with first show ?thesis by (simp add: out outcome_typed_def)
  qed (use assms in \<open>simp add: loop_body_def outcome_typed_def\<close>)
  then show "list_all packet_typed outs" "relay_typed st'" by (simp_all add: outcome_typed_def)
qed

lemma init_typed:
  assumes "init pton4 pton6 files g args = Inr st" and "pton_ok pton4 pton6" and "garbage_ok g"
  shows "relay_typed st"
proof -
  have "adapter_typed init_adapter"
    by (simp add: adapter_typed_def init_adapter_def IDAadpter_SIZE_def slot_typed_def zero_slot_def ADDR_LEN_def list_all_iff)
  moreover have "answers_typed (gb_ans g)"
    using assms(3) by (auto simp: garbage_ok_def answers_typed_def answer_shape_def list_all_iff)
  ultimately show ?thesis
    using assms init_query_server_length [OF assms(2)]
    by (auto simp: init_def bindE_Inr_iff Let_def relay_typed_def garbage_ok_def)
qed

lemma run_loop_typed:
  assumes "run_loop b inputs st = Some (Inr (outs, st'))" and "relay_typed st"
    and "list_all (\<lambda>(ck, sel). selected_typed sel) inputs"
  shows "relay_typed st' \<and> list_all packet_typed outs"
  using assms
proof (induction b inputs st arbitrary: outs rule: run_loop.induct)
  case (2 b ck sel xs st)
  then show ?case by (fastforce simp: bindP_Inr_iff dest: loop_body_typed)
qed simp

section \<open>Property\<close>



end
