(* ===== verification/RelaySpec.thy ===== *)
theory RelaySpec
  imports RelayTypes
begin

text \<open>
  What the relay of \<open>src/src/main.c\<close> promises, over whole runs of its loop: an abstract relay with
  a list of names to refuse, local addresses, two tables of cached addresses in order of use and a
  table of pending queries, and the proof that the loop refines it. The abstract relay has no
  buffers, arrays, hash tables or linked lists.
\<close>

section \<open>The abstract relay\<close>

record view =
  vw_black :: "cstring \<Rightarrow> bool"
  vw_local :: "u16 \<Rightarrow> cstring \<Rightarrow> byte list list"   \<comment> \<open>addresses, for a question type and a name\<close>
  vw_cached :: "u16 \<Rightarrow> (cstring \<times> (int \<times> byte list) list) list"
    \<comment> \<open>for a question type the names with their expiry times and addresses, latest use first\<close>
  vw_room :: "u16 \<Rightarrow> nat"
  vw_pending :: "nat \<rightharpoonup> IDtoAddr \<times> int"   \<comment> \<open>ticket to client and time of arrival\<close>
  vw_cursor :: nat
  vw_upstream :: "byte list"

text \<open>A client's query and a response of the upstream server, as messages.\<close>

record ask =
  ak_id :: u16
  ak_extra :: u16                \<comment> \<open>additional records announced\<close>
  ak_name :: "byte list list"
  ak_type :: u16
  ak_class :: u16
  ak_rest :: "byte list"         \<comment> \<open>what follows the question\<close>
  ak_src :: "byte list"

record resp =
  rs_ticket :: nat
  rs_flags :: u16
  rs_name :: "byte list list"
  rs_type :: u16
  rs_class :: u16
  rs_rrs :: "rr list"
  rs_auth :: u16
  rs_extra :: u16
  rs_rest :: "byte list"         \<comment> \<open>what follows the question: the records\<close>
  rs_src :: "byte list"

datatype turn = Turn "resp option" "ask option" | Quiet | Failed

definition ask_bytes :: "u16 \<Rightarrow> ask \<Rightarrow> byte list" where
  "ask_bytes i a = query i (ak_extra a) (ak_name a) (ak_type a) (ak_class a) (ak_rest a)"

definition resp_bytes :: "u16 \<Rightarrow> resp \<Rightarrow> byte list" where
  "resp_bytes i r = wire_header i (rs_flags r) 1 (of_nat (length (rs_rrs r))) (rs_auth r) (rs_extra r)
     @ wire_question (rs_name r) (rs_type r) (rs_class r) @ rs_rest r"

fun turn_input :: "turn \<Rightarrow> selected" where
  "turn_input (Turn r a) = Selected (map_option (\<lambda>r. Recv (resp_bytes (of_nat (rs_ticket r)) r) (rs_src r)) r)
     (map_option (\<lambda>a. Recv (ask_bytes (ak_id a) a) (ak_src a)) a)"
| "turn_input Quiet = SelectTimeout"
| "turn_input Failed = SelectError"

subsection \<open>Its steps\<close>

definition wire_entry :: "ask \<Rightarrow> int \<times> byte list \<Rightarrow> byte list" where
  "wire_entry a e = wire_name (ak_name a)
     @ wire_rr (ak_type a) (ak_class a) (clip32 (sint (of_int (fst e) :: u32))) (snd e)"

definition reply_with :: "ask \<Rightarrow> (int \<times> byte list) list \<Rightarrow> packet" where
  "reply_with a es = (Server_sockfd, ak_src a,
     wire_header (ak_id a) FLAG_RESPONSE_NORMAL 1 (of_nat (length es)) 0 (ak_extra a)
       @ wire_question (ak_name a) (ak_type a) (ak_class a) @ concat (map (wire_entry a) es))"

text \<open>The addresses a query is answered with at once, with their times to live: the local ones, or
  the cached ones, whose time to live is what is left until they expire.\<close>

definition local_entries :: "ask \<Rightarrow> view \<Rightarrow> (int \<times> byte list) list" where
  "local_entries a v = map (Pair 3600) (vw_local v (ak_type a) (dotted (ak_name a)))"

definition left :: "int \<Rightarrow> (int \<times> byte list) list \<Rightarrow> (int \<times> byte list) list" where
  "left now es = map (\<lambda>(t, d). (t - now, d)) es"

definition refusal :: "ask \<Rightarrow> packet" where
  "refusal a = (Server_sockfd, ak_src a, wire_header (ak_id a) 0x8003 1 0 0 (ak_extra a)
     @ wire_question (ak_name a) (ak_type a) (ak_class a) @ ak_rest a)"

definition spec_ask :: "clocks \<Rightarrow> ask \<Rightarrow> view \<Rightarrow> packet list \<times> view" where
  "spec_ask ck a v = (let label = dotted (ak_name a); t = ak_type a; k = vw_cursor v in
     if vw_black v label then ([refusal a], v)
     else if vw_local v t label \<noteq> [] then ([reply_with a (local_entries a v)], v)
     else case map_of (vw_cached v t) label of
       Some es \<Rightarrow> ([reply_with a (left (ck_reply ck) es)],
         v\<lparr>vw_cached := (vw_cached v)(t := lru_put label es (vw_cached v t))\<rparr>)
     | None \<Rightarrow> ([(Query_sockfd, vw_upstream v, ask_bytes (of_nat k) a)],
         v\<lparr>vw_cursor := Suc k mod 1024, vw_pending := (vw_pending v)(k \<mapsto>
           (\<lparr>ia_addr = ak_src a, ia_old_id = ak_id a, ia_type = ucast t\<rparr>, ck_push ck))\<rparr>))"

definition learnt :: "clocks \<Rightarrow> resp \<Rightarrow> (int \<times> byte list) list" where
  "learnt ck r = map (\<lambda>x. (ck_now ck + uint (rr_ttl x), rr_data x)) (filter is_address (rs_rrs r))"

definition spec_respond :: "clocks \<Rightarrow> resp \<Rightarrow> view \<Rightarrow> packet list \<times> view" where
  "spec_respond ck r v = (let v = v\<lparr>vw_upstream := rs_src r\<rparr> in
     case vw_pending v (rs_ticket r) of None \<Rightarrow> ([], v)
     | Some (info, _) \<Rightarrow>
         let t = ucast (ia_type info);
             cached = (if ia_type info \<in> {1, 28} \<and> learnt ck r \<noteq> []
               then (vw_cached v)(t := lru_put (dotted (rs_name r)) (learnt ck r) (vw_cached v t))
               else vw_cached v)
         in ([(Server_sockfd, ia_addr info, resp_bytes (ia_old_id info) r)],
             v\<lparr>vw_pending := (vw_pending v)(rs_ticket r := None), vw_cached := cached\<rparr>))"

text \<open>A quiet period ends the queries that are too old. The reply is the start of a message, cut
  off at its first zero byte: id, flags, and nothing else.\<close>

definition overdue :: "(nat \<Rightarrow> int) \<Rightarrow> nat \<Rightarrow> view \<Rightarrow> IDtoAddr option" where
  "overdue clk k v = (case vw_pending v k of
     Some (info, start) \<Rightarrow> if clk k - start \<ge> DNS_TTL then Some info else None | None \<Rightarrow> None)"

definition timeout_packets :: "IDtoAddr option \<Rightarrow> packet list" where
  "timeout_packets x = (case x of None \<Rightarrow> []
     | Some info \<Rightarrow> [(Server_sockfd, ia_addr info, c_str (net16 (ia_old_id info) @ [0x80, 5]))])"

definition spec_quiet :: "clocks \<Rightarrow> view \<Rightarrow> packet list \<times> view" where
  "spec_quiet ck v = (concat (map (\<lambda>k. timeout_packets (overdue (ck_scan ck) k v)) [0..<nat IDAadpter_SIZE]),
     v\<lparr>vw_pending := (\<lambda>k. if overdue (ck_scan ck) k v = None then vw_pending v k else None)\<rparr>)"

fun spec_turn :: "clocks \<Rightarrow> turn \<Rightarrow> view \<Rightarrow> packet list \<times> view" where
  "spec_turn ck (Turn r a) v =
     (let (out, v) = (case r of None \<Rightarrow> ([], v) | Some r \<Rightarrow> spec_respond ck r v);
          (outs, v) = (case a of None \<Rightarrow> ([], v) | Some a \<Rightarrow> spec_ask ck a v)
      in (out @ outs, v))"
| "spec_turn ck Quiet v = spec_quiet ck v"
| "spec_turn ck Failed v = ([], v)"

fun spec_run :: "(clocks \<times> turn) list \<Rightarrow> view \<Rightarrow> packet list \<times> view" where
  "spec_run [] v = ([], v)"
| "spec_run ((ck, x) # xs) v =
     (let (out, v) = spec_turn ck x v; (outs, v) = spec_run xs v in (out @ outs, v))"

subsection \<open>Its limits\<close>

text \<open>The code keeps the promise as long as messages are well formed and fit, the next ticket is
  free, no entry that is read has expired and no table of cached records is full.\<close>

definition reply_fits :: "ask \<Rightarrow> (int \<times> byte list) list \<Rightarrow> bool" where
  "reply_fits a es \<longleftrightarrow> length es \<le> 20
     \<and> 12 + length (wire_question (ak_name a) (ak_type a) (ak_class a) @ concat (map (wire_entry a) es)) \<le> 1024"

definition ask_ok :: "clocks \<Rightarrow> ask \<Rightarrow> view \<Rightarrow> bool" where
  "ask_ok ck a v \<longleftrightarrow> request_ok (ak_name a) (ak_type a) (ak_class a) (ak_rest a) (ak_src a)
     \<and> (let label = dotted (ak_name a); t = ak_type a in
       if vw_black v label then True
       else if vw_local v t label \<noteq> [] then reply_fits a (local_entries a v)
       else case map_of (vw_cached v t) label of
         Some es \<Rightarrow> es \<noteq> [] \<and> ck_get ck \<le> fst (hd es) \<and> reply_fits a (left (ck_reply ck) es)
       | None \<Rightarrow> vw_pending v (vw_cursor v) = None)"

definition resp_ok :: "clocks \<Rightarrow> resp \<Rightarrow> view \<Rightarrow> bool" where
  "resp_ok ck r v \<longleftrightarrow> rs_ticket r < 1024 \<and> length (rs_src r) = ADDR_LEN
     \<and> length (resp_bytes (of_nat (rs_ticket r)) r) \<le> 520
     \<and> (case vw_pending v (rs_ticket r) of None \<Rightarrow> True
        | Some (info, _) \<Rightarrow> ia_type info \<in> {1, 28} \<longrightarrow> (let t = ucast (ia_type info) in
            name_ok (rs_name r)
            \<and> rrs_at (resp_bytes (of_nat (rs_ticket r)) r)
                (12 + length (wire_question (rs_name r) (rs_type r) (rs_class r))) (rs_rrs r)
            \<and> list_all rr_ok (rs_rrs r) \<and> length (rs_rrs r) < 65536 \<and> length (learnt ck r) \<le> 10
            \<and> (learnt ck r \<noteq> [] \<longrightarrow> list_all (\<lambda>(x, d). ck_cache ck \<le> x \<and> length d = rdata_size t) (learnt ck r)
                \<and> length (vw_cached v t) < vw_room v t)))"

fun turn_ok :: "clocks \<Rightarrow> turn \<Rightarrow> view \<Rightarrow> bool" where
  "turn_ok ck (Turn r a) v \<longleftrightarrow> (case r of None \<Rightarrow> True | Some r \<Rightarrow> resp_ok ck r v)
     \<and> (case a of None \<Rightarrow> True
        | Some a \<Rightarrow> ask_ok ck a (case r of None \<Rightarrow> v | Some r \<Rightarrow> snd (spec_respond ck r v)))"
| "turn_ok ck Quiet v = True"
| "turn_ok ck Failed v = True"

fun turns_ok :: "(clocks \<times> turn) list \<Rightarrow> view \<Rightarrow> bool" where
  "turns_ok [] v = True"
| "turns_ok ((ck, x) # xs) v \<longleftrightarrow> turn_ok ck x v \<and> turns_ok xs (snd (spec_turn ck x v))"

section \<open>The view of a state\<close>

definition entry_of :: "u16 \<Rightarrow> record_data \<Rightarrow> int \<times> byte list" where
  "entry_of t d = (rd_ttl d, take (rdata_size t) (ip_addr (rd_ip d)))"

definition view_of :: "relay \<Rightarrow> view" where
  "view_of st = (let cs = rl_caches st; ad = rl_adapter st in
     \<lparr>vw_black = (\<lambda>label. local_view (cs_blacklist cs) label \<noteq> []),
      vw_local = (\<lambda>t label. map (\<lambda>ip. take (rdata_size t) (ip_addr ip)) (local_records t cs label)),
      vw_cached = (\<lambda>t. if t \<in> {1, 28}
        then map (\<lambda>(label, ds). (label, map (entry_of t) ds)) (cache_contents (temp_cache t cs)) else []),
      vw_room = (\<lambda>t. if t \<in> {1, 28} then cache_capacity (temp_cache t cs) else 0),
      vw_pending = (\<lambda>k. map_option (\<lambda>(info, start, q). (info, start)) (adapter_entries ad k)),
      vw_cursor = adapter_cursor ad, vw_upstream = rl_query_server st\<rparr>)"

text \<open>The invariant of the loop. A slot keeps the start of a query, its id and the high byte of its
  flags, and zero bytes from the fifth byte on.\<close>

definition slot_short :: "id_slot \<Rightarrow> bool" where
  "slot_short s \<longleftrightarrow> length (sl_message s) = 1024 \<and> drop 4 (sl_message s) = replicate 1020 0
     \<and> (sl_valid s \<longrightarrow> c_str (sl_message s) = c_str (net16 (ia_old_id (sl_info s)) @ [1]))"

definition addresses_ok :: "cacheset \<Rightarrow> bool" where
  "addresses_ok cs \<longleftrightarrow> (\<forall>t \<in> {1, 28}. list_all (\<lambda>e. list_all (\<lambda>d. length (ip_addr (rd_ip d)) = 16) (snd e))
     (cache_contents (temp_cache t cs)))
     \<and> (\<forall>t label. list_all (\<lambda>ip. length (ip_addr ip) = 16) (local_records t cs label))"

definition relay_inv :: "relay \<Rightarrow> bool" where
  "relay_inv st \<longleftrightarrow> relay_ok st \<and> rl_len st = ADDR_LEN \<and> list_all slot_short (ad_data (rl_adapter st))
     \<and> addresses_ok (rl_caches st)"


section \<open>The pending queries\<close>

lemma query_start: "query i ad ls t c rest = hi8 i # lo8 i # 1 # 0 # net16 1 @ net16 0 @ net16 0 @ net16 ad
    @ wire_question ls t c @ rest"
proof -
  have "hi8 FLAG_QUERY = 1" "lo8 FLAG_QUERY = 0" by code_simp+
  then show ?thesis by (simp add: query_def wire_header_def net16_def)
qed

lemma query_text: "c_str (query i ad ls t c rest @ x) = c_str (net16 i @ [1])"
  by (simp add: query_start c_str_def net16_def)

lemma length_short: "length (c_str (net16 i @ [1])) \<le> 3"
  using length_c_str_le [of "net16 i @ [1]"] by (simp add: net16_def)

lemma push_short:
  assumes "IDAdapter_push b i src rtype time buf ad = Inr (n, ad')" and "list_all slot_short (ad_data ad)"
    and "c_str buf = c_str (net16 i @ [1])"
  shows "list_all slot_short (ad_data ad')"
proof -
  have "slot_short \<lparr>sl_info = \<lparr>ia_addr = src, ia_old_id = i, ia_type = rtype\<rparr>,
      sl_valid = True, sl_start = time, sl_message = message\<rparr>"
    if "arr_get (ad_data ad) q = Inr slot" "strcpy (sl_message slot) buf = Inr message" for q slot message
  proof -
    let ?s = "c_str buf @ [0]"
    have slot: "slot_short slot" using assms(2) that(1) by (auto simp: list_all_length dest!: arr_get_InrD)
    have message: "message = ?s @ drop (length ?s) (sl_message slot)" and "length ?s \<le> length (sl_message slot)"
      using that(2) by (auto simp: strcpy_def read_cstr_def bindE_Inr_iff write_bytes_def blit_def split: if_splits)
    have len: "length ?s \<le> 4" using length_short [of i] assms(3) by simp
    have "drop 4 message = drop (4 - length ?s) (drop (length ?s) (sl_message slot))"
      unfolding message drop_append using len by simp
    then have "drop 4 message = drop 4 (sl_message slot)" using len by (simp only: drop_drop) simp
    moreover have "c_str message = c_str buf"
      using c_str_append_zero [OF c_str_no_zero] by (simp add: message)
    ultimately show ?thesis
      using slot assms(3) strcpy_size [OF that(2)] by (simp add: slot_short_def)
  qed
  then show ?thesis
    using assms(1,2)
    by (auto simp: IDAdapter_push_def bindE_Inr_iff Let_def list_all_iff split: if_splits
        dest!: set_update_subset_insert [THEN subsetD])
qed

lemma pop_short:
  assumes "IDAdapter_pop b pos ad = Inr ad'" and "list_all slot_short (ad_data ad)"
  shows "list_all slot_short (ad_data ad')"
proof -
  obtain slot where slot: "arr_get (ad_data ad) (slot_index pos) = Inr slot"
    and ad': "ad_data ad' = (ad_data ad)[nat (slot_index pos) := slot\<lparr>sl_valid := False\<rparr>]"
    using assms(1) by (auto simp: IDAdapter_pop_def bindE_Inr_iff dest!: arr_set_InrD)
  have "slot_short slot" using assms(2) slot by (auto simp: list_all_length dest!: arr_get_InrD)
  then have "slot_short (slot\<lparr>sl_valid := False\<rparr>)" by (simp add: slot_short_def)
  then show ?thesis
    using assms(2) set_update_subset_insert by (fastforce simp: ad' list_all_iff)
qed

text \<open>The scan for queries that timed out.\<close>

definition slot_overdue :: "int \<Rightarrow> id_slot \<Rightarrow> IDtoAddr option" where
  "slot_overdue now s = (if sl_valid s \<and> now - sl_start s \<ge> DNS_TTL then Some (sl_info s) else None)"

lemma expire_slot_short:
  assumes "slot_short s"
  shows "\<exists>s'. expire_slot now s = Inr (timeout_packets (slot_overdue now s), s') \<and> slot_short s'
    \<and> slot_entry s' = (if slot_overdue now s = None then slot_entry s else None)"
proof (cases "sl_valid s \<and> now - sl_start s \<ge> DNS_TTL")
  case True
  define m where "m = sl_message s"
  have m: "length m = 1024" "drop 4 m = replicate 1020 0" "c_str m = c_str (net16 (ia_old_id (sl_info s)) @ [1])"
    using assms True by (simp_all add: slot_short_def m_def)
  obtain a b c d x where "m = a # b # c # d # x"
    using m(1) by (cases m rule: list.exhaust; cases "tl m"; cases "tl (tl m)"; cases "tl (tl (tl m))") auto
  then have shape: "m = a # b # c # d # replicate 1020 0" using m(2) by simp
  have fl: "hi8 FLAG_RESPONSE_NORMAL = 0x80" "lo8 FLAG_RESPONSE_NORMAL AND 0xf0 OR 5 = 5" by code_simp+
  let ?m = "a # b # 0x80 # 5 # replicate 1020 0"
  have run: "set_header_flag m FLAG_RESPONSE_NORMAL = Inr (a # b # 0x80 # lo8 FLAG_RESPONSE_NORMAL # replicate 1020 0)"
    "set_header_rcode_refused (a # b # 0x80 # lo8 FLAG_RESPONSE_NORMAL # replicate 1020 0) = Inr ?m"
    unfolding shape using fl
    by (simp_all add: set_header_flag_def set16_def set_header_rcode_refused_def set_rcode_def arr_set_def arr_get_def
        eval_nat_numeral(3) [of "num.One"] numeral_3_eq_3 numeral_2_eq_2)
  have "c_str ?m = c_str (net16 (ia_old_id (sl_info s)) @ [0x80, 5])"
    using m(3) unfolding shape by (auto simp: c_str_def net16_def split: if_splits)
  moreover have "0 \<in> set ?m" by simp
  ultimately have "expire_slot now s = Inr ([(Server_sockfd, ia_addr (sl_info s),
      c_str (net16 (ia_old_id (sl_info s)) @ [0x80, 5]))], s\<lparr>sl_message := ?m, sl_valid := False\<rparr>)"
    using True run by (simp add: expire_slot_def m_def read_cstr_def)
  then show ?thesis
    using True by (simp add: timeout_packets_def slot_overdue_def slot_short_def slot_entry_def)
next
  case False
  then show ?thesis using assms by (auto simp: expire_slot_def timeout_packets_def slot_overdue_def)
qed

lemma expire_slots_short:
  assumes "list_all slot_short ss"
  shows "\<exists>ss'. expire_slots clk i ss
      = Inr (concat (map (\<lambda>k. timeout_packets (slot_overdue (clk (i + k)) (ss ! k))) [0..<length ss]), ss')
    \<and> list_all slot_short ss' \<and> length ss' = length ss
    \<and> (\<forall>k < length ss. slot_entry (ss' ! k)
        = (if slot_overdue (clk (i + k)) (ss ! k) = None then slot_entry (ss ! k) else None))"
  using assms
proof (induction ss arbitrary: i)
  case (Cons s ss)
  obtain s' where s': "expire_slot (clk i) s = Inr (timeout_packets (slot_overdue (clk i) s), s')" "slot_short s'"
    "slot_entry s' = (if slot_overdue (clk i) s = None then slot_entry s else None)"
    using expire_slot_short [of s "clk i"] Cons.prems by auto
  obtain ss' where ss': "expire_slots clk (Suc i) ss
      = Inr (concat (map (\<lambda>k. timeout_packets (slot_overdue (clk (Suc i + k)) (ss ! k))) [0..<length ss]), ss')"
    "list_all slot_short ss'" "length ss' = length ss"
    "\<forall>k < length ss. slot_entry (ss' ! k)
        = (if slot_overdue (clk (Suc i + k)) (ss ! k) = None then slot_entry (ss ! k) else None)"
    using Cons.IH [of "Suc i"] Cons.prems by auto
  have "[0..<length (s # ss)] = 0 # map Suc [0..<length ss]"
    by (simp only: length_Cons upt_conv_Cons [OF zero_less_Suc] map_Suc_upt)
  then show ?case
    using s' ss' by (auto simp: comp_def nth_Cons split: nat.splits)
qed simp


section \<open>The caches\<close>

lemma map_of_entries: "map_of (map (\<lambda>(k, x). (k, f x)) xs) k = map_option f (map_of xs k)"
  by (induction xs) auto

lemma map_lru_put: "map (\<lambda>(k, x). (k, f x)) (lru_put k v xs) = lru_put k (f v) (map (\<lambda>(k, x). (k, f x)) xs)"
  by (simp add: lru_put_def filter_map comp_def case_prod_beta)

lemma view_of_simps [simp]:
  "vw_black (view_of st) label = (local_view (cs_blacklist (rl_caches st)) label \<noteq> [])"
  "vw_local (view_of st) t label = map (\<lambda>ip. take (rdata_size t) (ip_addr ip)) (local_records t (rl_caches st) label)"
  "vw_cursor (view_of st) = adapter_cursor (rl_adapter st)"
  "vw_upstream (view_of st) = rl_query_server st"
  "vw_pending (view_of st) k = map_option (\<lambda>(info, start, q). (info, start)) (adapter_entries (rl_adapter st) k)"
  by (simp_all add: view_of_def Let_def)

lemma view_cached:
  "map_of (vw_cached (view_of st) t) label = map_option (map (entry_of t)) (cached_records t (rl_caches st) label)"
  by (simp add: view_of_def Let_def map_of_entries cached_records_def compound_def temp_cache_def)

text \<open>A state in which an entry was written or read.\<close>

lemma view_put:
  assumes "cache_put t label ds (rl_caches st) (rl_caches st')" and t: "t = 1 \<or> t = 28"
  shows "view_of st' = (view_of st)\<lparr>vw_cached := (vw_cached (view_of st))(t := lru_put label (map (entry_of t) ds)
       (vw_cached (view_of st) t)), vw_pending := vw_pending (view_of st'),
     vw_cursor := adapter_cursor (rl_adapter st'), vw_upstream := rl_query_server st'\<rparr>"
proof -
  obtain c where c: "rl_caches st' = set_temp t c (rl_caches st)"
    "cache_capacity c = cache_capacity (temp_cache t (rl_caches st))"
    "cache_contents c = lru_put label ds (cache_contents (temp_cache t (rl_caches st)))"
    using assms(1) by (auto simp: cache_put_def)
  note facts = cache_put_facts [OF assms]
  show ?thesis
    using c t facts(2,3)
    by (auto simp: view_of_def Let_def fun_eq_iff map_lru_put temp_cache_def set_temp_def set_A_temp_def set_AAAA_temp_def)
qed

lemma addresses_put:
  assumes "cache_put t label ds cs cs'" and "t = 1 \<or> t = 28" and "addresses_ok cs"
    and "list_all (\<lambda>d. length (ip_addr (rd_ip d)) = 16) ds"
  shows "addresses_ok cs'"
proof -
  obtain c where c: "cs' = set_temp t c cs" "cache_contents c = lru_put label ds (cache_contents (temp_cache t cs))"
    using assms(1) by (auto simp: cache_put_def)
  have "local_records t' cs' = local_records t' cs" for t' by (rule cache_put_facts(3) [OF assms(1,2)])
  then show ?thesis
    using assms(2-4) c(2)
    by (auto simp: c(1) addresses_ok_def set_temp_def temp_cache_def set_A_temp_def set_AAAA_temp_def lru_put_def list_all_iff)
qed

lemma addresses_get:
  assumes "addresses_ok cs" and "cached_records t cs label = Some ds"
  shows "list_all (\<lambda>d. length (ip_addr (rd_ip d)) = 16) ds"
proof -
  have "t = 1 \<or> t = 28" and "(label, ds) \<in> set (cache_contents (temp_cache t cs))"
    using assms(2) by (auto simp: cached_records_def compound_def temp_cache_def split: if_splits dest: map_of_SomeD)
  then show ?thesis using assms(1) by (auto simp: addresses_ok_def list_all_iff)
qed

section \<open>Queries\<close>

lemma relay_inv_same_adapter:
  assumes "relay_inv st" and "relay_ok st'" and "rl_adapter st' = rl_adapter st" and "rl_len st' = ADDR_LEN"
    and "addresses_ok (rl_caches st')"
  shows "relay_inv st'"
  using assms by (simp add: relay_inv_def)

lemma wire_entry_local:
  "concat (map (wire_entry a) (local_entries a (view_of st)))
    = concat (map (\<lambda>ip. wire_pair (ak_name a) (ak_type a) (ak_class a) (ip, 3600))
        (local_records (ak_type a) (rl_caches st) (dotted (ak_name a))))"
  by (simp add: wire_entry_def wire_pair_def local_entries_def comp_def)

lemma wire_entry_cached:
  "concat (map (wire_entry a) (left now (map (entry_of (ak_type a)) ds)))
    = concat (map (\<lambda>d. wire_pair (ak_name a) (ak_type a) (ak_class a) (rd_ip d, rd_ttl d - now)) ds)"
  by (simp add: wire_entry_def wire_pair_def left_def entry_of_def comp_def)

lemma length_entries [simp]:
  "length (local_entries a v) = length (vw_local v (ak_type a) (dotted (ak_name a)))" "length (left now es) = length es"
  by (simp_all add: local_entries_def left_def)

lemma ask_refused:
  assumes "relay_inv st" and "ask_ok ck a (view_of st)" and "vw_black (view_of st) (dotted (ak_name a))"
  shows "\<exists>st'. handle_request b tget now clk (Recv (ask_bytes (ak_id a) a) (ak_src a)) st = Some (Inr ([refusal a], st'))
    \<and> relay_inv st' \<and> view_of st' = view_of st"
proof -
  have ok: "relay_ok st" "request_ok (ak_name a) (ak_type a) (ak_class a) (ak_rest a) (ak_src a)"
    using assms(1,2) by (auto simp: relay_inv_def ask_ok_def)
  obtain st' where st': "handle_request b tget now clk (Recv (ask_bytes (ak_id a) a) (ak_src a)) st
      = Some (Inr ([refusal a], st'))" "relay_ok st'" "rl_caches st' = rl_caches st" "rl_adapter st' = rl_adapter st"
      "rl_query_server st' = rl_query_server st" "rl_len st' = ADDR_LEN"
    using request_blacklisted [OF ok, of b tget now clk "ak_id a" "ak_extra a"] assms(3)
    by (auto simp: ask_bytes_def refusal_def)
  then show ?thesis
    using assms(1) by (auto simp: relay_inv_def view_of_def Let_def)
qed


lemma ask_local:
  assumes "relay_inv st" and "ask_ok ck a (view_of st)" and "\<not> vw_black (view_of st) (dotted (ak_name a))"
    and "vw_local (view_of st) (ak_type a) (dotted (ak_name a)) \<noteq> []"
  shows "\<exists>st'. handle_request b tget now clk (Recv (ask_bytes (ak_id a) a) (ak_src a)) st
      = Some (Inr ([reply_with a (local_entries a (view_of st))], st')) \<and> relay_inv st' \<and> view_of st' = view_of st"
proof -
  have ok: "relay_ok st" "request_ok (ak_name a) (ak_type a) (ak_class a) (ak_rest a) (ak_src a)"
    using assms(1,2) by (auto simp: relay_inv_def ask_ok_def)
  have t: "ak_type a = 1 \<or> ak_type a = 28"
    using assms(4) by (auto simp: local_records_def compound_def split: if_splits)
  have fits: "list_all (\<lambda>ip. length (ip_addr ip) = 16) (local_records (ak_type a) (rl_caches st) (dotted (ak_name a)))"
    "reply_fits a (local_entries a (view_of st))"
    using assms by (simp_all add: ask_ok_def Let_def relay_inv_def addresses_ok_def)
  obtain st' where st': "handle_request b tget now clk (Recv (ask_bytes (ak_id a) a) (ak_src a)) st
      = Some (Inr ([reply_with a (local_entries a (view_of st))], st'))"
      "relay_ok st'" "rl_caches st' = rl_caches st" "rl_adapter st' = rl_adapter st"
      "rl_query_server st' = rl_query_server st" "rl_len st' = ADDR_LEN"
    using request_local [OF ok t _ refl, of b tget now clk "ak_id a" "ak_extra a"] assms(3,4) fits
    by (auto simp: ask_bytes_def reply_with_def reply_fits_def wire_entry_local list_all_iff)
  then show ?thesis
    using assms(1) by (auto simp: relay_inv_def view_of_def Let_def)
qed

lemma ask_cached:
  assumes "relay_inv st" and "ask_ok ck a (view_of st)" and "\<not> vw_black (view_of st) (dotted (ak_name a))"
    and "vw_local (view_of st) (ak_type a) (dotted (ak_name a)) = []"
    and "map_of (vw_cached (view_of st) (ak_type a)) (dotted (ak_name a)) = Some es"
  shows "\<exists>st'. handle_request b (ck_get ck) (ck_reply ck) clk (Recv (ask_bytes (ak_id a) a) (ak_src a)) st
      = Some (Inr ([reply_with a (left (ck_reply ck) es)], st')) \<and> relay_inv st'
    \<and> view_of st' = (view_of st)\<lparr>vw_cached := (vw_cached (view_of st))(ak_type a :=
        lru_put (dotted (ak_name a)) es (vw_cached (view_of st) (ak_type a)))\<rparr>"
proof -
  let ?t = "ak_type a" and ?c = "ak_class a" and ?ls = "ak_name a" and ?m = "ask_bytes (ak_id a) a"
  have ok: "relay_ok st" "request_ok ?ls ?t ?c (ak_rest a) (ak_src a)" and addr: "addresses_ok (rl_caches st)"
    using assms(1,2) by (auto simp: relay_inv_def ask_ok_def)
  obtain ds where ds: "cached_records ?t (rl_caches st) (dotted ?ls) = Some ds" and es: "es = map (entry_of ?t) ds"
    using assms(5) by (auto simp: view_cached)
  have t: "?t = 1 \<or> ?t = 28" using ds by (auto simp: cached_records_def compound_def split: if_splits)
  have live: "ds \<noteq> []" "\<not> expired (ck_get ck) ds" and fits: "reply_fits a (left (ck_reply ck) es)"
    using assms(2-5) es by (auto simp: ask_ok_def Let_def expired_def entry_of_def hd_map)
  note sixteen = addresses_get [OF addr ds]
  note rc = request_received(1,2) [OF ok, where i = "ak_id a" and ad = "ak_extra a", folded ask_bytes_def]
    request_received(3) [OF ok] request_received(4,5) [OF ok, where i = "ak_id a" and ad = "ak_extra a", folded ask_bytes_def]
  let ?tail = "ak_rest a @ drop (length ?m) (rl_buffer st)"
  have buf: "rl_buffer (received ?m (ak_src a) st) = wire_header (ak_id a) FLAG_QUERY 1 0 0 (ak_extra a) @ wire_question ?ls ?t ?c @ ?tail"
    using rc(5) by (simp add: ask_bytes_def query_def)
  have "length (rl_buffer (received ?m (ak_src a) st)) = 1024" using rc(2) by (simp add: relay_ok_def)
  then have room: "length (concat (map (\<lambda>d. wire_pair ?ls ?t ?c (rd_ip d, rd_ttl d - ck_reply ck)) ds)) \<le> length ?tail"
    using fits unfolding buf reply_fits_def es wire_entry_cached by simp
  have "length ds \<le> 20" using fits by (simp add: reply_fits_def left_def es)
  then obtain st' where st': "handle_request b (ck_get ck) (ck_reply ck) clk (Recv ?m (ak_src a)) st
      = Some (Inr ([reply_with a (left (ck_reply ck) es)], st'))"
      "relay_ok st'" "cache_put ?t (dotted ?ls) ds (rl_caches st) (rl_caches st')" "rl_adapter st' = rl_adapter st"
      "rl_query_server st' = rl_query_server st" "rl_len st' = ADDR_LEN"
    using answer_from_cache [OF rc(2,3) t buf _ _ _ live(2,1) _ sixteen room, of b clk "ak_id a" "length ?m"] assms(3,4) ds
    by (auto simp: rc(1) reply_with_def es wire_entry_cached)
  have "relay_inv st'"
    using addresses_put [OF st'(3) t addr sixteen] st' by (intro relay_inv_same_adapter [OF assms(1)])
  then show ?thesis using st' view_put [OF st'(3) t] es by (auto simp: view_of_def Let_def)
qed

lemma ask_forwarded:
  assumes "relay_inv st" and "ask_ok ck a (view_of st)" and "\<not> vw_black (view_of st) (dotted (ak_name a))"
    and "vw_local (view_of st) (ak_type a) (dotted (ak_name a)) = []"
    and "map_of (vw_cached (view_of st) (ak_type a)) (dotted (ak_name a)) = None"
  defines "k \<equiv> vw_cursor (view_of st)"
  shows "\<exists>st'. handle_request b tget now (ck_push ck) (Recv (ask_bytes (ak_id a) a) (ak_src a)) st
      = Some (Inr ([(Query_sockfd, vw_upstream (view_of st), ask_bytes (of_nat k) a)], st')) \<and> relay_inv st'
    \<and> view_of st' = (view_of st)\<lparr>vw_cursor := Suc k mod 1024, vw_pending := (vw_pending (view_of st))(k \<mapsto>
           (\<lparr>ia_addr = ak_src a, ia_old_id = ak_id a, ia_type = ucast (ak_type a)\<rparr>, ck_push ck))\<rparr>"
proof -
  have ok: "relay_ok st" "request_ok (ak_name a) (ak_type a) (ak_class a) (ak_rest a) (ak_src a)"
    using assms(1,2) by (auto simp: relay_inv_def ask_ok_def)
  have free: "adapter_entries (rl_adapter st) (adapter_cursor (rl_adapter st)) = None"
    using assms(2-5) by (simp add: ask_ok_def Let_def)
  have "unknown (ak_name a) (ak_type a) (rl_caches st)"
    using assms(3-5) by (simp add: unknown_def view_cached)
  then obtain st' x where st': "handle_request b tget now (ck_push ck) (Recv (ask_bytes (ak_id a) a) (ak_src a)) st
      = Some (Inr ([(Query_sockfd, rl_query_server st, ask_bytes (of_nat k) a)], st'))"
      "relay_ok st'" "rl_caches st' = rl_caches st" "rl_query_server st' = rl_query_server st" "rl_len st' = ADDR_LEN"
      "adapter_cursor (rl_adapter st') = Suc k mod 1024"
      "adapter_entries (rl_adapter st') = (adapter_entries (rl_adapter st))(k \<mapsto>
        (\<lparr>ia_addr = ak_src a, ia_old_id = ak_id a, ia_type = ucast (ak_type a)\<rparr>, ck_push ck, c_str (ask_bytes (ak_id a) a)))"
    and push: "IDAdapter_push b (ak_id a) (ak_src a) (ucast (ak_type a)) (ck_push ck) (ask_bytes (ak_id a) a @ 0 # x)
      (rl_adapter st) = Inr (int k, rl_adapter st')"
    using request_forwarded [OF ok _ free, of b tget now "ck_push ck" "ak_id a" "ak_extra a"]
    by (auto simp: ask_bytes_def k_def)
  have "list_all slot_short (ad_data (rl_adapter st'))"
    using push_short [OF push] assms(1) query_text by (simp add: relay_inv_def ask_bytes_def)
  then have "relay_inv st'" using st' assms(1) by (simp add: relay_inv_def)
  then show ?thesis
    using st' by (auto simp: k_def view_of_def Let_def fun_eq_iff)
qed

lemma ask_refines:
  assumes "relay_inv st" and "ask_ok ck a (view_of st)"
  shows "\<exists>st'. handle_request b (ck_get ck) (ck_reply ck) (ck_push ck) (Recv (ask_bytes (ak_id a) a) (ak_src a)) st
      = Some (Inr (fst (spec_ask ck a (view_of st)), st')) \<and> relay_inv st'
    \<and> view_of st' = snd (spec_ask ck a (view_of st))"
  using ask_refused [OF assms] ask_local [OF assms] ask_cached [OF assms] ask_forwarded [OF assms]
  by (cases "map_of (vw_cached (view_of st) (ak_type a)) (dotted (ak_name a))") (auto simp: spec_ask_def Let_def)


section \<open>Responses\<close>

lemma resp_dropped:
  assumes "relay_inv st" and "resp_ok ck r (view_of st)" and "vw_pending (view_of st) (rs_ticket r) = None"
  shows "\<exists>st'. handle_relay b now now' (Recv (resp_bytes (of_nat (rs_ticket r)) r) (rs_src r)) st = Some (Inr ([], st'))
    \<and> relay_inv st' \<and> view_of st' = (view_of st)\<lparr>vw_upstream := rs_src r\<rparr>"
proof -
  let ?m = "resp_bytes (of_nat (rs_ticket r)) r"
  have ok: "relay_ok st" "rl_len st = ADDR_LEN" "length ?m \<le> 520" "length (rs_src r) = ADDR_LEN" "rs_ticket r < 1024"
    using assms(1,2) by (auto simp: relay_inv_def resp_ok_def)
  have "adapter_entries (rl_adapter st) (rs_ticket r) = None" using assms(3) by simp
  then have "handle_relay b now now' (Recv ?m (rs_src r)) st = Some (Inr ([], responded ?m (rs_src r) st))"
    by (rule relay_response_dropped [OF ok(1-4) resp_bytes_def ok(5)])
  moreover have "relay_inv (responded ?m (rs_src r) st)"
    using assms(1) relay_ok_responded [OF ok(1,3,4)] by (simp add: relay_inv_def responded_def)
  moreover have "view_of (responded ?m (rs_src r) st) = (view_of st)\<lparr>vw_upstream := rs_src r\<rparr>"
    by (simp add: view_of_def responded_def Let_def)
  ultimately show ?thesis by blast
qed

text \<open>What all responses to a pending query have in common.\<close>

lemma relay_inv_popped:
  assumes "relay_inv st" and "relay_ok st'" and "rl_len st' = ADDR_LEN" and "addresses_ok (rl_caches st')"
    and "IDAdapter_pop b k (rl_adapter st) = Inr (rl_adapter st')"
  shows "relay_inv st'"
  using assms pop_short [OF assms(5)] by (simp add: relay_inv_def)

lemma resp_uncached:
  assumes "relay_inv st" and "resp_ok ck r (view_of st)" and p: "vw_pending (view_of st) (rs_ticket r) = Some (info, time)"
    and "ia_type info \<notin> {1, 28} \<or> learnt ck r = []"
  shows "\<exists>st'. handle_relay b now now' (Recv (resp_bytes (of_nat (rs_ticket r)) r) (rs_src r)) st
      = Some (Inr ([(Server_sockfd, ia_addr info, resp_bytes (ia_old_id info) r)], st')) \<and> relay_inv st'
    \<and> view_of st' = (view_of st)\<lparr>vw_upstream := rs_src r, vw_pending := (vw_pending (view_of st))(rs_ticket r := None)\<rparr>"
proof -
  let ?m = "resp_bytes (of_nat (rs_ticket r)) r" and ?k = "rs_ticket r"
  have ok: "relay_ok st" "rl_len st = ADDR_LEN" "length ?m \<le> 520" "length (rs_src r) = ADDR_LEN" "?k < 1024"
    using assms(1,2) by (auto simp: relay_inv_def resp_ok_def)
  obtain q where e: "adapter_entries (rl_adapter st) ?k = Some (info, time, q)" using p by auto
  have "\<exists>st'. handle_relay b now now' (Recv ?m (rs_src r)) st
      = Some (Inr ([(Server_sockfd, ia_addr info, resp_bytes (ia_old_id info) r)], st'))
    \<and> relay_ok st' \<and> rl_caches st' = rl_caches st \<and> rl_query_server st' = rs_src r \<and> rl_len st' = ADDR_LEN
    \<and> adapter_cursor (rl_adapter st') = adapter_cursor (rl_adapter st)
    \<and> adapter_entries (rl_adapter st') = (adapter_entries (rl_adapter st))(?k := None)
    \<and> IDAdapter_pop b (of_nat ?k) (rl_adapter st) = Inr (rl_adapter st')"
  proof (cases "ia_type info \<in> {1, 28}")
    case True
    then have "filter is_address (rs_rrs r) = []" using assms(4) by (simp add: learnt_def)
    moreover have "name_ok (rs_name r)" "response_ok ?m (of_nat ?k) (rs_flags r) (rs_name r) (rs_type r) (rs_class r) (rs_rrs r)
        (rs_auth r) (rs_extra r) (rs_rest r)"
      using assms(2) p True ok(3) by (auto simp: resp_ok_def response_ok_def resp_bytes_def Let_def)
    ultimately show ?thesis
      unfolding resp_bytes_def [of "ia_old_id info"]
      using relay_response_empty [OF ok(1,2,4) _ _ ok(5) e True, of "rs_name r" ?m] by blast
  next
    case False
    then show ?thesis
      unfolding resp_bytes_def [of "ia_old_id info"]
      using relay_response_plain [OF ok(1-4) resp_bytes_def ok(5) e] by blast
  qed
  then obtain st' where st': "handle_relay b now now' (Recv ?m (rs_src r)) st
      = Some (Inr ([(Server_sockfd, ia_addr info, resp_bytes (ia_old_id info) r)], st'))"
    "relay_ok st'" "rl_caches st' = rl_caches st" "rl_query_server st' = rs_src r" "rl_len st' = ADDR_LEN"
    "adapter_cursor (rl_adapter st') = adapter_cursor (rl_adapter st)"
    "adapter_entries (rl_adapter st') = (adapter_entries (rl_adapter st))(?k := None)"
    "IDAdapter_pop b (of_nat ?k) (rl_adapter st) = Inr (rl_adapter st')"
    by blast
  moreover have "relay_inv st'"
    using relay_inv_popped [OF assms(1) st'(2,5) _ st'(8)] assms(1) st'(3) by (simp add: relay_inv_def)
  ultimately show ?thesis by (auto simp: view_of_def Let_def fun_eq_iff)
qed

lemma learnt_entries:
  assumes "list_all2 (record_of now label) rs ds" and "list_all (\<lambda>x. length (rr_data x) = rdata_size t) rs"
  shows "map (entry_of t) ds = map (\<lambda>x. (now + uint (rr_ttl x), rr_data x)) rs"
  using assms by (induction rule: list_all2_induct) (auto simp: record_of_def entry_of_def)

lemma resp_cached:
  assumes "relay_inv st" and "resp_ok ck r (view_of st)" and p: "vw_pending (view_of st) (rs_ticket r) = Some (info, time)"
    and ty: "ia_type info \<in> {1, 28}" and some: "learnt ck r \<noteq> []"
  defines "t \<equiv> ucast (ia_type info)"
  shows "\<exists>st'. handle_relay b (ck_now ck) (ck_cache ck) (Recv (resp_bytes (of_nat (rs_ticket r)) r) (rs_src r)) st
      = Some (Inr ([(Server_sockfd, ia_addr info, resp_bytes (ia_old_id info) r)], st')) \<and> relay_inv st'
    \<and> view_of st' = (view_of st)\<lparr>vw_upstream := rs_src r, vw_pending := (vw_pending (view_of st))(rs_ticket r := None),
        vw_cached := (vw_cached (view_of st))(t := lru_put (dotted (rs_name r)) (learnt ck r) (vw_cached (view_of st) t))\<rparr>"
proof -
  let ?m = "resp_bytes (of_nat (rs_ticket r)) r" and ?k = "rs_ticket r" and ?rs = "filter is_address (rs_rrs r)"
  have ok: "relay_ok st" "rl_len st = ADDR_LEN" "length (rs_src r) = ADDR_LEN" "?k < 1024" and addr: "addresses_ok (rl_caches st)"
    and name: "name_ok (rs_name r)"
    and r: "response_ok ?m (of_nat ?k) (rs_flags r) (rs_name r) (rs_type r) (rs_class r) (rs_rrs r)
        (rs_auth r) (rs_extra r) (rs_rest r)"
    using assms(1,2) p ty by (auto simp: relay_inv_def resp_ok_def response_ok_def resp_bytes_def Let_def)
  obtain q where e: "adapter_entries (rl_adapter st) ?k = Some (info, time, q)" using p by auto
  have t: "t = 1 \<or> t = 28" "ia_type info = ucast t" using ty by (auto simp: t_def)
  have limits: "length (learnt ck r) \<le> 10" "length (vw_cached (view_of st) t) < vw_room (view_of st) t"
    "list_all (\<lambda>(x, d). ck_cache ck \<le> x \<and> length d = rdata_size t) (learnt ck r)"
    unfolding t_def using assms(2) p ty some by (auto simp: resp_ok_def Let_def)
  have n: "?rs \<noteq> []" "length ?rs \<le> 10" and data: "list_all (\<lambda>x. length (rr_data x) = rdata_size t) ?rs"
    and fresh: "\<forall>x \<in> set ?rs. ck_cache ck \<le> ck_now ck + uint (rr_ttl x)"
    and room: "length (cache_contents (temp_cache t (rl_caches st))) < cache_capacity (temp_cache t (rl_caches st))"
    using limits some t(1) by (auto simp: learnt_def list_all_iff view_of_def Let_def)
  obtain st' ds where st': "handle_relay b (ck_now ck) (ck_cache ck) (Recv ?m (rs_src r)) st
      = Some (Inr ([(Server_sockfd, ia_addr info, resp_bytes (ia_old_id info) r)], st'))" "relay_ok st'"
    "rl_query_server st' = rs_src r" "rl_len st' = ADDR_LEN"
    "adapter_cursor (rl_adapter st') = adapter_cursor (rl_adapter st)"
    "adapter_entries (rl_adapter st') = (adapter_entries (rl_adapter st))(?k := None)"
    "IDAdapter_pop b (of_nat ?k) (rl_adapter st) = Inr (rl_adapter st')"
    and ds: "list_all2 (record_of (ck_now ck) (dotted (rs_name r))) ?rs ds"
    and put: "cache_put t (dotted (rs_name r)) ds (rl_caches st) (rl_caches st')"
    using relay_response_cached [OF ok(1-3) name r ok(4) e t(2,1) n fresh room, of b]
    unfolding resp_bytes_def [of "ia_old_id info"] by blast
  have "list_all (\<lambda>d. length (ip_addr (rd_ip d)) = 16) ds"
    using ds by (induction rule: list_all2_induct) (auto simp: record_of_def)
  then have "relay_inv st'"
    using relay_inv_popped [OF assms(1) st'(2,4) _ st'(7)] addresses_put [OF put t(1) addr] by blast
  moreover have "map (entry_of t) ds = learnt ck r"
    using learnt_entries [OF ds data] by (simp add: learnt_def)
  moreover have "vw_pending (view_of st') = (vw_pending (view_of st))(?k := None)"
    using st'(6) by (simp add: fun_eq_iff)
  ultimately show ?thesis
    using st' view_put [OF put t(1)] by simp
qed

lemma resp_refines:
  assumes "relay_inv st" and "resp_ok ck r (view_of st)"
  shows "\<exists>st'. handle_relay b (ck_now ck) (ck_cache ck) (Recv (resp_bytes (of_nat (rs_ticket r)) r) (rs_src r)) st
      = Some (Inr (fst (spec_respond ck r (view_of st)), st')) \<and> relay_inv st'
    \<and> view_of st' = snd (spec_respond ck r (view_of st))"
proof (cases "vw_pending (view_of st) (rs_ticket r)")
  case None
  then show ?thesis using resp_dropped [OF assms None] by (simp add: spec_respond_def Let_def)
next
  case (Some e)
  obtain info time where e: "e = (info, time)" by (cases e)
  show ?thesis
  proof (cases "ia_type info \<in> {1, 28} \<and> learnt ck r \<noteq> []")
    case True
    then show ?thesis
      using resp_cached [OF assms Some [unfolded e], of b] Some e by (auto simp: spec_respond_def Let_def)
  next
    case False
    then show ?thesis
      using resp_uncached [OF assms Some [unfolded e], of b "ck_now ck" "ck_cache ck"] Some e
      by (auto simp: spec_respond_def Let_def)
  qed
qed

section \<open>Quiet periods\<close>

lemma quiet_refines:
  assumes "relay_inv st"
  shows "\<exists>st'. handle_timeouts (ck_scan ck) st = Inr (fst (spec_quiet ck (view_of st)), st')
    \<and> relay_inv st' \<and> view_of st' = snd (spec_quiet ck (view_of st))"
proof -
  let ?n = "nat IDAadpter_SIZE" and ?ss = "ad_data (rl_adapter st)" and ?clk = "ck_scan ck"
  have short: "list_all slot_short ?ss" and ok: "adapter_ok (rl_adapter st)" and len: "length ?ss = ?n"
    using assms by (auto simp: relay_inv_def relay_ok_def adapter_ok_def)
  obtain ss where ss: "expire_slots ?clk 0 ?ss
      = Inr (concat (map (\<lambda>k. timeout_packets (slot_overdue (?clk k) (?ss ! k))) [0..<?n]), ss)"
    "list_all slot_short ss" "length ss = ?n"
    "\<forall>k < ?n. slot_entry (ss ! k) = (if slot_overdue (?clk k) (?ss ! k) = None then slot_entry (?ss ! k) else None)"
    using expire_slots_short [OF short, of ?clk 0] len by auto
  have due: "overdue ?clk k (view_of st) = slot_overdue (?clk k) (?ss ! k)" if "k < ?n" for k
    using that len by (simp add: overdue_def slot_overdue_def adapter_entries_def slot_entry_def)
  let ?st = "st\<lparr>rl_adapter := (rl_adapter st)\<lparr>ad_data := ss\<rparr>\<rparr>"
  have "fst (spec_quiet ck (view_of st)) = concat (map (\<lambda>k. timeout_packets (slot_overdue (?clk k) (?ss ! k))) [0..<?n])"
    unfolding spec_quiet_def fst_conv using due by (intro arg_cong [of _ _ concat] map_cong) auto
  then have run: "handle_timeouts ?clk st = Inr (fst (spec_quiet ck (view_of st)), ?st)"
    using ss(1) by (simp add: handle_timeouts_def)
  have inv: "relay_inv ?st"
    using assms ss(2,3)
    by (auto simp: relay_inv_def relay_ok_def adapter_ok_def slot_ok_def slot_short_def list_all_iff)
  have "vw_pending (view_of ?st) = (\<lambda>k. if overdue ?clk k (view_of st) = None then vw_pending (view_of st) k else None)"
    using ss(3,4) len due by (auto simp: adapter_entries_def fun_eq_iff)
  moreover have "view_of ?st = (view_of st)\<lparr>vw_pending := vw_pending (view_of ?st)\<rparr>"
    by (simp add: view_of_def Let_def adapter_cursor_def)
  ultimately have "view_of ?st = snd (spec_quiet ck (view_of st))"
    by (simp only: spec_quiet_def snd_conv)
  with run inv show ?thesis by blast
qed

section \<open>Runs\<close>

lemma turn_refines:
  assumes "relay_inv st" and "turn_ok ck x (view_of st)"
  shows "\<exists>st'. loop_body b ck (turn_input x) st = Some (Inr (fst (spec_turn ck x (view_of st)), st'))
    \<and> relay_inv st' \<and> view_of st' = snd (spec_turn ck x (view_of st))"
proof (cases x)
  case (Turn r a)
  obtain out st1 where one: "(case map_option (\<lambda>r. Recv (resp_bytes (of_nat (rs_ticket r)) r) (rs_src r)) r of
        None \<Rightarrow> Some (Inr ([], st)) | Some r \<Rightarrow> handle_relay b (ck_now ck) (ck_cache ck) r st) = Some (Inr (out, st1))"
    "relay_inv st1" "(case r of None \<Rightarrow> ([], view_of st) | Some r \<Rightarrow> spec_respond ck r (view_of st)) = (out, view_of st1)"
    using resp_refines [OF assms(1), of ck _ b] assms Turn by (cases r) (auto, metis prod.collapse)
  then have "case a of None \<Rightarrow> True | Some a \<Rightarrow> ask_ok ck a (view_of st1)"
    using assms(2) Turn by (auto split: option.splits)
  then obtain outs st2 where "(case map_option (\<lambda>a. Recv (ask_bytes (ak_id a) a) (ak_src a)) a of
        None \<Rightarrow> Some (Inr ([], st1)) | Some r \<Rightarrow> handle_request b (ck_get ck) (ck_reply ck) (ck_push ck) r st1)
        = Some (Inr (outs, st2))"
    "relay_inv st2" "(case a of None \<Rightarrow> ([], view_of st1) | Some a \<Rightarrow> spec_ask ck a (view_of st1)) = (outs, view_of st2)"
    using ask_refines [OF one(2), of ck _ b] one(2) by (cases a) (auto, metis prod.collapse)
  then show ?thesis using one by (simp add: Turn loop_body_def)
next
  case Quiet
  then show ?thesis using quiet_refines [OF assms(1), of ck] by (auto simp: loop_body_def)
next
  case Failed
  then show ?thesis using assms(1) by (simp add: loop_body_def)
qed

lemma loop_refines:
  assumes "relay_inv st" and "turns_ok turns (view_of st)"
  shows "\<exists>st'. run_loop b (map (\<lambda>(ck, x). (ck, turn_input x)) turns) st
      = Some (Inr (fst (spec_run turns (view_of st)), st'))
    \<and> relay_inv st' \<and> view_of st' = snd (spec_run turns (view_of st))"
  using assms
proof (induction turns arbitrary: st)
  case (Cons y turns)
  obtain ck x where y: "y = (ck, x)" by (cases y)
  obtain st1 where one: "loop_body b ck (turn_input x) st = Some (Inr (fst (spec_turn ck x (view_of st)), st1))"
    "relay_inv st1" "view_of st1 = snd (spec_turn ck x (view_of st))"
    using turn_refines [OF Cons.prems(1), of ck x b] Cons.prems(2) y by auto
  then show ?case
    using Cons.IH [OF one(2)] Cons.prems(2) by (auto simp: y Let_def case_prod_beta)
qed simp

section \<open>Property\<close>

text \<open>C2. The relay refines the abstract relay, over every run of the loop: queries refused, answered from
  the local records or from the cache, or passed on under a ticket; responses passed back and
  learnt; quiet periods in which old queries are given up; turns with a response and a query; in
  any order and number. As long as the run stays within the limits \<open>turns_ok\<close>, checked on the
  abstract relay alone, every step of the code returns, the packets sent are exactly those of the
  abstract relay, byte for byte and in its order, and the invariant holds again.\<close>

theorem relay_run_refines:
  assumes "relay_inv st" and "turns_ok turns (view_of st)"
  shows "\<exists>st'. run_loop b (map (\<lambda>(ck, x). (ck, turn_input x)) turns) st
      = Some (Inr (fst (spec_run turns (view_of st)), st'))
    \<and> relay_inv st' \<and> view_of st' = snd (spec_run turns (view_of st))"
  by (rule loop_refines [OF assms])

text \<open>The state after start-up satisfies the invariant, once the address length is set.\<close>

lemma init_inv:
  assumes "relay_ok st" and "rl_adapter st = init_adapter" and "rl_len st = ADDR_LEN"
    and "\<And>v. cache_contents (temp_cache v (rl_caches st)) = []"
    and "\<And>t label. list_all (\<lambda>ip. length (ip_addr ip) = 16) (local_records t (rl_caches st) label)"
  shows "relay_inv st"
  using assms
  by (simp add: relay_inv_def addresses_ok_def init_adapter_def IDAadpter_SIZE_def slot_short_def zero_slot_def list_all_iff)

definition sample_ask :: "u16 \<Rightarrow> ask" where
  "sample_ask i = \<lparr>ak_id = i, ak_extra = 0, ak_name = [[97]], ak_type = 1, ak_class = 1, ak_rest = [],
     ak_src = replicate 16 1\<rparr>"

definition sample_resp :: resp where
  "sample_resp = \<lparr>rs_ticket = 0, rs_flags = 0x8180, rs_name = [[97]], rs_type = 1, rs_class = 1,
     rs_rrs = [sample_rr], rs_auth = 0, rs_extra = 0, rs_rest = sample_wire, rs_src = replicate 16 2\<rparr>"

definition clock_at :: "int \<Rightarrow> clocks" where
  "clock_at n = \<lparr>ck_scan = \<lambda>_. n, ck_now = n, ck_cache = n, ck_get = n, ck_reply = n, ck_push = n\<rparr>"


lemma sample_asked:
  assumes "\<not> vw_black v [97]" and "vw_local v 1 [97] = []"
  shows "vw_cached v 1 = [] \<Longrightarrow> vw_pending v (vw_cursor v) = None \<Longrightarrow> ask_ok ck (sample_ask i) v"
    and "vw_cached v 1 = [([97], [(x, [10, 0, 0, 1])])] \<Longrightarrow> ck_get ck \<le> x \<Longrightarrow> ask_ok ck (sample_ask i) v"
  using assms sample_request_ok [of 1]
  by (simp_all add: ask_ok_def sample_ask_def reply_fits_def left_def wire_entry_def Let_def wire_rr_def wire_question_def)

lemma sample_resp_ok:
  assumes "vw_pending v 0 = Some (\<lparr>ia_addr = src, ia_old_id = i, ia_type = 1\<rparr>, t)" and "vw_cached v 1 = []" and "0 < vw_room v 1"
    and "ck_cache ck \<le> ck_now ck"
  shows "resp_ok ck sample_resp v"
proof -
  have "resp_bytes 0 sample_resp = sample_response 0 1"
    by (simp add: resp_bytes_def sample_resp_def sample_response_def)
  then have r: "response_ok (resp_bytes 0 sample_resp) 0 0x8180 [[97]] 1 1 [sample_rr] 0 0 sample_wire"
    using sample_response_ok [of 1 0] by simp
  have "name_ok [[97]]" using sample_request_ok [of 1] by (simp add: request_ok_def)
  moreover have "learnt ck sample_resp = [(ck_now ck + 300, [10, 0, 0, 1])]"
    by (simp add: learnt_def sample_resp_def sample_rr_def is_address_def)
  moreover have "rs_ticket sample_resp = 0" "rs_src sample_resp = replicate 16 2" "rs_name sample_resp = [[97]]"
    "rs_type sample_resp = 1" "rs_class sample_resp = 1" "rs_rrs sample_resp = [sample_rr]"
    by (simp_all add: sample_resp_def)
  ultimately show ?thesis
    using assms response_okD(2-4) [OF r] by (simp add: resp_ok_def ADDR_LEN_def rdata_size_def)
qed

text \<open>A query is passed on; in the next turn its response and a second query for the name arrive
  together; a quiet period follows.\<close>

definition sample_turns :: "(clocks \<times> turn) list" where
  "sample_turns = [(clock_at 0, Turn None (Some (sample_ask 5))),
     (clock_at 100, Turn (Some sample_resp) (Some (sample_ask 6))), (clock_at 200, Quiet)]"

lemma sample_turns_run:
  obtains st where "relay_inv st" and "rl_adapter st = init_adapter" and "turns_ok sample_turns (view_of st)"
    and "fst (spec_run sample_turns (view_of st)) = [(Query_sockfd, rl_query_server st, ask_bytes 0 (sample_ask 5)),
     (Server_sockfd, replicate 16 1, resp_bytes 5 sample_resp), reply_with (sample_ask 6) [(300, [10, 0, 0, 1])]]"
proof -
  obtain st where st: "relay_ok st" "rl_adapter st = init_adapter" "rl_len st = ADDR_LEN"
    "\<And>ls t. unknown ls t (rl_caches st)" "\<And>v. cache_contents (temp_cache v (rl_caches st)) = []"
    "\<And>v. length (cache_contents (temp_cache v (rl_caches st))) < cache_capacity (temp_cache v (rl_caches st))"
    by (rule relay_example) blast
  let ?v = "view_of st"
  have "local_records t (rl_caches st) label = []" for t label
    using st(4) [of "split_dots label" t] by (simp add: unknown_def)
  then have inv: "relay_inv st" by (intro init_inv [OF st(1-3,5)]) simp
  have v: "\<not> vw_black ?v [97]" "vw_local ?v 1 [97] = []" "vw_cached ?v 1 = []" "0 < vw_room ?v 1"
    "vw_pending ?v = Map.empty" "vw_cursor ?v = 0"
    using st(2) st(4) [of "[[97]]" 1] st(5,6) [of 1]
    by (auto simp: unknown_def view_of_def Let_def fun_eq_iff)
  define v0 where "v0 = ?v"
  note v = v [folded v0_def]
  let ?info = "\<lparr>ia_addr = replicate 16 1, ia_old_id = 5, ia_type = 1\<rparr>"
  define v1 where "v1 = v0\<lparr>vw_cursor := 1, vw_pending := [0 \<mapsto> (?info, 0)]\<rparr>"
  define v2 where "v2 = v1\<lparr>vw_upstream := replicate 16 2, vw_pending := Map.empty,
    vw_cached := (vw_cached v1)(1 := [([97], [(400, [10, 0, 0, 1])])])\<rparr>"
  have one: "spec_ask (clock_at 0) (sample_ask 5) v0
      = ([(Query_sockfd, vw_upstream v0, ask_bytes 0 (sample_ask 5))], v1)"
    using v by (simp add: spec_ask_def Let_def v1_def) (simp add: sample_ask_def clock_at_def)
  have two: "spec_respond (clock_at 100) sample_resp v1
      = ([(Server_sockfd, replicate 16 1, resp_bytes 5 sample_resp)], v2)"
    using v by (simp add: spec_respond_def v1_def v2_def learnt_def clock_at_def is_address_def sample_rr_def lru_put_def
        sample_resp_def)
  have three: "spec_ask (clock_at 100) (sample_ask 6) v2 = ([reply_with (sample_ask 6) [(300, [10, 0, 0, 1])]], v2)"
    using v by (simp add: spec_ask_def Let_def v1_def v2_def left_def clock_at_def lru_put_def sample_ask_def fun_upd_idem)
  have four: "spec_quiet (clock_at 200) v2 = ([], v2)"
    by (simp add: spec_quiet_def overdue_def v2_def timeout_packets_def)
  have "ask_ok (clock_at 0) (sample_ask 5) v0" by (rule sample_asked(1)) (use v in simp_all)
  moreover have "resp_ok (clock_at 100) sample_resp v1"
    by (rule sample_resp_ok [of _ "replicate 16 1" 5 0]) (use v in \<open>simp_all add: v1_def clock_at_def\<close>)
  moreover have "ask_ok (clock_at 100) (sample_ask 6) v2"
    by (rule sample_asked(2) [of _ 400]) (use v in \<open>simp_all add: v1_def v2_def clock_at_def\<close>)
  ultimately have "turns_ok sample_turns v0" using one two by (simp add: sample_turns_def)
  then show thesis
    using that [of st] inv st(2) one two three four by (simp add: sample_turns_def v0_def)
qed

theorem relay_run_refines_witness:
  "\<exists>st st'. relay_inv st \<and> run_loop True (map (\<lambda>(ck, x). (ck, turn_input x)) sample_turns) st = Some (Inr (
    [(Query_sockfd, rl_query_server st, ask_bytes 0 (sample_ask 5)),
     (Server_sockfd, replicate 16 1, resp_bytes 5 sample_resp),
     reply_with (sample_ask 6) [(300, [10, 0, 0, 1])]], st')) \<and> relay_inv st'"
proof -
  obtain st where st: "relay_inv st" "turns_ok sample_turns (view_of st)"
    "fst (spec_run sample_turns (view_of st)) = [(Query_sockfd, rl_query_server st, ask_bytes 0 (sample_ask 5)),
     (Server_sockfd, replicate 16 1, resp_bytes 5 sample_resp), reply_with (sample_ask 6) [(300, [10, 0, 0, 1])]]"
    by (rule sample_turns_run) blast
  then show ?thesis using relay_run_refines [OF st(1,2), of True] by auto
qed

end
