(* ===== verification/RelayAccount.thy ===== *)
theory RelayAccount
  imports RelaySpec
begin

text \<open>
  The relay's accounts: every query of a client is answered exactly once or still pending. Counted
  on the abstract relay of \<open>RelaySpec\<close> and carried over to the loop of \<open>src/src/main.c\<close> by the
  refinement of its turns.
\<close>

section \<open>Counting on the abstract relay\<close>

definition to_clients :: "packet list \<Rightarrow> nat" where
  "to_clients outs = length (filter (\<lambda>p. fst p = Server_sockfd) outs)"

fun queries_in :: "turn \<Rightarrow> nat" where
  "queries_in (Turn r a) = (if a = None then 0 else 1)"
| "queries_in Quiet = 0"
| "queries_in Failed = 0"

definition open_queries :: "view \<Rightarrow> nat" where
  "open_queries v = card (dom (vw_pending v))"

lemma to_clients_simps [simp]:
  "to_clients [] = 0" "to_clients (p # outs) = (if fst p = Server_sockfd then 1 else 0) + to_clients outs"
  "to_clients (xs @ ys) = to_clients xs + to_clients ys"
  by (simp_all add: to_clients_def)

lemma respond_account:
  assumes "finite (dom (vw_pending v))"
  shows "to_clients (fst (spec_respond ck r v)) + open_queries (snd (spec_respond ck r v)) = open_queries v"
    and "dom (vw_pending (snd (spec_respond ck r v))) \<subseteq> dom (vw_pending v)"
proof -
  have "card (dom (vw_pending v)) > 0" if "vw_pending v k = Some e" for k e
    using assms that by (auto simp: card_gt_0_iff)
  then show "to_clients (fst (spec_respond ck r v)) + open_queries (snd (spec_respond ck r v)) = open_queries v"
    using assms by (auto simp: spec_respond_def Let_def open_queries_def domI split: option.split)
  show "dom (vw_pending (snd (spec_respond ck r v))) \<subseteq> dom (vw_pending v)"
    by (auto simp: spec_respond_def Let_def split: option.splits if_splits)
qed

lemma ask_account:
  assumes "finite (dom (vw_pending v))" and "ask_ok ck a v"
  shows "to_clients (fst (spec_ask ck a v)) + open_queries (snd (spec_ask ck a v)) = Suc (open_queries v)"
  using assms
  by (auto simp: spec_ask_def ask_ok_def Let_def open_queries_def refusal_def reply_with_def card_insert_if domIff
      split: option.splits if_splits)

lemma timeout_count:
  "to_clients (concat (map (\<lambda>k. timeout_packets (f k)) ks)) = length (filter (\<lambda>k. f k \<noteq> None) ks)"
  by (induction ks) (auto simp: timeout_packets_def split: option.splits)

lemma quiet_account:
  assumes "dom (vw_pending v) \<subseteq> {..<nat IDAadpter_SIZE}"
  shows "to_clients (fst (spec_quiet ck v)) + open_queries (snd (spec_quiet ck v)) = open_queries v"
proof -
  let ?due = "{k. overdue (ck_scan ck) k v \<noteq> None}"
  have due: "?due \<subseteq> dom (vw_pending v)" by (auto simp: overdue_def split: option.splits if_splits)
  have fin: "finite (dom (vw_pending v))" using assms finite_subset by blast
  have "to_clients (fst (spec_quiet ck v)) = card (set (filter (\<lambda>k. overdue (ck_scan ck) k v \<noteq> None) [0..<nat IDAadpter_SIZE]))"
    by (simp only: spec_quiet_def fst_conv timeout_count) (intro distinct_card [symmetric], simp)
  also have "set (filter (\<lambda>k. overdue (ck_scan ck) k v \<noteq> None) [0..<nat IDAadpter_SIZE]) = ?due"
    using due assms by auto
  finally have out: "to_clients (fst (spec_quiet ck v)) = card ?due" .
  have "dom (vw_pending (snd (spec_quiet ck v))) = dom (vw_pending v) - ?due"
    by (auto simp: spec_quiet_def split: if_splits)
  then have "open_queries (snd (spec_quiet ck v)) = open_queries v - card ?due"
    using card_Diff_subset [OF finite_subset [OF due fin] due] by (simp add: open_queries_def)
  then show ?thesis using out card_mono [OF fin due] by (simp add: open_queries_def)
qed

lemma turn_account:
  assumes "dom (vw_pending v) \<subseteq> {..<nat IDAadpter_SIZE}" and "turn_ok ck x v"
  shows "to_clients (fst (spec_turn ck x v)) + open_queries (snd (spec_turn ck x v)) = queries_in x + open_queries v"
proof (cases x)
  case (Turn r a)
  have fin: "finite (dom (vw_pending v))" using assms(1) finite_subset by blast
  define p where "p = (case r of None \<Rightarrow> ([], v) | Some r \<Rightarrow> spec_respond ck r v)"
  have one: "to_clients (fst p) + open_queries (snd p) = open_queries v" "finite (dom (vw_pending (snd p)))"
    using respond_account(1) [OF fin] finite_subset [OF respond_account(2) [OF fin] fin] fin
    by (auto simp: p_def split: option.split)
  have ok: "case a of None \<Rightarrow> True | Some a \<Rightarrow> ask_ok ck a (snd p)"
    using assms(2) by (auto simp: Turn p_def split: option.splits)
  have "fst (spec_turn ck x v) = fst p @ fst (case a of None \<Rightarrow> ([], snd p) | Some a \<Rightarrow> spec_ask ck a (snd p))"
    "snd (spec_turn ck x v) = snd (case a of None \<Rightarrow> ([], snd p) | Some a \<Rightarrow> spec_ask ck a (snd p))"
    by (simp_all add: Turn Let_def case_prod_beta flip: p_def)
  then have run: "fst (spec_turn ck x v) = fst p @ fst q" "snd (spec_turn ck x v) = snd q"
    if "q = (case a of None \<Rightarrow> ([], snd p) | Some a \<Rightarrow> spec_ask ck a (snd p))" for q
    using that by simp_all
  show ?thesis
  proof (cases a)
    case None
    then show ?thesis using run [OF refl] one(1) Turn by simp
  next
    case (Some a')
    then show ?thesis using run [OF refl] one(1) ask_account [OF one(2), of ck a'] ok Turn by simp
  qed
qed (use quiet_account [OF assms(1)] in simp_all)

section \<open>Property\<close>

lemma pending_bound: "relay_inv st \<Longrightarrow> dom (vw_pending (view_of st)) \<subseteq> {..<nat IDAadpter_SIZE}"
  by (auto simp: relay_inv_def relay_ok_def adapter_ok_def adapter_entries_def split: if_splits)

text \<open>C3. No query is lost and none is answered twice: over every run within the limits of the abstract relay, the
  number of packets sent to clients and of queries pending at the end equals the number of queries
  received and of queries pending at the start.\<close>

theorem queries_accounted:
  assumes "relay_inv st" and "turns_ok turns (view_of st)"
  shows "\<exists>outs st'. run_loop b (map (\<lambda>(ck, x). (ck, turn_input x)) turns) st = Some (Inr (outs, st'))
    \<and> length (filter (\<lambda>p. fst p = Server_sockfd) outs) + card (dom (adapter_entries (rl_adapter st')))
      = sum_list (map (\<lambda>(ck, x). queries_in x) turns) + card (dom (adapter_entries (rl_adapter st)))"
proof -
  have "\<exists>outs st'. run_loop b (map (\<lambda>(ck, x). (ck, turn_input x)) turns) st = Some (Inr (outs, st'))
    \<and> to_clients outs + open_queries (view_of st') = sum_list (map (\<lambda>(ck, x). queries_in x) turns) + open_queries (view_of st)"
    using assms
  proof (induction turns arbitrary: st)
    case (Cons y turns)
    obtain ck x where y: "y = (ck, x)" by (cases y)
    obtain st1 where one: "loop_body b ck (turn_input x) st = Some (Inr (fst (spec_turn ck x (view_of st)), st1))"
      "relay_inv st1" "view_of st1 = snd (spec_turn ck x (view_of st))"
      using turn_refines [OF Cons.prems(1), of ck x b] Cons.prems(2) y by auto
    obtain outs st' where "run_loop b (map (\<lambda>(ck, x). (ck, turn_input x)) turns) st1 = Some (Inr (outs, st'))"
      "to_clients outs + open_queries (view_of st') = sum_list (map (\<lambda>(ck, x). queries_in x) turns) + open_queries (view_of st1)"
      using Cons.IH [OF one(2)] Cons.prems(2) y one(3) by auto
    moreover have "to_clients (fst (spec_turn ck x (view_of st))) + open_queries (view_of st1) = queries_in x + open_queries (view_of st)"
      using turn_account [OF pending_bound [OF Cons.prems(1)], of ck x] Cons.prems(2) y one(3) by simp
    ultimately show ?case using one(1) by (simp add: y)
  qed simp
  moreover have "open_queries (view_of s) = card (dom (adapter_entries (rl_adapter s)))" for s
    unfolding open_queries_def by (rule arg_cong [of _ _ card]) auto
  ultimately show ?thesis by (simp add: to_clients_def)
qed


theorem queries_accounted_witness:
  "\<exists>st outs st'. relay_inv st \<and> run_loop True (map (\<lambda>(ck, x). (ck, turn_input x)) sample_turns) st = Some (Inr (outs, st'))
    \<and> length (filter (\<lambda>p. fst p = Server_sockfd) outs) + card (dom (adapter_entries (rl_adapter st'))) = 2"
proof -
  obtain st where st: "relay_inv st" "rl_adapter st = init_adapter" "turns_ok sample_turns (view_of st)"
    by (rule sample_turns_run) blast
  have "sum_list (map (\<lambda>(ck, x). queries_in x) sample_turns) = 2" by (simp add: sample_turns_def)
  then show ?thesis using queries_accounted [OF st(1,3), of True] st(1,2) by auto
qed

end
