(* ===== verification/Log.thy ===== *)
theory Log
  imports Printf
begin

text \<open>
  The logging of the program (\<open>src/src/log.c\<close>, \<open>src/include/log.h\<close>): messages filtered by level
  to the console and to a log file. Streams are numbered, \<open>stderr\<close> is stream 2; an open stream
  holds the text written to it. An argument list is not started, holds the arguments of the
  call, or has been ended by \<open>va_end\<close>; reading it is defined only while it is started.
\<close>

section \<open>Data\<close>

datatype va_list = Va_unset | Va_started "va list" | Va_ended

record tm =
  tm_year :: nat
  tm_mon :: nat
  tm_mday :: nat
  tm_hour :: nat
  tm_min :: nat
  tm_sec :: nat

record log_Event =
  ev_ap :: va_list
  ev_fmt :: cstring
  ev_file :: cstring
  ev_time :: "tm option"
  ev_udata :: "nat option"
  ev_line :: int
  ev_level :: int

definition LOG_TRACE :: int where "LOG_TRACE = 0"
definition LOG_DEBUG :: int where "LOG_DEBUG = 1"
definition LOG_INFO :: int where "LOG_INFO = 2"
definition LOG_WARN :: int where "LOG_WARN = 3"
definition LOG_ERROR :: int where "LOG_ERROR = 4"
definition LOG_FATAL :: int where "LOG_FATAL = 5"

definition LOG_LEVEL_STRING :: "cstring list" where
  "LOG_LEVEL_STRING = map str [''TRACE'', ''DEBUG'', ''INFO'', ''WARN'', ''ERROR'', ''FATAL'']"

definition ESC :: byte where "ESC = 27"

definition LOG_LEVEL_COLOR :: "cstring list" where
  "LOG_LEVEL_COLOR = map (\<lambda>s. ESC # str s) [''[94m'', ''[36m'', ''[32m'', ''[33m'', ''[31m'', ''[35m'']"

record logging =
  lg_udata :: "nat option"
  lg_lock :: bool        \<comment> \<open>the mutex is held\<close>
  lg_has_lock :: bool
  lg_level :: int
  lg_quiet :: bool

record log_state =
  lo_LOGGING :: logging
  lo_FILE_LOGGING :: logging
  lo_has_init_file :: int
  lo_streams :: "nat \<rightharpoonup> cstring"

definition STDERR :: nat where "STDERR = 2"

section \<open>Locks\<close>

text \<open>The mutex is not recursive: a thread that takes it twice blocks itself.\<close>

definition lock_logging :: "logging \<Rightarrow> logging result" where
  "lock_logging lg =
     (if lg_has_lock lg then if lg_lock lg then Inl SelfDeadlock else Inr (lg\<lparr>lg_lock := True\<rparr>)
      else Inr lg)"

definition unlock_logging :: "logging \<Rightarrow> logging result" where
  "unlock_logging lg =
     (if lg_has_lock lg then if lg_lock lg then Inr (lg\<lparr>lg_lock := False\<rparr>) else Inl BadUnlock
      else Inr lg)"

definition lock :: "log_state \<Rightarrow> log_state result" where
  "lock st = bindE (lock_logging (lo_LOGGING st)) (\<lambda>lg. Inr (st\<lparr>lo_LOGGING := lg\<rparr>))"

definition unlock :: "log_state \<Rightarrow> log_state result" where
  "unlock st = bindE (unlock_logging (lo_LOGGING st)) (\<lambda>lg. Inr (st\<lparr>lo_LOGGING := lg\<rparr>))"

definition lock_file :: "log_state \<Rightarrow> log_state result" where
  "lock_file st = bindE (lock_logging (lo_FILE_LOGGING st)) (\<lambda>lg. Inr (st\<lparr>lo_FILE_LOGGING := lg\<rparr>))"

definition unlock_file :: "log_state \<Rightarrow> log_state result" where
  "unlock_file st = bindE (unlock_logging (lo_FILE_LOGGING st)) (\<lambda>lg. Inr (st\<lparr>lo_FILE_LOGGING := lg\<rparr>))"

section \<open>Writing a message\<close>

definition fputs :: "nat option \<Rightarrow> cstring \<Rightarrow> log_state \<Rightarrow> log_state result" where
  "fputs stream text st =
     (case stream of
        None \<Rightarrow> Inl NullDeref
      | Some h \<Rightarrow>
          (case lo_streams st h of
             None \<Rightarrow> Inl UseAfterFree
           | Some t \<Rightarrow> Inr (st\<lparr>lo_streams := (lo_streams st)(h \<mapsto> t @ text)\<rparr>)))"

definition fprintf :: "nat option \<Rightarrow> cstring \<Rightarrow> va list \<Rightarrow> log_state \<Rightarrow> log_state result" where
  "fprintf stream fmt args st = bindE (vformat fmt args) (\<lambda>t. fputs stream t st)"

definition vfprintf :: "nat option \<Rightarrow> cstring \<Rightarrow> va_list \<Rightarrow> log_state \<Rightarrow> log_state result" where
  "vfprintf stream fmt ap st =
     (case ap of Va_started args \<Rightarrow> fprintf stream fmt args st | _ \<Rightarrow> Inl BadArgument)"

text \<open>\<open>strftime\<close> with the formats \<open>%H:%M:%S\<close> and \<open>%Y-%m-%d %H:%M:%S\<close>.\<close>

definition two :: "nat \<Rightarrow> cstring" where
  "two n = [digit (n div 10 mod 10), digit (n mod 10)]"

definition strftime_time :: "tm option \<Rightarrow> cstring result" where
  "strftime_time time =
     (case time of
        None \<Rightarrow> Inl NullDeref
      | Some t \<Rightarrow> Inr (two (tm_hour t) @ str '':'' @ two (tm_min t) @ str '':'' @ two (tm_sec t)))"

definition strftime_date :: "tm option \<Rightarrow> cstring result" where
  "strftime_date time =
     (case time of
        None \<Rightarrow> Inl NullDeref
      | Some t \<Rightarrow> bindE (strftime_time time) (\<lambda>s.
          Inr (number 10 (tm_year t) @ str ''-'' @ two (tm_mon t) @ str ''-'' @ two (tm_mday t) @ str '' '' @ s)))"

definition init_event :: "tm \<Rightarrow> log_Event \<Rightarrow> nat option \<Rightarrow> log_Event" where
  "init_event now ev udata =
     ev\<lparr>ev_time := (case ev_time ev of None \<Rightarrow> Some now | Some t \<Rightarrow> Some t), ev_udata := udata\<rparr>"

definition stdout_callback :: "log_Event \<Rightarrow> log_state \<Rightarrow> log_state result" where
  "stdout_callback ev st =
     bindE (strftime_time (ev_time ev)) (\<lambda>buf.
     bindE (arr_get LOG_LEVEL_COLOR (ev_level ev)) (\<lambda>color.
     bindE (arr_get LOG_LEVEL_STRING (ev_level ev)) (\<lambda>name.
     bindE (fprintf (ev_udata ev) (str ''%s '' @ ESC # str ''[1m%s%-5s %s:%d:'' @ ESC # str ''[0m '')
              [VStr buf, VStr color, VStr name, VStr (ev_file ev), VInt (ev_line ev)] st) (\<lambda>st.
     bindE (vfprintf (ev_udata ev) (ev_fmt ev) (ev_ap ev) st) (\<lambda>st.
     fprintf (ev_udata ev) [10] [] st)))))"

definition file_callback :: "log_Event \<Rightarrow> log_state \<Rightarrow> log_state result" where
  "file_callback ev st =
     bindE (strftime_date (ev_time ev)) (\<lambda>buf.
     bindE (arr_get LOG_LEVEL_STRING (ev_level ev)) (\<lambda>name.
     bindE (fprintf (ev_udata ev) (str ''%s %-5s %s:%d: '')
              [VStr buf, VStr name, VStr (ev_file ev), VInt (ev_line ev)] st) (\<lambda>st.
     bindE (vfprintf (ev_udata ev) (ev_fmt ev) (ev_ap ev) st) (\<lambda>st.
     fprintf (ev_udata ev) [10] [] st))))"

definition shows_level :: "logging \<Rightarrow> int \<Rightarrow> bool" where
  "shows_level lg level \<longleftrightarrow> \<not> lg_quiet lg \<and> lg_level lg \<le> level"

text \<open>\<open>now\<close> is the local time; \<open>args\<close> are the variable arguments of the call.\<close>

definition log_log :: "tm \<Rightarrow> int \<Rightarrow> cstring \<Rightarrow> int \<Rightarrow> cstring \<Rightarrow> va list \<Rightarrow> log_state \<Rightarrow> log_state result" where
  "log_log now level file line fmt args st =
     (let ev = \<lparr>ev_ap = Va_unset, ev_fmt = fmt, ev_file = file, ev_time = None, ev_udata = None,
                ev_line = line, ev_level = level\<rparr> in
      bindE (lock st) (\<lambda>st.
      bindE (if shows_level (lo_LOGGING st) level then
               let ev = (init_event now ev (Some STDERR))\<lparr>ev_ap := Va_started args\<rparr> in
               bindE (stdout_callback ev st) (\<lambda>st. Inr (ev\<lparr>ev_ap := Va_ended\<rparr>, st))
             else Inr (ev, st)) (\<lambda>(ev, st).
      bindE (unlock st) (\<lambda>st.
      if lo_has_init_file st = 1 then
        bindE (lock_file st) (\<lambda>st.
        bindE (if shows_level (lo_FILE_LOGGING st) level
               then file_callback (ev\<lparr>ev_udata := lg_udata (lo_FILE_LOGGING st)\<rparr>) st
               else Inr st) (\<lambda>st.
        unlock_file st))
      else Inr st))))"

section \<open>Configuration\<close>

definition init_lock :: "logging \<Rightarrow> logging" where
  "init_lock lg = lg\<lparr>lg_lock := False, lg_has_lock := True\<rparr>"

definition set_level :: "logging \<Rightarrow> int \<Rightarrow> logging" where
  "set_level lg level = lg\<lparr>lg_level := level\<rparr>"

definition set_quiet :: "logging \<Rightarrow> bool \<Rightarrow> logging" where
  "set_quiet lg enable = lg\<lparr>lg_quiet := enable\<rparr>"

definition log_init_lock :: "log_state \<Rightarrow> log_state" where
  "log_init_lock st = st\<lparr>lo_LOGGING := init_lock (lo_LOGGING st)\<rparr>"

definition log_set_level :: "int \<Rightarrow> log_state \<Rightarrow> log_state" where
  "log_set_level level st = st\<lparr>lo_LOGGING := set_level (lo_LOGGING st) level\<rparr>"

definition log_set_quiet :: "bool \<Rightarrow> log_state \<Rightarrow> log_state" where
  "log_set_quiet enable st = st\<lparr>lo_LOGGING := set_quiet (lo_LOGGING st) enable\<rparr>"

definition flog_init_lock :: "log_state \<Rightarrow> log_state" where
  "flog_init_lock st = st\<lparr>lo_FILE_LOGGING := init_lock (lo_FILE_LOGGING st)\<rparr>"

definition flog_set_level :: "int \<Rightarrow> log_state \<Rightarrow> log_state" where
  "flog_set_level level st = st\<lparr>lo_FILE_LOGGING := set_level (lo_FILE_LOGGING st) level\<rparr>"

definition flog_set_quiet :: "bool \<Rightarrow> log_state \<Rightarrow> log_state" where
  "flog_set_quiet enable st = st\<lparr>lo_FILE_LOGGING := set_quiet (lo_FILE_LOGGING st) enable\<rparr>"

text \<open>\<open>fopen\<close> is the stream the system opens for a name, \<open>strerror\<close> its message when it fails.
  The name the caller passes is not used.\<close>

definition filelog_init ::
  "(cstring \<Rightarrow> nat option) \<Rightarrow> cstring \<Rightarrow> tm \<Rightarrow> cstring \<Rightarrow> cstring \<Rightarrow> log_state \<Rightarrow> (bool \<times> log_state) result" where
  "filelog_init fopen strerror now source filename st =
     (case fopen (str ''log.log'') of
        None \<Rightarrow>
          bindE (log_log now LOG_ERROR source 132 (str ''%s:%s'')
                   [VStr (str ''log file open error:''), VStr strerror] st) (\<lambda>st.
          Inr (False, st))
      | Some h \<Rightarrow>
          Inr (True, st\<lparr>lo_streams := (lo_streams st)(h \<mapsto> []),
                        lo_FILE_LOGGING := (lo_FILE_LOGGING st)\<lparr>lg_udata := Some h\<rparr>,
                        lo_has_init_file := 1\<rparr>))"

definition filelog_close :: "log_state \<Rightarrow> log_state result" where
  "filelog_close st =
     (case lg_udata (lo_FILE_LOGGING st) of
        None \<Rightarrow> Inr st
      | Some h \<Rightarrow> if lo_streams st h = None then Inl UseAfterFree
                  else Inr (st\<lparr>lo_streams := (lo_streams st)(h := None)\<rparr>))"

text \<open>The two structures are static, so they start as zeros.\<close>

definition zero_logging :: logging where
  "zero_logging = \<lparr>lg_udata = None, lg_lock = False, lg_has_lock = False, lg_level = 0, lg_quiet = False\<rparr>"

definition log_start :: log_state where
  "log_start = \<lparr>lo_LOGGING = zero_logging, lo_FILE_LOGGING = zero_logging, lo_has_init_file = 0,
     lo_streams = [STDERR \<mapsto> []]\<rparr>"

section \<open>Lemmas\<close>

record log_call =
  lc_now :: tm
  lc_level :: int
  lc_file :: cstring
  lc_line :: int
  lc_fmt :: cstring
  lc_args :: "va list"

definition call_log :: "log_call \<Rightarrow> log_state \<Rightarrow> log_state result" where
  "call_log c = log_log (lc_now c) (lc_level c) (lc_file c) (lc_line c) (lc_fmt c) (lc_args c)"

fun call_logs :: "log_call list \<Rightarrow> log_state \<Rightarrow> log_state result" where
  "call_logs [] st = Inr st"
| "call_logs (c # cs) st = bindE (call_log c st) (call_logs cs)"

text \<open>A call is in order when its level exists and its arguments fit its format.\<close>

definition call_ok :: "log_call \<Rightarrow> bool" where
  "call_ok c \<longleftrightarrow> LOG_TRACE \<le> lc_level c \<and> lc_level c \<le> LOG_FATAL \<and> (\<exists>t. vformat (lc_fmt c) (lc_args c) = Inr t)"

definition level_name :: "int \<Rightarrow> cstring" where
  "level_name level = LOG_LEVEL_STRING ! nat level"

definition message :: "log_call \<Rightarrow> cstring" where
  "message c = (case vformat (lc_fmt c) (lc_args c) of Inr t \<Rightarrow> t | Inl e \<Rightarrow> [])"

text \<open>The line the console shows for a call.\<close>

definition console_line :: "log_call \<Rightarrow> cstring" where
  "console_line c = two (tm_hour (lc_now c)) @ str '':'' @ two (tm_min (lc_now c)) @ str '':'' @ two (tm_sec (lc_now c))
     @ str '' '' @ ESC # str ''[1m'' @ LOG_LEVEL_COLOR ! nat (lc_level c)
     @ level_name (lc_level c) @ replicate (5 - length (level_name (lc_level c))) 32
     @ str '' '' @ lc_file c @ str '':'' @ dec (lc_line c) @ str '':'' @ ESC # str ''[0m '' @ message c @ [10]"

definition log_ready :: "log_state \<Rightarrow> bool" where
  "log_ready st \<longleftrightarrow> \<not> lg_lock (lo_LOGGING st) \<and> \<not> lg_lock (lo_FILE_LOGGING st) \<and> STDERR \<in> dom (lo_streams st)"

lemma head_format:
  "vformat (str ''%s '' @ ESC # str ''[1m%s%-5s %s:%d:'' @ ESC # str ''[0m '') [VStr a, VStr b, VStr c, VStr d, VInt i]
     = Inr (a @ str '' '' @ ESC # str ''[1m'' @ b @ c @ replicate (5 - length c) 32 @ str '' '' @ d @ str '':'' @ dec i
            @ str '':'' @ ESC # str ''[0m '')"
  by (simp add: str_def ESC_def is_flag_def is_digit_def pad_def)

lemma file_head_format:
  "vformat (str ''%s %-5s %s:%d: '') [VStr a, VStr b, VStr c, VInt i]
     = Inr (a @ str '' '' @ b @ replicate (5 - length b) 32 @ str '' '' @ c @ str '':'' @ dec i @ str '': '')"
  by (simp add: str_def is_flag_def is_digit_def pad_def)

lemma lock_ready: "\<not> lg_lock lg \<Longrightarrow> \<exists>lg'. lock_logging lg = Inr lg' \<and> unlock_logging lg' = Inr lg
    \<and> lg_level lg' = lg_level lg \<and> lg_quiet lg' = lg_quiet lg \<and> lg_udata lg' = lg_udata lg"
  by (auto simp: lock_logging_def unlock_logging_def)

lemma console_text:
  assumes "call_ok c" and "lo_streams st STDERR = Some t"
  shows "stdout_callback \<lparr>ev_ap = Va_started (lc_args c), ev_fmt = lc_fmt c, ev_file = lc_file c, ev_time = Some (lc_now c),
      ev_udata = Some STDERR, ev_line = lc_line c, ev_level = lc_level c\<rparr> st
    = Inr (st\<lparr>lo_streams := (lo_streams st)(STDERR \<mapsto> t @ console_line c)\<rparr>)"
proof -
  have l: "0 \<le> lc_level c" "lc_level c < int (length LOG_LEVEL_COLOR)" "lc_level c < int (length LOG_LEVEL_STRING)"
    using assms(1) by (auto simp: call_ok_def LOG_TRACE_def LOG_FATAL_def LOG_LEVEL_COLOR_def LOG_LEVEL_STRING_def)
  obtain m where m: "vformat (lc_fmt c) (lc_args c) = Inr m" using assms(1) by (auto simp: call_ok_def)
  have nl: "vformat [10] [] = Inr [10]" by simp
  show ?thesis using l assms(2)
    by (simp add: stdout_callback_def strftime_time_def fprintf_def vfprintf_def head_format fputs_def m nl
        console_line_def message_def level_name_def)
qed

text \<open>The effect of one call on the console; the locks are free again afterwards.\<close>

lemma log_console:
  assumes "call_ok c" and "log_ready st" and "lo_has_init_file st \<noteq> 1" and "lo_streams st STDERR = Some t"
  shows "call_log c st = Inr (if shows_level (lo_LOGGING st) (lc_level c)
    then st\<lparr>lo_streams := (lo_streams st)(STDERR \<mapsto> t @ console_line c)\<rparr> else st)"
proof -
  obtain lg where lg: "lock_logging (lo_LOGGING st) = Inr lg" "unlock_logging lg = Inr (lo_LOGGING st)"
    "lg_level lg = lg_level (lo_LOGGING st)" "lg_quiet lg = lg_quiet (lo_LOGGING st)"
    using lock_ready assms(2) by (auto simp: log_ready_def)
  have s: "lo_streams (st\<lparr>lo_LOGGING := lg\<rparr>) STDERR = Some t" using assms(4) by simp
  show ?thesis
    using lg assms(3) console_text [OF assms(1) s]
    by (auto simp: call_log_def log_log_def lock_def unlock_def shows_level_def init_event_def)
qed

section \<open>Properties\<close>


definition sample_tm :: tm where
  "sample_tm = \<lparr>tm_year = 2021, tm_mon = 6, tm_mday = 9, tm_hour = 8, tm_min = 30, tm_sec = 5\<rparr>"

definition sample_call :: "int \<Rightarrow> log_call" where
  "sample_call level = \<lparr>lc_now = sample_tm, lc_level = level, lc_file = str ''main.c'', lc_line = 193,
     lc_fmt = str ''size=%d'', lc_args = [VInt 12]\<rparr>"

lemma sample_call_ok: "level \<in> {1, 2} \<Longrightarrow> call_ok (sample_call level)"
  by (auto simp: call_ok_def sample_call_def LOG_TRACE_def LOG_FATAL_def str_def is_flag_def is_digit_def)


text \<open>C37. The log file never receives a message: once \<open>filelog_init\<close> has opened it, whatever name was
  asked for, a call whose level passes its filter dereferences the null time when the console
  filter dropped the message, and otherwise formats it from an argument list \<open>va_end\<close> has
  already ended.\<close>

theorem file_log_unusable:
  assumes "filelog_init fopen err now src name st0 = Inr (True, st)" and "log_ready st" and "lg_udata (lo_FILE_LOGGING st) \<noteq> Some STDERR"
    and "call_ok c" and "shows_level (lo_FILE_LOGGING st) (lc_level c)"
  shows "call_log c st = Inl (if shows_level (lo_LOGGING st) (lc_level c) then BadArgument else NullDeref)"
proof -
  obtain h where h: "lo_has_init_file st = 1" "lg_udata (lo_FILE_LOGGING st) = Some h" "lo_streams st h = Some []" "h \<noteq> STDERR"
    using assms(1,3) by (auto simp: filelog_init_def bindE_Inr_iff split: option.splits)
  obtain lg where lg: "lock_logging (lo_LOGGING st) = Inr lg" "unlock_logging lg = Inr (lo_LOGGING st)"
    "lg_level lg = lg_level (lo_LOGGING st)" "lg_quiet lg = lg_quiet (lo_LOGGING st)"
    using lock_ready assms(2) by (auto simp: log_ready_def)
  obtain lf where lf: "lock_logging (lo_FILE_LOGGING st) = Inr lf"
    "lg_level lf = lg_level (lo_FILE_LOGGING st)" "lg_quiet lf = lg_quiet (lo_FILE_LOGGING st)" "lg_udata lf = Some h"
    using lock_ready assms(2) h(2) by (fastforce simp: log_ready_def)
  obtain t where t: "lo_streams (st\<lparr>lo_LOGGING := lg\<rparr>) STDERR = Some t" using assms(2) by (auto simp: log_ready_def)
  have sl: "shows_level lg n = shows_level (lo_LOGGING st) n" "shows_level lf n = shows_level (lo_FILE_LOGGING st) n" for n
    using lg(3,4) lf(2,3) by (simp_all add: shows_level_def)
  have lev: "0 \<le> lc_level c" "lc_level c < int (length LOG_LEVEL_STRING)"
    using assms(4) by (auto simp: call_ok_def LOG_TRACE_def LOG_FATAL_def LOG_LEVEL_STRING_def)
  show ?thesis
  proof (cases "shows_level (lo_LOGGING st) (lc_level c)")
    case True
    then have call: "call_log c st = bindE (file_callback \<lparr>ev_ap = Va_ended, ev_fmt = lc_fmt c, ev_file = lc_file c,
        ev_time = Some (lc_now c), ev_udata = Some h, ev_line = lc_line c, ev_level = lc_level c\<rparr>
        (st\<lparr>lo_streams := (lo_streams st)(STDERR \<mapsto> t @ console_line c), lo_FILE_LOGGING := lf\<rparr>)) unlock_file"
      using lg(1,2) lf(1,4) h(1) assms(5) console_text [OF assms(4) t]
      by (simp add: call_log_def log_log_def Let_def lock_def unlock_def lock_file_def sl init_event_def)
    show ?thesis
      using lev h(3,4) True unfolding call
      by (simp add: file_callback_def strftime_date_def strftime_time_def fprintf_def vfprintf_def fputs_def file_head_format)
  next
    case False
    then show ?thesis
      using lg(1,2) lf(1) h(1) assms(5)
      by (simp add: call_log_def log_log_def Let_def lock_def unlock_def lock_file_def sl file_callback_def strftime_date_def)
  qed
qed

lemma file_log_unusable_witness:
  "\<exists>st. filelog_init (\<lambda>_. Some 3) [] sample_tm [] (str ''a.log'') log_start = Inr (True, st)
    \<and> call_log (sample_call 2) st = Inl BadArgument"
proof -
  obtain st where st: "filelog_init (\<lambda>_. Some 3) [] sample_tm [] (str ''a.log'') log_start = Inr (True, st)"
    "st = log_start\<lparr>lo_streams := [STDERR \<mapsto> [], 3 \<mapsto> []], lo_FILE_LOGGING := zero_logging\<lparr>lg_udata := Some 3\<rparr>, lo_has_init_file := 1\<rparr>"
    by (auto simp: filelog_init_def log_start_def)
  have "log_ready st" "lg_udata (lo_FILE_LOGGING st) \<noteq> Some STDERR"
    "shows_level (lo_FILE_LOGGING st) (lc_level (sample_call 2))" "shows_level (lo_LOGGING st) (lc_level (sample_call 2))"
    by (simp_all add: st(2) log_ready_def log_start_def zero_logging_def STDERR_def shows_level_def sample_call_def)
  then show ?thesis using file_log_unusable [OF st(1), of "sample_call 2"] st(1) sample_call_ok [of 2] by auto
qed

end
