(* ===== verification/Network.thy ===== *)
theory Network
  imports Log RelayProperties
begin

text \<open>
  The network side of \<open>src/src/main.c\<close>: opening and binding the two sockets at start-up
  (\<open>init\<close>, \<open>bind_addr\<close>), waiting for them with \<open>select\<close> (\<open>main\<close>), and the handler of the interrupt
  signal. The answers of the system calls are arguments. A line of the source that logs has the
  local time of the call and its line number; the line of a call is that of its name.
\<close>

section \<open>Model\<close>

subsection \<open>The logging macros\<close>

definition log_info :: "(int \<Rightarrow> tm) \<Rightarrow> cstring \<Rightarrow> int \<Rightarrow> cstring \<Rightarrow> va list \<Rightarrow> log_state \<Rightarrow> log_state result" where
  "log_info now file line = log_log (now line) LOG_INFO file line"

definition log_error :: "(int \<Rightarrow> tm) \<Rightarrow> cstring \<Rightarrow> int \<Rightarrow> cstring \<Rightarrow> va list \<Rightarrow> log_state \<Rightarrow> log_state result" where
  "log_error now file line = log_log (now line) LOG_ERROR file line"

definition log_fatal :: "(int \<Rightarrow> tm) \<Rightarrow> cstring \<Rightarrow> int \<Rightarrow> cstring \<Rightarrow> va list \<Rightarrow> log_state \<Rightarrow> log_state result" where
  "log_fatal now file line = log_log (now line) LOG_FATAL file line"

definition log_fatal_shortcut ::
  "(int \<Rightarrow> tm) \<Rightarrow> cstring \<Rightarrow> int \<Rightarrow> cstring \<Rightarrow> cstring \<Rightarrow> log_state \<Rightarrow> log_state result" where
  "log_fatal_shortcut now file line strerror error =
     log_fatal now file line (str ''%s:%s'') [VStr error, VStr strerror]"

definition EXIT_FAILURE :: int where "EXIT_FAILURE = 1"

definition log_fatal_exit_shortcut ::
  "(int \<Rightarrow> tm) \<Rightarrow> cstring \<Rightarrow> int \<Rightarrow> cstring \<Rightarrow> cstring \<Rightarrow> log_state \<Rightarrow> 'a result" where
  "log_fatal_exit_shortcut now file line strerror error st =
     bindE (log_fatal_shortcut now file line strerror error st) (\<lambda>_. Inl (Exit EXIT_FAILURE))"

text \<open>The address and the port of a \<open>struct sockaddr_in\<close>.\<close>

definition log_ip :: "(int \<Rightarrow> tm) \<Rightarrow> cstring \<Rightarrow> cstring \<Rightarrow> byte list \<Rightarrow> log_state \<Rightarrow> log_state result" where
  "log_ip now file s addr st =
     bindE (read_bytes addr 4 4) (\<lambda>ipv4.
     bindE (get16 addr 2) (\<lambda>port.
     log_info now file 136 (str ''%s %d:%d:%d:%d:port:%d '')
       [VStr s, VInt (uint (ipv4 ! 0)), VInt (uint (ipv4 ! 1)), VInt (uint (ipv4 ! 2)), VInt (uint (ipv4 ! 3)),
        VInt (uint port)] st))"

subsection \<open>Opening the sockets\<close>

record syscalls =
  sy_server :: int                              \<comment> \<open>the first \<open>socket\<close>\<close>
  sy_query :: int                               \<comment> \<open>the second\<close>
  sy_setsockopt :: "int \<Rightarrow> int"
  sy_bind :: "int \<Rightarrow> byte list \<Rightarrow> int"
  sy_getsockname :: "int \<Rightarrow> byte list option"   \<comment> \<open>\<open>None\<close>: it fails\<close>
  sy_strerror :: cstring                        \<comment> \<open>the text for \<open>errno\<close>\<close>

definition DNS_SERVER_PORT :: u16 where "DNS_SERVER_PORT = 53"

definition server_addr :: "byte list" where
  "server_addr = [2, 0] @ net16 DNS_SERVER_PORT @ replicate 4 0 @ replicate 8 0"

definition perror :: "cstring \<Rightarrow> cstring \<Rightarrow> log_state \<Rightarrow> log_state result" where
  "perror strerror s st = fputs (Some STDERR) (s @ str '': '' @ strerror @ [10]) st"

definition bind_addr :: "syscalls \<Rightarrow> (int \<Rightarrow> tm) \<Rightarrow> cstring \<Rightarrow> int \<Rightarrow> log_state \<Rightarrow> log_state result" where
  "bind_addr sy now file server_sockfd st =
     bindE (if sy_bind sy server_sockfd server_addr < 0
            then log_fatal_exit_shortcut now file 413 (sy_strerror sy) (str ''bind error'') st
            else Inr st) (\<lambda>st.
     case sy_getsockname sy server_sockfd of
       None \<Rightarrow> perror (sy_strerror sy) (str ''getsockname'') st
     | Some servaddr \<Rightarrow> log_ip now file (str ''listen on '') servaddr st)"

text \<open>The second half of \<open>init\<close>. The last argument of the message about the timeout is a \<open>long\<close>, of which
  \<open>%d\<close> shows the low half.\<close>

definition init_sockets ::
  "syscalls \<Rightarrow> (int \<Rightarrow> tm) \<Rightarrow> cstring \<Rightarrow> log_state \<Rightarrow> (int \<times> int \<times> log_state) result" where
  "init_sockets sy now file st =
     bindE (if sy_server sy < 0
            then log_fatal_exit_shortcut now file 530 (sy_strerror sy) (str ''socket open error'') st
            else Inr st) (\<lambda>st.
     bindE (log_info now file 532 (str ''server accept IPV4 connection only'') [] st) (\<lambda>st.
     bindE (if sy_query sy < 0
            then log_fatal_exit_shortcut now file 536 (sy_strerror sy) (str ''socket open error'') st
            else Inr st) (\<lambda>st.
     bindE (if sy_setsockopt sy (sy_query sy) < 0
            then log_error now file 543 (str ''set timeout error'') [VStr (sy_strerror sy)] st
            else Inr st) (\<lambda>st.
     bindE (log_info now file 545 (str ''setting timeout = %d ms'') [VInt (1 * 1000 + 0)] st) (\<lambda>st.
     bindE (log_info now file 553 (str ''init all done'') [] st) (\<lambda>st.
     bindE (bind_addr sy now file (sy_server sy) st) (\<lambda>st.
     Inr (sy_server sy, sy_query sy, st))))))))"

subsection \<open>Waiting for datagrams\<close>

text \<open>A descriptor set, as a list without repetitions; only numbers below \<open>FD_SETSIZE\<close> may be in it.\<close>

definition FD_SETSIZE :: int where "FD_SETSIZE = 1024"

definition FD_SET :: "int \<Rightarrow> int list \<Rightarrow> int list result" where
  "FD_SET fd fds = (if 0 \<le> fd \<and> fd < FD_SETSIZE then Inr (List.insert fd fds) else Inl BadArgument)"

definition max_fd :: "int \<Rightarrow> int" where
  "max_fd query_sockfd = query_sockfd + 1"

text \<open>\<open>select\<close> fails, or keeps the descriptors below the limit on which a datagram waits; when it
  returns without one, the time is up. \<open>waiting fd\<close> is what the next \<open>recvfrom\<close> on \<open>fd\<close> yields.\<close>

type_synonym arrivals = "(int \<Rightarrow> recv option) option"

definition select :: "int \<Rightarrow> int list \<Rightarrow> (int \<Rightarrow> recv option) \<Rightarrow> int list" where
  "select n fds waiting = filter (\<lambda>fd. fd < n \<and> waiting fd \<noteq> None) fds"

definition wait_turn :: "int \<Rightarrow> int \<Rightarrow> arrivals \<Rightarrow> int list \<Rightarrow> (selected \<times> int list) result" where
  "wait_turn server_sockfd query_sockfd answer rset =
     bindE (FD_SET server_sockfd rset) (\<lambda>rset.
     bindE (FD_SET query_sockfd rset) (\<lambda>rset.
     case answer of
       None \<Rightarrow> Inr (SelectError, rset)
     | Some waiting \<Rightarrow>
         let rset = select (max_fd query_sockfd) rset waiting in
         Inr (if length rset = 0 then SelectTimeout
              else Selected (if query_sockfd \<in> set rset then waiting query_sockfd else None)
                (if server_sockfd \<in> set rset then waiting server_sockfd else None), rset)))"

text \<open>The loop of \<open>main\<close> over the arrivals, and the whole program up to a number of turns.\<close>

fun main_loop :: "bool \<Rightarrow> int \<Rightarrow> int \<Rightarrow> (clocks \<times> arrivals) list \<Rightarrow> int list \<Rightarrow> relay
    \<Rightarrow> (packet list \<times> relay) prog" where
  "main_loop edeadlk s q [] rset st = Some (Inr ([], st))"
| "main_loop edeadlk s q ((ck, answer) # xs) rset st =
     bindP (Some (wait_turn s q answer rset)) (\<lambda>(sel, rset).
     bindP (loop_body edeadlk ck sel st) (\<lambda>(out, st).
     bindP (main_loop edeadlk s q xs rset st) (\<lambda>(outs, st). Some (Inr (out @ outs, st)))))"

definition main :: "pton \<Rightarrow> pton \<Rightarrow> (cstring \<Rightarrow> byte list option) \<Rightarrow> garbage \<Rightarrow> syscalls \<Rightarrow> (int \<Rightarrow> tm) \<Rightarrow> cstring \<Rightarrow> log_state
    \<Rightarrow> bool \<Rightarrow> cstring list \<Rightarrow> (clocks \<times> arrivals) list \<Rightarrow> (packet list \<times> relay) prog" where
  "main pton4 pton6 files g sy now file lg edeadlk args arrivals =
     bindP (Some (init pton4 pton6 files g args)) (\<lambda>st.
     bindP (Some (init_sockets sy now file (log_set_level LOG_DEBUG lg))) (\<lambda>(server_sockfd, query_sockfd, _).
     main_loop edeadlk server_sockfd query_sockfd arrivals [] st))"

subsection \<open>The interrupt signal\<close>

definition on_SIGINT :: "(int \<Rightarrow> tm) \<Rightarrow> cstring \<Rightarrow> cacheset \<Rightarrow> log_state \<Rightarrow> unit result" where
  "on_SIGINT now file cs lg =
     bindE (log_info now file 558 (str ''catch SIGINT'') [] lg) (\<lambda>lg.
     bindE (clean_up cs) (\<lambda>_.
     bindE (log_info now file 560 (str ''bye.'') [] lg) (\<lambda>lg.
     let lg = log_set_quiet True lg in Inl (Exit 0))))"


section \<open>Lemmas\<close>

subsection \<open>Logging\<close>

text \<open>The console takes every message whose arguments fit.\<close>

definition console_ready :: "log_state \<Rightarrow> bool" where
  "console_ready lg \<longleftrightarrow> log_ready lg \<and> lo_has_init_file lg \<noteq> 1"

lemma log_log_ready:
  assumes "console_ready lg" and "0 \<le> level" and "level \<le> 5" and "vformat fmt args = Inr t"
  shows "\<exists>lg'. log_log now level file line fmt args lg = Inr lg' \<and> console_ready lg'"
proof -
  let ?c = "\<lparr>lc_now = now, lc_level = level, lc_file = file, lc_line = line, lc_fmt = fmt, lc_args = args\<rparr>"
  have "call_ok ?c" using assms(2-4) by (simp add: call_ok_def LOG_TRACE_def LOG_FATAL_def)
  moreover obtain u where "lo_streams lg STDERR = Some u"
    using assms(1) by (auto simp: console_ready_def log_ready_def)
  ultimately have "call_log ?c lg = Inr (if shows_level (lo_LOGGING lg) level
      then lg\<lparr>lo_streams := (lo_streams lg)(STDERR \<mapsto> u @ console_line ?c)\<rparr> else lg)"
    using log_console [of ?c lg u] assms(1) by (simp add: console_ready_def)
  then show ?thesis
    using assms(1) by (auto simp: call_log_def console_ready_def log_ready_def)
qed

lemma plain_format: "37 \<notin> set fmt \<Longrightarrow> vformat fmt args = Inr fmt"
  by (induction fmt) simp_all

lemma log_plain:
  assumes "console_ready lg" and "37 \<notin> set fmt"
  shows "\<exists>lg'. log_info now file line fmt args lg = Inr lg' \<and> console_ready lg'"
    and "\<exists>lg'. log_error now file line fmt args lg = Inr lg' \<and> console_ready lg'"
  unfolding log_info_def log_error_def
  by (rule log_log_ready [OF assms(1)]; simp add: plain_format assms(2) LOG_INFO_def LOG_ERROR_def)+

lemma log_fatal_exit: "console_ready lg \<Longrightarrow> log_fatal_exit_shortcut now file line err error lg = Inl (Exit EXIT_FAILURE)"
proof -
  assume ready: "console_ready lg"
  have "vformat (str ''%s:%s'') [VStr error, VStr err] = Inr (error @ str '':'' @ err)"
    by (simp add: str_def is_flag_def is_digit_def pad_def)
  then obtain lg' where "log_log (now line) LOG_FATAL file line (str ''%s:%s'') [VStr error, VStr err] lg = Inr lg'"
    using log_log_ready [OF ready, of LOG_FATAL] by (fastforce simp: LOG_FATAL_def)
  then show ?thesis by (simp add: log_fatal_exit_shortcut_def log_fatal_shortcut_def log_fatal_def)
qed

lemma log_ip_ready:
  assumes "console_ready lg" and "length addr = ADDR_LEN"
  shows "\<exists>lg'. log_ip now file s addr lg = Inr lg' \<and> console_ready lg'"
proof -
  have "\<exists>t. vformat (str ''%s %d:%d:%d:%d:port:%d '') [VStr s, VInt a, VInt b, VInt c, VInt d, VInt p] = Inr t" for a b c d p
    by (simp add: str_def is_flag_def is_digit_def pad_def)
  then show ?thesis
    using assms log_log_ready [OF assms(1), of LOG_INFO]
    by (fastforce simp: log_ip_def log_info_def LOG_INFO_def read_bytes_def get16_def ADDR_LEN_def)
qed

subsection \<open>Start-up\<close>

lemma bind_addr_outcome:
  assumes "console_ready lg" and "pred_option (\<lambda>a. length a = ADDR_LEN) (sy_getsockname sy s)"
  shows "if sy_bind sy s server_addr < 0 then bind_addr sy now file s lg = Inl (Exit EXIT_FAILURE)
    else \<exists>lg'. bind_addr sy now file s lg = Inr lg' \<and> console_ready lg'"
proof -
  have "\<exists>lg'. perror e t lg = Inr lg' \<and> console_ready lg'" for e t
    using assms(1) by (auto simp: perror_def fputs_def console_ready_def log_ready_def)
  then show ?thesis
    using log_ip_ready [OF assms(1)] assms(2)
    by (auto simp: bind_addr_def log_fatal_exit [OF assms(1)] split: option.splits)
qed


definition sockets_fail :: "syscalls \<Rightarrow> bool" where
  "sockets_fail sy \<longleftrightarrow> sy_server sy < 0 \<or> sy_query sy < 0 \<or> sy_bind sy (sy_server sy) server_addr < 0"

definition sockname_ok :: "syscalls \<Rightarrow> bool" where
  "sockname_ok sy \<longleftrightarrow> pred_option (\<lambda>a. length a = ADDR_LEN) (sy_getsockname sy (sy_server sy))"

lemma no_percent [simp]:
  "37 \<notin> set (str ''server accept IPV4 connection only'')" "37 \<notin> set (str ''set timeout error'')"
  "37 \<notin> set (str ''init all done'')"
  by (simp_all add: str_def)

lemma log_timeout_ready:
  "console_ready lg \<Longrightarrow> \<exists>lg'. log_info now file line (str ''setting timeout = %d ms'') [VInt n] lg = Inr lg' \<and> console_ready lg'"
  unfolding log_info_def
  by (rule log_log_ready [where t = "str ''setting timeout = '' @ dec n @ str '' ms''"])
    (simp_all add: LOG_INFO_def str_def is_flag_def is_digit_def pad_def)

lemma init_sockets_outcome:
  assumes "console_ready lg" and "sockname_ok sy"
  shows "if sockets_fail sy then init_sockets sy now file lg = Inl (Exit EXIT_FAILURE)
    else \<exists>lg'. init_sockets sy now file lg = Inr (sy_server sy, sy_query sy, lg') \<and> console_ready lg'"
proof (cases "sy_server sy < 0")
  case True
  then show ?thesis by (simp add: init_sockets_def sockets_fail_def log_fatal_exit [OF assms(1)])
next
  case server: False
  obtain lg1 where lg1: "log_info now file 532 (str ''server accept IPV4 connection only'') [] lg = Inr lg1" "console_ready lg1"
    using log_plain(1) [OF assms(1) no_percent(1)] by blast
  show ?thesis
  proof (cases "sy_query sy < 0")
    case True
    then show ?thesis using server lg1(1) by (simp add: init_sockets_def sockets_fail_def log_fatal_exit [OF lg1(2)])
  next
    case query: False
    obtain lg2 where lg2: "(if sy_setsockopt sy (sy_query sy) < 0
        then log_error now file 543 (str ''set timeout error'') [VStr (sy_strerror sy)] lg1 else Inr lg1) = Inr lg2"
      "console_ready lg2"
      using log_plain(2) [OF lg1(2) no_percent(2), of now "file" 543 "[VStr (sy_strerror sy)]"] lg1(2)
      by (cases "sy_setsockopt sy (sy_query sy) < 0") auto
    obtain lg3 where lg3: "log_info now file 545 (str ''setting timeout = %d ms'') [VInt (1 * 1000 + 0)] lg2 = Inr lg3" "console_ready lg3"
      using log_timeout_ready [OF lg2(2)] by blast
    obtain lg4 where lg4: "log_info now file 553 (str ''init all done'') [] lg3 = Inr lg4" "console_ready lg4"
      using log_plain(1) [OF lg3(2) no_percent(3)] by blast
    have "init_sockets sy now file lg = bindE (bind_addr sy now file (sy_server sy) lg4) (\<lambda>lg. Inr (sy_server sy, sy_query sy, lg))"
      unfolding init_sockets_def using server query by (simp only: lg1 lg2 lg3 lg4 bindE.simps if_False)
    then show ?thesis
      using bind_addr_outcome [OF lg4(2), of sy "sy_server sy" now "file"] assms(2) server query
      by (auto simp: sockets_fail_def sockname_ok_def split: if_splits)
  qed
qed

subsection \<open>Waiting\<close>

text \<open>POSIX: a new descriptor is the lowest number that is not in use.\<close>

definition lowest_free :: "int set \<Rightarrow> int \<Rightarrow> bool" where
  "lowest_free used fd \<longleftrightarrow> 0 \<le> fd \<and> fd \<notin> used \<and> (\<forall>k. 0 \<le> k \<and> k < fd \<longrightarrow> k \<in> used)"

lemma lowest_free_increasing: "lowest_free used s \<Longrightarrow> lowest_free (insert s used) q \<Longrightarrow> 0 \<le> s \<and> s < q"
  by (cases s q rule: linorder_cases) (auto simp: lowest_free_def)

text \<open>What the loop is told about the arrivals of a turn.\<close>

definition seen :: "int \<Rightarrow> int \<Rightarrow> arrivals \<Rightarrow> selected" where
  "seen s q answer = (case answer of None \<Rightarrow> SelectError
     | Some waiting \<Rightarrow> if waiting q = None \<and> waiting s = None then SelectTimeout else Selected (waiting q) (waiting s))"

lemma wait_turn_seen:
  assumes "0 \<le> s" and "s < q" and "q < FD_SETSIZE" and "set rset \<subseteq> {s, q}"
  shows "\<exists>rset'. wait_turn s q answer rset = Inr (seen s q answer, rset') \<and> set rset' \<subseteq> {s, q}"
proof (cases answer)
  case None
  then show ?thesis using assms by (auto simp: wait_turn_def FD_SET_def seen_def)
next
  case (Some waiting)
  let ?r = "List.insert q (List.insert s rset)" and ?ready = "select (max_fd q) (List.insert q (List.insert s rset)) waiting"
  have set: "set ?r = {s, q}" using assms(4) by auto
  then have ready: "set ?ready = {fd \<in> {s, q}. waiting fd \<noteq> None}"
    using assms(2) by (auto simp: select_def max_fd_def)
  have "wait_turn s q answer rset = Inr (if ?ready = [] then SelectTimeout
      else Selected (if q \<in> set ?ready then waiting q else None) (if s \<in> set ?ready then waiting s else None), ?ready)"
    using assms(1-3) Some by (simp add: wait_turn_def FD_SET_def Let_def)
  moreover have "?ready = [] \<longleftrightarrow> waiting q = None \<and> waiting s = None"
    using ready by (auto simp flip: set_empty)
  ultimately show ?thesis using ready Some by (auto simp: seen_def)
qed

lemma main_loop_sees:
  assumes "0 \<le> s" and "s < q" and "q < FD_SETSIZE" and "set rset \<subseteq> {s, q}"
  shows "main_loop b s q xs rset st = run_loop b (map (\<lambda>(ck, answer). (ck, seen s q answer)) xs) st"
  using assms(4)
proof (induction xs arbitrary: rset st)
  case (Cons x xs)
  obtain ck answer where x: "x = (ck, answer)" by (cases x)
  obtain rset' where r: "wait_turn s q answer rset = Inr (seen s q answer, rset')" "set rset' \<subseteq> {s, q}"
    using wait_turn_seen [OF assms(1-3) Cons.prems] by blast
  have "main_loop b s q xs rset' = run_loop b (map (\<lambda>(ck, answer). (ck, seen s q answer)) xs)"
    by (rule ext) (rule Cons.IH [OF r(2)])
  with r(1) show ?case by (simp add: x)
qed simp

lemma main_is_loop:
  assumes "console_ready lg" and "sockname_ok sy" and "\<not> sockets_fail sy"
    and "lowest_free used (sy_server sy)" and "lowest_free (insert (sy_server sy) used) (sy_query sy)"
    and "sy_query sy < FD_SETSIZE"
  shows "main pton4 pton6 files g sy now file lg b args xs =
    bindP (Some (init pton4 pton6 files g args))
      (run_loop b (map (\<lambda>(ck, answer). (ck, seen (sy_server sy) (sy_query sy) answer)) xs))"
proof -
  have fds: "0 \<le> sy_server sy" "sy_server sy < sy_query sy" using lowest_free_increasing [OF assms(4,5)] by simp_all
  have "console_ready (log_set_level LOG_DEBUG lg)"
    using assms(1) by (simp add: console_ready_def log_ready_def log_set_level_def set_level_def)
  then obtain lg' where "init_sockets sy now file (log_set_level LOG_DEBUG lg) = Inr (sy_server sy, sy_query sy, lg')"
    using init_sockets_outcome [OF _ assms(2), of "log_set_level LOG_DEBUG lg" now "file"] assms(3) by auto
  then show ?thesis
    unfolding main_def
    by (cases "init pton4 pton6 files g args") (simp_all add: main_loop_sees [OF fds assms(6)])
qed

section \<open>Properties\<close>

text \<open>C13. The program from its start: once both sockets are open and the first is bound, the loop is told in
  every turn of exactly the datagrams that wait on the two sockets, of a timeout when there are none
  and of a failure of \<open>select\<close>, so that the program is the relay loop run on these inputs from the state
  \<open>init\<close> leaves. It rests on the system handing out the lowest free descriptor, which makes the
  second socket the largest one, and on the two numbers fitting a descriptor set.\<close>

theorem main_runs_relay:
  assumes "console_ready lg" and "sockname_ok sy" and "\<not> sockets_fail sy"
    and "lowest_free used (sy_server sy)" and "lowest_free (insert (sy_server sy) used) (sy_query sy)"
    and "sy_query sy < FD_SETSIZE"
  shows "main pton4 pton6 files g sy now file lg b args xs =
    bindP (Some (init pton4 pton6 files g args))
      (run_loop b (map (\<lambda>(ck, answer). (ck, seen (sy_server sy) (sy_query sy) answer)) xs))"
  by (rule main_is_loop [OF assms])

text \<open>Three standard streams, then the two sockets.\<close>

definition sample_syscalls :: "int \<Rightarrow> syscalls" where
  "sample_syscalls bound = \<lparr>sy_server = 3, sy_query = 4, sy_setsockopt = (\<lambda>_. 0), sy_bind = (\<lambda>_ _. bound),
     sy_getsockname = (\<lambda>_. Some server_addr), sy_strerror = []\<rparr>"

lemma sample_network:
  "console_ready log_start" "sockname_ok (sample_syscalls bound)" "sockets_fail (sample_syscalls bound) \<longleftrightarrow> bound < 0"
  "lowest_free {0, 1, 2} (sy_server (sample_syscalls bound))"
  "lowest_free (insert (sy_server (sample_syscalls bound)) {0, 1, 2}) (sy_query (sample_syscalls bound))"
  "sy_query (sample_syscalls bound) < FD_SETSIZE"
  by (auto simp: console_ready_def log_ready_def log_start_def zero_logging_def sockname_ok_def sample_syscalls_def server_addr_def
      sockets_fail_def lowest_free_def FD_SETSIZE_def ADDR_LEN_def net16_def)

theorem main_runs_relay_witness:
  "\<exists>up ck st'. main toy_pton4 toy_pton6 (\<lambda>_. None) sample_garbage (sample_syscalls 0) (\<lambda>_. sample_tm) (str ''main.c'') log_start
      True [str ''-f'', str ''x''] [(ck, Some (\<lambda>fd. if fd = 3 then Some (Recv (query 5 0 [[97]] 1 1 []) (replicate 16 1)) else None))]
    = Some (Inr ([(Query_sockfd, up, query 0 0 [[97]] 1 1 [])], st'))"
proof -
  obtain st where st: "relay_ok st" "rl_adapter st = init_adapter" "\<And>ls t. unknown ls t (rl_caches st)"
    "init toy_pton4 toy_pton6 (\<lambda>_. None) sample_garbage [str ''-f'', str ''x''] = Inr st"
    by (rule relay_example) blast
  let ?ck = "\<lparr>ck_scan = \<lambda>_. 0, ck_now = 0, ck_cache = 0, ck_get = 0, ck_reply = 0, ck_push = 0\<rparr>"
  let ?in = "[(?ck, Some (\<lambda>fd. if fd = 3 then Some (Recv (query 5 0 [[97]] 1 1 []) (replicate 16 1)) else None))]"
  obtain st' where "handle_request True 0 0 0 (Recv (query 5 0 [[97]] 1 1 []) (replicate 16 1)) st
      = Some (Inr ([(Query_sockfd, rl_query_server st, query 0 0 [[97]] 1 1 [])], st'))"
    using request_forwarded [OF st(1) sample_request_ok st(3), of True 0 0 0 5 0 1] st(2) by auto
  moreover have "main toy_pton4 toy_pton6 (\<lambda>_. None) sample_garbage (sample_syscalls 0) (\<lambda>_. sample_tm) (str ''main.c'') log_start
      True [str ''-f'', str ''x''] ?in = run_loop True (map (\<lambda>(ck, answer). (ck, seen 3 4 answer)) ?in) st"
    using main_runs_relay [OF sample_network(1,2) _ sample_network(4-6), of 0 toy_pton4 toy_pton6 "\<lambda>_. None" sample_garbage
        "\<lambda>_. sample_tm" "str ''main.c''" True "[str ''-f'', str ''x'']" ?in] sample_network(3) [of 0] st(4)
    by (simp add: sample_syscalls_def)
  ultimately have "main toy_pton4 toy_pton6 (\<lambda>_. None) sample_garbage (sample_syscalls 0) (\<lambda>_. sample_tm) (str ''main.c'') log_start
      True [str ''-f'', str ''x''] ?in = Some (Inr ([(Query_sockfd, rl_query_server st, query 0 0 [[97]] 1 1 [])], st'))"
    by (simp add: loop_body_def seen_def)
  then show ?thesis by blast
qed

text \<open>C38. A socket that cannot be opened, or an address that cannot be bound, ends the program with a
  failure status before any datagram is received, once the command line was accepted and the caches
  were set up.\<close>

theorem socket_failure_exits:
  assumes "console_ready lg" and "sockname_ok sy" and "sockets_fail sy" and "init pton4 pton6 files g args = Inr st"
  shows "main pton4 pton6 files g sy now file lg b args xs = Some (Inl (Exit EXIT_FAILURE))"
proof -
  have "console_ready (log_set_level LOG_DEBUG lg)"
    using assms(1) by (simp add: console_ready_def log_ready_def log_set_level_def set_level_def)
  then show ?thesis
    using init_sockets_outcome [OF _ assms(2), of "log_set_level LOG_DEBUG lg" now "file"] assms(3,4)
    by (simp add: main_def)
qed


theorem socket_failure_exits_witness:
  "main toy_pton4 toy_pton6 (\<lambda>_. None) sample_garbage (sample_syscalls (- 1)) (\<lambda>_. sample_tm) (str ''main.c'') log_start True
    [str ''-f'', str ''x''] [] = Some (Inl (Exit 1))"
proof -
  obtain st where "init toy_pton4 toy_pton6 (\<lambda>_. None) sample_garbage [str ''-f'', str ''x''] = Inr st"
    by (rule relay_example) blast
  moreover have "sockets_fail (sample_syscalls (- 1))" by (simp add: sample_network(3))
  ultimately show ?thesis
    using socket_failure_exits [OF sample_network(1,2)] by (fastforce simp: EXIT_FAILURE_def)
qed

end
