(* ===== verification/DnsTermination.thy ===== *)
theory DnsTermination
  imports DnsLabel
begin

text \<open>
  When the reader of names, \<open>fetch_label\<close> of \<open>src/src/common.c\<close>, returns. It has no limit on the
  pointers it follows; it always returns, if only with an access outside a buffer, exactly when the
  pointers of the message form no cycle.
\<close>

text \<open>The compression pointers of a message.\<close>

definition hops :: "byte list \<Rightarrow> (nat \<times> nat) set" where
  "hops msg = {(p, q). Suc p < length msg \<and> is_compress (msg ! p) \<and> q = unat (get_compress_pos (be16 (msg ! p) (msg ! Suc p)))}"

lemma finite_hops: "finite (hops msg)"
proof (rule finite_subset)
  show "hops msg \<subseteq> {..<length msg} \<times> (\<lambda>p. unat (get_compress_pos (be16 (msg ! p) (msg ! Suc p)))) ` {..<length msg}"
    by (auto simp: hops_def)
qed simp

lemma hop_taken:
  assumes "arr_get msg x = Inr b" and "is_compress b" and "get16 msg x = Inr w"
  shows "(nat x, unat (get_compress_pos w)) \<in> hops msg"
  using assms by (auto simp: hops_def get16_def bindE_Inr_iff nat_add_distrib dest!: arr_get_InrD)

lemma bindP_None_iff: "bindP m f = None \<longleftrightarrow> m = None \<or> (\<exists>x. m = Some (Inr x) \<and> f x = None)"
  by (cases m; cases "the m") auto

section \<open>Without a cycle\<close>

lemma copy_label_advances:
  "copy_label msg s n dest d i = Inr (dest', i') \<Longrightarrow> 0 \<le> d \<Longrightarrow> 0 \<le> i \<Longrightarrow> d + i \<le> int (length dest)
    \<Longrightarrow> length dest \<le> 32767 \<Longrightarrow> i' = i + int n \<and> length dest' = length dest \<and> d + i' \<le> int (length dest)"
proof (induction msg s n dest d i rule: copy_label.induct)
  case (2 msg s n dest d i)
  obtain b dest1 where b: "arr_get msg s = Inr b" "arr_set dest (d + i) b = Inr dest1"
    "copy_label msg (s + 1) n dest1 d (to_short (i + 1)) = Inr (dest', i')"
    using 2(2) by (auto simp: bindE_Inr_iff)
  then have "d + i < int (length dest)" "length dest1 = length dest" by (auto dest!: arr_set_InrD)
  moreover from this have "to_short (i + 1) = i + 1" using 2(3,4,6) by (intro to_short_id) auto
  ultimately show ?case using 2(1) [of dest1] b(3) 2(3-6) by auto
qed auto

lemma fetch_loop_returns:
  assumes "acyclic (hops msg)" and "0 \<le> d" and "0 \<le> i" and "d + i \<le> int (length dest)" and "length dest \<le> 32767"
  shows "fetch_loop msg dest d src now i \<noteq> None"
proof -
  have wf: "wf (less_than <*lex*> (hops msg)\<inverse>)"
    using finite_acyclic_wf_converse [OF finite_hops assms(1)] by (intro wf_lex_prod) auto
  show ?thesis
    using assms(2-)
  proof (induction "(nat (int (length dest) - (d + i)), nat (src + now))" arbitrary: dest d src now i rule: wf_induct_rule [OF wf])
    case (1 dest d src now i)
    note IH = "1.hyps" and p = "1.prems"
    show ?case
    proof (cases "arr_get msg (src + now)")
      case (Inr b)
      show ?thesis
      proof (cases "b \<noteq> 0 \<and> is_compress b")
        case True
        have "fetch_loop msg dest (d + i) (uint (get_compress_pos w)) 0 0 \<noteq> None" if "get16 msg (src + now) = Inr w" for w
          using IH [of dest "d + i" 0 "uint (get_compress_pos w)" 0] p hop_taken [OF Inr _ that] True by simp
        then show ?thesis
          using Inr True by (subst fetch_loop.simps) (auto simp: bindP_None_iff simp del: not_None_eq)
      next
        case False
        have "fetch_loop msg dest2 d src (to_short (now + uint b + 1)) (to_short (i1 + 1)) \<noteq> None"
          if c: "copy_label msg (src + now + 1) (unat b) dest d i = Inr (dest1, i1)" "arr_set dest1 (d + i1) DOT = Inr dest2" "b \<noteq> 0"
          for dest1 i1 dest2
        proof -
          define n where "n = unat b"
          have adv: "i1 = i + int n" "length dest1 = length dest" using copy_label_advances [OF c(1)] p unfolding n_def by auto
          have set: "d + i1 < int (length dest)" "length dest2 = length dest" using c(2) adv by (auto dest!: arr_set_InrD)
          then have s: "to_short (i1 + 1) = i1 + 1" using p adv(1) by (intro to_short_id) auto
          show ?thesis unfolding s
            by (rule IH) (use p adv(1) set in auto)
        qed
        then show ?thesis
          using Inr False by (subst fetch_loop.simps) (auto simp: bindP_None_iff simp del: not_None_eq)
      qed
    qed (subst fetch_loop.simps, simp)
  qed
qed


section \<open>On a cycle\<close>

lemma cycle_step:
  assumes "(p, p) \<in> (hops msg)\<^sup>+"
  obtains q where "(p, q) \<in> hops msg" and "(q, q) \<in> (hops msg)\<^sup>+"
proof -
  obtain q where q: "(p, q) \<in> hops msg" "(q, p) \<in> (hops msg)\<^sup>*" using assms by (meson tranclD)
  then have "(q, q) \<in> (hops msg)\<^sup>+" by (meson rtrancl_into_trancl1)
  with q(1) show thesis by (rule that)
qed

lemma fetch_returns_off_cycle:
  "fetch_loop msg dest d src now i = Some y \<Longrightarrow> \<forall>p. src + now = int p \<longrightarrow> (p, p) \<notin> (hops msg)\<^sup>+"
proof (induction rule: fetch_loop.raw_induct [rotated, consumes 1, case_names step])
  case (step f msg dest d src now i y)
  show ?case
  proof (intro allI impI notI)
    fix p assume at: "src + now = int p" and "(p, p) \<in> (hops msg)\<^sup>+"
    then obtain q where hop: "(p, q) \<in> hops msg" and cyc: "(q, q) \<in> (hops msg)\<^sup>+" by (meson cycle_step)
    have nz: "msg ! p \<noteq> 0" using hop by (auto simp: hops_def is_compress_def)
    have "uint (get_compress_pos (be16 (msg ! p) (msg ! Suc p))) = int q"
      using hop unfolding hops_def by (simp only: mem_Collect_eq prod.case) (metis uint_nat)
    then have "bindP (f msg dest (d + i) (int q) 0 0) (\<lambda>(ret, dest, _). Some (Inr (ret, dest, src + now + 2))) = Some y"
      using step(2) at hop nz by (simp add: hops_def nat_add_distrib)
    then obtain z where "f msg dest (d + i) (int q) 0 0 = Some z"
      by (cases "f msg dest (d + i) (int q) 0 0") auto
    with step(1) [of msg dest "d + i" "int q" 0 0 z] cyc show False by simp
  qed
qed

section \<open>Property\<close>

text \<open>C40. \<open>fetch_label\<close> returns from every position of a message, for every name buffer shorter than 32 KiB, if and only if
  the compression pointers of the message have no cycle. Labels alone cannot keep it running, since each of
  them uses up a part of the buffer; a cycle of pointers is followed for ever.\<close>

theorem fetch_label_returns_iff:
  "(\<forall>p dest. length dest \<le> 32767 \<longrightarrow> fetch_label msg dest (int p) \<noteq> None) \<longleftrightarrow> acyclic (hops msg)"
proof
  assume all: "\<forall>p dest. length dest \<le> 32767 \<longrightarrow> fetch_label msg dest (int p) \<noteq> None"
  show "acyclic (hops msg)"
  proof (rule acyclicI, intro allI notI)
    fix p assume "(p, p) \<in> (hops msg)\<^sup>+"
    moreover obtain y where "fetch_label msg [] (int p) = Some y" using all by force
    ultimately show False using fetch_returns_off_cycle [of msg "[]" 0 "int p" 0 0 y] by (simp add: fetch_label_def)
  qed
next
  assume "acyclic (hops msg)"
  then show "\<forall>p dest. length dest \<le> 32767 \<longrightarrow> fetch_label msg dest (int p) \<noteq> None"
    using fetch_loop_returns [of msg 0 0] by (simp add: fetch_label_def)
qed

theorem fetch_label_returns_iff_witness:
  "(\<exists>p dest. fetch_label [192, 2, 192, 0] dest (int p) = None) \<and> fetch_label [1, 9, 0] (replicate 8 7) (int 0) \<noteq> None"
proof
  have "(0, 2) \<in> hops [192, 2, 192, 0]" "(2, 0) \<in> hops [192, 2, 192, 0]"
    by (simp_all add: hops_def is_compress_iff get_compress_pos_def be16_def COMPRESS_MASK_def)
  then have "\<not> acyclic (hops [192, 2, 192, 0])" by (meson acyclic_def trancl.simps)
  then show "\<exists>p dest. fetch_label [192, 2, 192, 0] dest (int p) = None"
    using fetch_label_returns_iff [of "[192, 2, 192, 0]"] by auto
  have "hops [1, 9, 0] = {}" by (auto simp: hops_def is_compress_iff less_Suc_eq nth_Cons split: nat.splits)
  then have "acyclic (hops [1, 9, 0])" by (simp add: acyclic_def)
  then show "fetch_label [1, 9, 0] (replicate 8 7) (int 0) \<noteq> None"
    by (intro iffD2 [OF fetch_label_returns_iff, rule_format]) simp_all
qed

end
