(* ===== verification/Program.thy ===== *)
theory Program
  imports RelayAccount Network DnsTermination
begin

text \<open>
  The whole program, \<open>main\<close> of \<open>src/src/main.c\<close>: command line, file of local records, sockets and
  the loop, against the abstract relay. The start of the abstract relay is read off the command line
  and the lines of the file.
\<close>

section \<open>The start of the abstract relay\<close>

definition records_file :: "options \<Rightarrow> cstring" where
  "records_file opts = (case opt_file opts of None \<Rightarrow> str ''dnsrelay.txt'' | Some f \<Rightarrow> f)"

definition cache_size :: "options \<Rightarrow> int" where
  "cache_size opts = (if opt_cache_num opts \<noteq> 0 then opt_cache_num opts else LRU_BUFFER_LENGTH)"

definition upstream_text :: "options \<Rightarrow> cstring" where
  "upstream_text opts = (case opt_server opts of None \<Rightarrow> str ''10.3.9.4'' | Some s \<Rightarrow> s)"

text \<open>The names a file has with a null address, and the version 4 addresses it lists for a name.\<close>

definition null_address :: "pton \<Rightarrow> pton \<Rightarrow> cstring \<Rightarrow> bool" where
  "null_address pton4 pton6 ip \<longleftrightarrow> (case pton4 ip of Some bs \<Rightarrow> bs = [0, 0, 0, 0] | None \<Rightarrow> pton6 ip = Some (replicate 16 0))"

definition refused_names :: "pton \<Rightarrow> pton \<Rightarrow> (cstring \<times> cstring) list \<Rightarrow> cstring \<Rightarrow> bool" where
  "refused_names pton4 pton6 ls label \<longleftrightarrow> list_ex (\<lambda>(ip, name). name = label \<and> null_address pton4 pton6 ip) ls"

definition listed_addresses :: "pton \<Rightarrow> (cstring \<times> cstring) list \<Rightarrow> cstring \<Rightarrow> byte list list" where
  "listed_addresses pton4 ls label = filter (\<lambda>bs. bs \<noteq> [0, 0, 0, 0])
     (List.map_filter (\<lambda>(ip, name). if name = label then pton4 ip else None) ls)"

definition start_view :: "pton \<Rightarrow> pton \<Rightarrow> options \<Rightarrow> (cstring \<times> cstring) list \<Rightarrow> view" where
  "start_view pton4 pton6 opts ls =
     \<lparr>vw_black = refused_names pton4 pton6 ls,
      vw_local = (\<lambda>t label. if t = 1 then listed_addresses pton4 ls label else []),
      vw_cached = (\<lambda>_. []), vw_room = (\<lambda>t. if t \<in> {1, 28} then nat (cache_size opts) - 1 else 0),
      vw_pending = Map.empty, vw_cursor = 0, vw_upstream = init_query_server pton4 (upstream_text opts)\<rparr>"

section \<open>What start-up leaves\<close>

subsection \<open>The local records\<close>

lemma listed_addresses_Cons:
  "listed_addresses pton4 ((ip, name) # ls) label =
     (if name = label then case pton4 ip of Some bs \<Rightarrow> if bs = [0, 0, 0, 0] then [] else [bs] | None \<Rightarrow> [] else [])
     @ listed_addresses pton4 ls label"
  by (simp add: listed_addresses_def List.map_filter_def split: option.splits)

lemma parsed_Cons:
  "of_kind k (fst (parse_records pton4 pton6 addr ((ip, name) # ls))) =
     (let (kind, a) = parse_record pton4 pton6 ip addr in
      (case kind of None \<Rightarrow> [] | Some (j, ty) \<Rightarrow> if j = k then [(name, \<lparr>ip_addr = a, ip_type = ty\<rparr>)] else [])
      @ of_kind k (fst (parse_records pton4 pton6 a ls)))"
  by (simp add: of_kind_def Let_def split: prod.split option.split)

lemma values_of_append: "values_of (xs @ ys) k = values_of xs k @ values_of ys k"
  by (simp add: values_of_def)

lemma parsed_refused:
  "values_of (of_kind Black (fst (parse_records pton4 pton6 addr ls))) label \<noteq> [] \<longleftrightarrow> refused_names pton4 pton6 ls label"
proof (induction ls arbitrary: addr)
  case (Cons e ls)
  obtain ip name where e: "e = (ip, name)" by (cases e)
  have black: "(\<exists>ty. fst (parse_record pton4 pton6 ip addr) = Some (Black, ty)) \<longleftrightarrow> null_address pton4 pton6 ip"
    by (simp add: parse_record_def null_address_def split: option.split)
  show ?case
    unfolding e parsed_Cons Let_def case_prod_beta values_of_append append_is_Nil_conv de_Morgan_conj Cons.IH
    using black by (auto simp: refused_names_def split: option.split)
qed (simp add: refused_names_def of_kind_def)

lemma parsed_listed:
  assumes "pton_ok pton4 pton6"
  shows "length addr = 16 \<Longrightarrow> map (\<lambda>ip. take 4 (ip_addr ip)) (values_of (of_kind V4 (fst (parse_records pton4 pton6 addr ls))) label)
      = listed_addresses pton4 ls label
    \<and> list_all (\<lambda>ip. length (ip_addr ip) = 16) (values_of (of_kind V4 (fst (parse_records pton4 pton6 addr ls))) label)"
proof (induction ls arbitrary: addr)
  case (Cons e ls)
  obtain ip name where e: "e = (ip, name)" by (cases e)
  obtain kind a where p: "parse_record pton4 pton6 ip addr = (kind, a)" by (cases "parse_record pton4 pton6 ip addr")
  have a: "length a = 16" and four: "pton4 ip = Some bs \<Longrightarrow> take 4 a = bs" for bs
    using p assms Cons.prems by (auto simp: parse_record_def pton_ok_def split: option.splits)
  have "kind = (case pton4 ip of Some bs \<Rightarrow> Some (if bs = [0, 0, 0, 0] then Black else V4, 4)
      | None \<Rightarrow> map_option (\<lambda>bs. (if bs = replicate 16 0 then Black else V6, 6)) (pton6 ip))"
    using p by (cases "pton4 ip"; cases "pton6 ip") (auto simp: parse_record_def)
  then show ?case
    unfolding e parsed_Cons p Let_def prod.case values_of_append listed_addresses_Cons
    using Cons.IH [OF a] a four by (auto split: option.split)
qed (simp add: listed_addresses_def of_kind_def List.map_filter_def)

text \<open>A missing file counts as an empty one.\<close>

definition file_lines :: "byte list option \<Rightarrow> (cstring \<times> cstring) list \<Rightarrow> bool" where
  "file_lines f ls \<longleftrightarrow> list_all entry_ok ls \<and> length ls < 2 ^ 30 \<and> (f = Some (render ls) \<or> f = None \<and> ls = [])"

lemma look_local: "local_ok C \<Longrightarrow> static_look C label = Inr xs \<Longrightarrow> local_view C label = xs"
  using local_lookup [of C label] by (auto simp: static_look_def)

lemma load_views:
  assumes "pton_ok pton4 pton6" and "length addr = 16" and "file_lines f ls" and "no_local cs"
    and "load_local_record pton4 pton6 addr f cs = Inr (ok, cs')"
  defines "rs \<equiv> fst (parse_records pton4 pton6 (snd (parse_records pton4 pton6 addr ls)) ls)"
  shows "local_view (cs_blacklist cs') label = values_of (of_kind Black rs) label"
    and "local_view (cc_local (cs_A cs')) label = values_of (of_kind V4 rs) label"
    and "local_view (cc_local (cs_AAAA cs')) label = []"
    and "f \<noteq> None \<Longrightarrow> ls \<noteq> [] \<Longrightarrow> ok" and "local_ok (cs_blacklist cs')" and "local_ok (cc_local (cs_A cs'))"
proof -
  have zero: "local_view zero_staticCache label = []" "local_ok zero_staticCache"
    by (simp_all add: local_view_def zero_staticCache_def local_ok_def)
  have all: "local_view (cs_blacklist cs') label = values_of (of_kind Black rs) label
    \<and> local_view (cc_local (cs_A cs')) label = values_of (of_kind V4 rs) label
    \<and> local_view (cc_local (cs_AAAA cs')) label = [] \<and> (f \<noteq> None \<longrightarrow> ls \<noteq> [] \<longrightarrow> ok)
    \<and> local_ok (cs_blacklist cs') \<and> local_ok (cc_local (cs_A cs'))"
  proof (cases "ls = []")
    case True
    with zero assms(3-5) show ?thesis
      by (auto simp: file_lines_def load_local_record_def init_sets_def no_local_def rs_def of_kind_def)
  next
    case False
    then have "f = Some (render ls)" "list_all entry_ok ls" "length ls < 2 ^ 30"
      using assms(3) by (auto simp: file_lines_def)
    then show ?thesis
      using load_result [OF assms(1,2) _ False _ assms(4) rs_def [THEN meta_eq_to_obj_eq], of label] assms(5) look_local
      by (auto simp: local_ok_def)
  qed
  then show "local_view (cs_blacklist cs') label = values_of (of_kind Black rs) label"
    "local_view (cc_local (cs_A cs')) label = values_of (of_kind V4 rs) label"
    "local_view (cc_local (cs_AAAA cs')) label = []" "f \<noteq> None \<Longrightarrow> ls \<noteq> [] \<Longrightarrow> ok"
    "local_ok (cs_blacklist cs')" "local_ok (cc_local (cs_A cs'))"
    by auto
qed

lemma load_lines:
  assumes "pton_ok pton4 pton6" and "length addr = 16" and "file_lines f ls" and "no_local cs"
    and "load_local_record pton4 pton6 addr f cs = Inr (ok, cs')"
  shows "local_view (cs_blacklist cs') label \<noteq> [] \<longleftrightarrow> refused_names pton4 pton6 ls label"
    and "map (\<lambda>ip. take 4 (ip_addr ip)) (local_view (cc_local (cs_A cs')) label) = listed_addresses pton4 ls label"
    and "list_all (\<lambda>ip. length (ip_addr ip) = 16) (local_view (cc_local (cs_A cs')) label)"
    and "local_view (cc_local (cs_AAAA cs')) label = []"
proof -
  have a: "length (snd (parse_records pton4 pton6 addr ls)) = 16" using parse_records_length [OF assms(1,2)] by blast
  show "local_view (cs_blacklist cs') label \<noteq> [] \<longleftrightarrow> refused_names pton4 pton6 ls label"
    using parsed_refused by (simp add: load_views(1) [OF assms])
  show "map (\<lambda>ip. take 4 (ip_addr ip)) (local_view (cc_local (cs_A cs')) label) = listed_addresses pton4 ls label"
    and "list_all (\<lambda>ip. length (ip_addr ip) = 16) (local_view (cc_local (cs_A cs')) label)"
    using parsed_listed [OF assms(1) a, of ls label] by (simp_all add: load_views(2) [OF assms])
  show "local_view (cc_local (cs_AAAA cs')) label = []" by (rule load_views(3) [OF assms])
qed

subsection \<open>The state\<close>

text \<open>The command line is accepted, the number of cached names is in range, the file is missing or well
  formed, and the uninitialised variables have the sizes of their types.\<close>

definition startup_ok :: "pton \<Rightarrow> pton \<Rightarrow> (cstring \<Rightarrow> byte list option) \<Rightarrow> garbage \<Rightarrow> cstring list \<Rightarrow> options
    \<Rightarrow> (cstring \<times> cstring) list \<Rightarrow> bool" where
  "startup_ok pton4 pton6 files g args opts ls \<longleftrightarrow> pton_ok pton4 pton6 \<and> garbage_ok g
     \<and> parse_args args no_options = Inr opts \<and> 0 \<le> opt_cache_num opts \<and> opt_cache_num opts < 2 ^ 29
     \<and> file_lines (files (records_file opts)) ls"

lemma init_only_file:
  "parse_args args no_options = Inr opts \<Longrightarrow>
    init pton4 pton6 files g args = init pton4 pton6 (\<lambda>_. files (records_file opts)) g args"
  by (simp add: init_def records_file_def Let_def)

lemma init_parts:
  assumes "init pton4 pton6 files g args = Inr st" and "parse_args args no_options = Inr opts"
  obtains ok cs A AAAA where "load_local_record pton4 pton6 (gb_ip g) (files (records_file opts)) zero_cacheset = Inr (ok, cs)"
    and "rl_caches st = set_AAAA_temp AAAA (set_A_temp A cs)"
    and "rl_query_server st = init_query_server pton4 (upstream_text opts)"
  using assms by (auto simp: init_def Let_def bindE_Inr_iff records_file_def upstream_text_def)

lemma init_view:
  assumes "startup_ok pton4 pton6 files g args opts ls"
  shows "\<exists>st. init pton4 pton6 files g args = Inr st \<and> relay_inv (st\<lparr>rl_len := ADDR_LEN\<rparr>)
    \<and> view_of st = start_view pton4 pton6 opts ls \<and> rl_len st = gb_len g"
proof -
  have ok: "pton_ok pton4 pton6" "garbage_ok g" "parse_args args no_options = Inr opts"
    "0 \<le> opt_cache_num opts" "opt_cache_num opts < 2 ^ 29" and lines: "file_lines (files (records_file opts)) ls"
    using assms by (simp_all add: startup_ok_def)
  have "file_ok (files (records_file opts))" using lines by (auto simp: file_lines_def file_ok_def)
  then obtain st where st: "init pton4 pton6 files g args = Inr st" "relay_ok st" "rl_adapter st = init_adapter"
    "rl_len st = gb_len g" "\<And>v. cache_contents (temp_cache v (rl_caches st)) = []"
    "\<And>v. cache_capacity (temp_cache v (rl_caches st)) = nat (cache_size opts) - 1"
    using init_relay [OF ok(1,2) _ ok(3-5), of "\<lambda>_. files (records_file opts)"] init_only_file [OF ok(3), of pton4 pton6 files g]
    by (auto simp: cache_size_def)
  obtain b cs A AAAA where parts: "load_local_record pton4 pton6 (gb_ip g) (files (records_file opts)) zero_cacheset = Inr (b, cs)"
    "rl_caches st = set_AAAA_temp AAAA (set_A_temp A cs)"
    "rl_query_server st = init_query_server pton4 (upstream_text opts)"
    by (rule init_parts [OF st(1) ok(3)])
  have "length (gb_ip g) = 16" and "no_local zero_cacheset"
    using ok(2) by (simp_all add: garbage_ok_def no_local_def zero_cacheset_def)
  note loaded = load_lines [OF ok(1) this(1) lines this(2) parts(1)]
  have caches: "cs_blacklist (rl_caches st) = cs_blacklist cs"
    "local_records t (rl_caches st) label = (if t = 1 then local_view (cc_local (cs_A cs)) label else [])" for t label
    using loaded(4) by (simp_all add: parts(2) set_A_temp_def set_AAAA_temp_def local_records_def compound_def)
  have "relay_inv (st\<lparr>rl_len := ADDR_LEN\<rparr>)"
    by (rule init_inv) (use st loaded(3) caches in \<open>simp_all add: relay_ok_def\<close>)
  moreover have "view_of st = start_view pton4 pton6 opts ls"
    using loaded(1,2) caches st(3,5,6) parts(3)
    by (auto simp: view_of_def start_view_def fun_eq_iff rdata_size_def Let_def)
  ultimately show ?thesis using st(1,4) by blast
qed

subsection \<open>The address length\<close>

text \<open>\<open>main\<close> passes an uninitialised address length to the first \<open>recvfrom\<close> on the query socket. It
  makes no difference when a query is received first.\<close>

fun asks_first :: "(clocks \<times> turn) list \<Rightarrow> bool" where
  "asks_first [] = True"
| "asks_first ((ck, x) # xs) = (case x of Turn (Some r) a \<Rightarrow> False | Turn None (Some a) \<Rightarrow> True | _ \<Rightarrow> asks_first xs)"

lemma request_any_len: "handle_request b tget now clk (Recv m src) (st\<lparr>rl_len := n\<rparr>) = handle_request b tget now clk (Recv m src) st"
  by (simp add: handle_request_def Let_def)

lemma timeouts_any_len:
  assumes "handle_timeouts clk (st\<lparr>rl_len := n\<rparr>) = Inr (out, st')"
  obtains st1 where "handle_timeouts clk st = Inr (out, st1)" and "st' = st1\<lparr>rl_len := n\<rparr>"
  using assms by (auto simp: handle_timeouts_def bindE_Inr_iff)

lemma run_any_len:
  "asks_first turns \<Longrightarrow> run_loop b (map (\<lambda>(ck, x). (ck, turn_input x)) turns) (st\<lparr>rl_len := n\<rparr>) = Some (Inr (out, st'))
    \<Longrightarrow> \<exists>st''. run_loop b (map (\<lambda>(ck, x). (ck, turn_input x)) turns) st = Some (Inr (out, st'')) \<and> view_of st'' = view_of st'"
proof (induction turns arbitrary: st out)
  case Nil
  then show ?case by (auto simp: view_of_def Let_def)
next
  case (Cons y turns)
  obtain ck x where y: "y = (ck, x)" by (cases y)
  show ?case
  proof (cases x)
    case (Turn r a)
    then show ?thesis
      using Cons y by (cases r; cases a) (auto simp: loop_body_def request_any_len)
  next
    case Quiet
    obtain o1 st1 o2 where one: "handle_timeouts (ck_scan ck) (st\<lparr>rl_len := n\<rparr>) = Inr (o1, st1)"
      "run_loop b (map (\<lambda>(ck, x). (ck, turn_input x)) turns) st1 = Some (Inr (o2, st'))" "out = o1 @ o2"
      using Cons.prems(2) by (auto simp: y Quiet loop_body_def bindP_Inr_iff)
    obtain st2 where st2: "handle_timeouts (ck_scan ck) st = Inr (o1, st2)" "st1 = st2\<lparr>rl_len := n\<rparr>"
      by (rule timeouts_any_len [OF one(1)])
    then show ?thesis
      using Cons.IH [of st2 o2] Cons.prems(1) one(2,3) by (auto simp: y Quiet loop_body_def)
  next
    case Failed
    then show ?thesis using Cons.IH [of st] Cons.prems by (auto simp: y loop_body_def bindP_Inr_iff)
  qed
qed

section \<open>Properties\<close>

text \<open>The system: the console takes messages, the two sockets are opened under the lowest free
  descriptors and bound.\<close>

definition system_ok :: "log_state \<Rightarrow> syscalls \<Rightarrow> int set \<Rightarrow> bool" where
  "system_ok lg sy used \<longleftrightarrow> console_ready lg \<and> sockname_ok sy \<and> \<not> sockets_fail sy \<and> lowest_free used (sy_server sy)
     \<and> lowest_free (insert (sy_server sy) used) (sy_query sy) \<and> sy_query sy < FD_SETSIZE"

text \<open>What waits on the sockets in a turn.\<close>

definition told :: "syscalls \<Rightarrow> (clocks \<times> arrivals) list \<Rightarrow> (clocks \<times> selected) list" where
  "told sy = map (\<lambda>(ck, answer). (ck, seen (sy_server sy) (sy_query sy) answer))"

lemma main_told:
  assumes "system_ok lg sy used"
  shows "main pton4 pton6 files g sy now file lg b args xs
    = bindP (Some (init pton4 pton6 files g args)) (run_loop b (told sy xs))"
  unfolding told_def using assms by (intro main_is_loop [where used = used]) (simp_all add: system_ok_def)


text \<open>A file that refuses the name a and has an address for b; queries for a, b and c.\<close>

definition sample_lines :: "(cstring \<times> cstring) list" where
  "sample_lines = [([48], [97]), ([49], [98])]"

definition sample_query :: "u16 \<Rightarrow> byte \<Rightarrow> ask" where
  "sample_query i x = (sample_ask i)\<lparr>ak_name := [[x]]\<rparr>"

definition request_arrives :: "ask \<Rightarrow> arrivals" where
  "request_arrives a = Some (\<lambda>fd. if fd = 3 then Some (Recv (ask_bytes (ak_id a) a) (ak_src a)) else None)"

definition sample_asks :: "ask list" where
  "sample_asks = [sample_query 5 97, sample_query 6 98, sample_query 7 99]"

abbreviation sample_view :: view where
  "sample_view \<equiv> start_view toy_pton4 toy_pton6 (no_options\<lparr>opt_file := Some (str ''x'')\<rparr>) sample_lines"

lemma sample_system: "system_ok log_start (sample_syscalls 0) {0, 1, 2}"
  using sample_network(1,2,4-6) sample_network(3) [of 0] by (auto simp: system_ok_def)

lemma sample_startup:
  "startup_ok toy_pton4 toy_pton6 (\<lambda>_. Some (render sample_lines)) sample_garbage [str ''-f'', str ''x'']
    (no_options\<lparr>opt_file := Some (str ''x'')\<rparr>) sample_lines"
  by (simp add: startup_ok_def toy_pton_ok sample_garbage_ok file_lines_def sample_lines_def no_options_def str_def
      entry_ok_def word_ok_def isspace_def del: render_simps)

lemma sample_view_names [simp]:
  "vw_black sample_view [97]" "\<not> vw_black sample_view [98]" "\<not> vw_black sample_view [99]"
  "vw_local sample_view 1 [98] = [[10, 0, 0, 1]]" "vw_local sample_view 1 [99] = []" "vw_cached sample_view t = []"
  "vw_pending sample_view = Map.empty" "vw_cursor sample_view = 0"
  by (simp_all add: start_view_def sample_lines_def refused_names_def null_address_def toy_pton4_def listed_addresses_Cons)
    (simp_all add: listed_addresses_def List.map_filter_def)

lemma sample_query_simps [simp]:
  "ak_name (sample_query i x) = [[x]]" "ak_type (sample_query i x) = 1" "ak_class (sample_query i x) = 1"
  "ak_id (sample_query i x) = i" "ak_src (sample_query i x) = replicate 16 1" "ak_rest (sample_query i x) = []"
  by (simp_all add: sample_query_def sample_ask_def)

lemma sample_query_ok: "x \<noteq> 0 \<Longrightarrow> x \<noteq> DOT \<Longrightarrow> request_ok [[x]] 1 1 [] (replicate 16 1)"
  by (simp add: request_ok_def name_ok_def valid_label_def MAX_NAME_LENGTH_def wire_question_def ADDR_LEN_def)

lemma sample_asks_run:
  "turns_ok (map (\<lambda>a. (clock_at 0, Turn None (Some a))) sample_asks) sample_view"
  "fst (spec_run (map (\<lambda>a. (clock_at 0, Turn None (Some a))) sample_asks) sample_view)
    = [refusal (sample_query 5 97), reply_with (sample_query 6 98) [(3600, [10, 0, 0, 1])],
       (Query_sockfd, vw_upstream sample_view, ask_bytes 0 (sample_query 7 99))]"
proof -
  have run: "spec_ask ck (sample_query 5 97) sample_view = ([refusal (sample_query 5 97)], sample_view)"
    "spec_ask ck (sample_query 6 98) sample_view = ([reply_with (sample_query 6 98) [(3600, [10, 0, 0, 1])]], sample_view)"
    "fst (spec_ask ck (sample_query 7 99) sample_view) = [(Query_sockfd, vw_upstream sample_view, ask_bytes 0 (sample_query 7 99))]"
    for ck by (simp_all add: spec_ask_def local_entries_def Let_def)
  have "ask_ok ck (sample_query 5 97) sample_view" "ask_ok ck (sample_query 6 98) sample_view"
    "ask_ok ck (sample_query 7 99) sample_view" for ck
    using sample_query_ok [of 97] sample_query_ok [of 98] sample_query_ok [of 99]
    by (simp_all add: ask_ok_def DOT_def reply_fits_def local_entries_def wire_entry_def wire_question_def wire_rr_def)
  then show "turns_ok (map (\<lambda>a. (clock_at 0, Turn None (Some a))) sample_asks) sample_view"
    using run by (simp add: sample_asks_def)
  show "fst (spec_run (map (\<lambda>a. (clock_at 0, Turn None (Some a))) sample_asks) sample_view)
    = [refusal (sample_query 5 97), reply_with (sample_query 6 98) [(3600, [10, 0, 0, 1])],
       (Query_sockfd, vw_upstream sample_view, ask_bytes 0 (sample_query 7 99))]"
    using run by (simp add: sample_asks_def case_prod_beta)
qed

lemma sample_told:
  "told (sample_syscalls 0) (map (\<lambda>a. (ck, request_arrives a)) as) = map (\<lambda>(ck, x). (ck, turn_input x)) (map (\<lambda>a. (ck, Turn None (Some a))) as)"
  by (simp add: told_def request_arrives_def seen_def sample_syscalls_def comp_def)


section \<open>A cycle of pointers\<close>

lemma hops_append: "hops m \<subseteq> hops (m @ x)"
  by (auto simp: hops_def nth_append)

lemma fetch_on_cycle: "(p, p) \<in> (hops msg)\<^sup>+ \<Longrightarrow> fetch_label msg dest (int p) = None"
  using fetch_returns_off_cycle [of msg dest 0 "int p" 0 0]
  by (cases "fetch_label msg dest (int p)") (auto simp: fetch_label_def)

lemma request_on_cycle:
  assumes "m = wire_header i FLAG_QUERY qd an ns ad @ qs" and "(12, 12) \<in> (hops (recv_payload m))\<^sup>+"
  shows "handle_request b tget now clk (Recv m src) st = None"
proof -
  define B where "B = blit 0 (recv_payload m) (rl_buffer st)"
  have B: "B = recv_payload m @ drop (length (recv_payload m)) (rl_buffer st)" by (simp add: B_def blit_zero)
  obtain x where x: "B = wire_header i FLAG_QUERY qd an ns ad @ x"
    by (simp add: B assms(1) recv_payload_def MAX_DNS_SIZE_def)
  have "(12, 12) \<in> (hops B)\<^sup>+"
    unfolding B by (rule trancl_mono [OF assms(2) hops_append])
  then have "fetch_label B dest 12 = None" for dest using fetch_on_cycle [of 12] by simp
  then have "read_dns_questions qu B = None" for qu
    by (simp add: read_dns_questions_def read_dns_question_def DNS_HEADER_SIZE_def x get16_def wire_header_def net16_def)
  moreover have "read_dns_header B = Inr (12, \<lparr>hd_id = i, hd_flags = swap16 FLAG_QUERY, hd_qdcount = qd,
      hd_ancount = an, hd_nscount = ns, hd_adcount = ad\<rparr>)"
    unfolding x by (rule read_dns_header_wire)
  ultimately show ?thesis
    by (simp add: handle_request_def Let_def answer_request_def flip: B_def)
qed

lemma bindP_assoc: "bindP (bindP m f) g = bindP m (\<lambda>x. bindP (f x) g)"
  by (cases m; cases "the m") auto

lemma run_loop_append:
  "run_loop b (xs @ ys) st = bindP (run_loop b xs st) (\<lambda>(out, st). bindP (run_loop b ys st) (\<lambda>(outs, st). Some (Inr (out @ outs, st))))"
proof (induction b xs st rule: run_loop.induct)
  case (2 b ck sel xs st)
  then show ?case
    by (cases "loop_body b ck sel st"; cases "the (loop_body b ck sel st)") (auto simp: bindP_assoc case_prod_beta)
qed simp

text \<open>C30. A single datagram stops the program: after whatever it has served, a query of at least fourteen bytes whose
  name is on a cycle of compression pointers, as the pointer to itself, makes \<open>main\<close> never come back to
  the loop, so nothing that arrives later is answered.\<close>

theorem pointer_cycle_stops_program:
  assumes "system_ok lg sy used" and "main pton4 pton6 files g sy now file lg b args xs = Some (Inr served)"
    and "seen (sy_server sy) (sy_query sy) answer = Selected None (Some (Recv (wire_header i FLAG_QUERY qd an ns ad @ qs) src))"
    and "(12, 12) \<in> (hops (recv_payload (wire_header i FLAG_QUERY qd an ns ad @ qs)))\<^sup>+"
  shows "main pton4 pton6 files g sy now file lg b args (xs @ (ck, answer) # ys) = None"
proof -
  obtain st where st: "init pton4 pton6 files g args = Inr st" "run_loop b (told sy xs) st = Some (Inr served)"
    using assms(2) main_told [OF assms(1)] by (cases "init pton4 pton6 files g args") auto
  have "run_loop b (told sy ((ck, answer) # ys)) st' = None" for st'
    using request_on_cycle [OF refl assms(4)] assms(3) by (simp add: told_def loop_body_def)
  then show ?thesis
    using st main_told [OF assms(1)] by (cases served) (simp add: told_def run_loop_append)
qed

theorem pointer_cycle_stops_program_witness:
  "main toy_pton4 toy_pton6 (\<lambda>_. Some (render sample_lines)) sample_garbage (sample_syscalls 0) (\<lambda>_. sample_tm)
      (str ''main.c'') log_start True [str ''-f'', str ''x'']
      ([] @ (clock_at 1, Some (\<lambda>fd. if fd = 3 then Some (Recv (wire_header 8 FLAG_QUERY 1 0 0 0 @ [192, 12]) (replicate 16 9)) else None))
      # [(clock_at 2, request_arrives (sample_query 9 98))]) = None"
proof (rule pointer_cycle_stops_program [OF sample_system])
  show "(12, 12) \<in> (hops (recv_payload (wire_header 8 FLAG_QUERY 1 0 0 0 @ [192, 12])))\<^sup>+"
    by (rule r_into_trancl)
      (simp add: hops_def recv_payload_def MAX_DNS_SIZE_def nth_append is_compress_iff get_compress_pos_def be16_def COMPRESS_MASK_def)
  show "main toy_pton4 toy_pton6 (\<lambda>_. Some (render sample_lines)) sample_garbage (sample_syscalls 0) (\<lambda>_. sample_tm)
      (str ''main.c'') log_start True [str ''-f'', str ''x''] [] = Some (Inr ([], projr (init toy_pton4 toy_pton6 (\<lambda>_. Some (render sample_lines)) sample_garbage [str ''-f'', str ''x''])))"
    using init_view [OF sample_startup] main_told [OF sample_system] by (auto simp: told_def)
qed (simp add: seen_def sample_syscalls_def)

end
