(* ===== verification/TestHash.thy ===== *)
theory TestHash
  imports HashTable
begin

text \<open>
  The test program of the hash table, \<open>src/test/test_hash.c\<close>. The table maps the numbers below
  \<open>TEST_SIZE\<close> to the elements of the array \<open>data\<close>; a record is the position of its element. \<open>malloc\<close>
  leaves arbitrary numbers in \<open>data\<close>, and the results of \<open>rand\<close> are a parameter.
\<close>

section \<open>Model\<close>

type_synonym test_table = "(int, nat) hashtable"

definition TEST_SIZE :: nat where "TEST_SIZE = 1000000"
definition TABLE_SIZE :: int where "TABLE_SIZE = 10000"

definition test_compare :: "int list \<Rightarrow> (int, nat) compare" where
  "test_compare data record label = (case record of None \<Rightarrow> Inl NullDeref
     | Some r \<Rightarrow> bindE (arr_get data (int r)) (\<lambda>a. Inr (a = label)))"

fun test_insert :: "nat \<Rightarrow> nat \<Rightarrow> int list \<Rightarrow> test_table \<Rightarrow> (int list \<times> test_table) result" where
  "test_insert 0 i data table = Inr (data, table)"
| "test_insert (Suc n) i data table =
     bindE (arr_set data (int i) (int i)) (\<lambda>data.
     bindE (set_hashnode (test_compare data) table (int i) (Some i)) (\<lambda>(_, table).
     test_insert n (Suc i) data table))"

fun test_get :: "nat \<Rightarrow> nat \<Rightarrow> int list \<Rightarrow> test_table \<Rightarrow> unit result" where
  "test_get 0 i data table = Inr ()"
| "test_get (Suc n) i data table =
     bindE (get_hashnode (test_compare data) table (int i)) (\<lambda>(_, is_find).
     if \<not> is_find then Inl (Exit 1) else test_get n (Suc i) data table)"

text \<open>The walk along a bucket, with at most \<open>max_count\<close> nodes.\<close>

fun test_chain :: "int list \<Rightarrow> int \<Rightarrow> nat option list \<Rightarrow> bool list \<Rightarrow> bool list result" where
  "test_chain data max_count [] check = Inr check"
| "test_chain data max_count (record # rs) check = (case record of None \<Rightarrow> Inl NullDeref
     | Some r \<Rightarrow>
       bindE (arr_get data (int r)) (\<lambda>d.
       bindE (arr_get check d) (\<lambda>seen.
       if seen then Inl (Exit 1)
       else bindE (arr_set check d True) (\<lambda>check.
         if max_count - 1 \<le> 0 then Inl (Exit 1) else test_chain data (max_count - 1) rs check))))"

fun test_nodes :: "nat \<Rightarrow> nat \<Rightarrow> int list \<Rightarrow> test_table \<Rightarrow> bool list \<Rightarrow> bool list result" where
  "test_nodes 0 i data table check = Inr check"
| "test_nodes (Suc n) i data table check =
     bindE (arr_get (ht_nodes table) (int i)) (\<lambda>node.
     bindE (test_chain data 100 (chain node) check) (\<lambda>check.
     test_nodes n (Suc i) data table check))"

fun test_complete :: "nat \<Rightarrow> nat \<Rightarrow> bool list \<Rightarrow> unit result" where
  "test_complete 0 i check = Inr ()"
| "test_complete (Suc n) i check =
     bindE (arr_get check (int i)) (\<lambda>seen. if \<not> seen then Inl (Exit 1) else test_complete n (Suc i) check)"

fun test_reset :: "nat \<Rightarrow> nat \<Rightarrow> int list \<Rightarrow> test_table \<Rightarrow> test_table result" where
  "test_reset 0 i data table = Inr table"
| "test_reset (Suc n) i data table =
     bindE (reset_hash_node (test_compare data) table (int i)) (\<lambda>(_, table). test_reset n (Suc i) data table)"

fun test_set_random :: "(nat \<Rightarrow> nat) \<Rightarrow> nat \<Rightarrow> int \<Rightarrow> int list \<Rightarrow> test_table \<Rightarrow> test_table result" where
  "test_set_random rand 0 test_size data table = Inr table"
| "test_set_random rand (Suc n) test_size data table =
     (let j = int (rand n) mod test_size in
      bindE (arr_get data j) (\<lambda>_.
      bindE (set_hashnode (test_compare data) table j (Some (nat j))) (\<lambda>(_, table).
      test_set_random rand n test_size data table)))"

fun test_get_random :: "(nat \<Rightarrow> nat) \<Rightarrow> nat \<Rightarrow> int \<Rightarrow> int list \<Rightarrow> test_table \<Rightarrow> unit result" where
  "test_get_random rand 0 test_size data table = Inr ()"
| "test_get_random rand (Suc n) test_size data table =
     bindE (get_hashnode (test_compare data) table (int (rand n) mod test_size)) (\<lambda>_.
     test_get_random rand n test_size data table)"

text \<open>The program up to its return value. \<open>rand\<close> and \<open>rand'\<close> are the numbers drawn in the two last loops, by
  the number of draws that follow.\<close>

definition test_main ::
  "nat \<Rightarrow> int \<Rightarrow> test_table \<Rightarrow> int list \<Rightarrow> (nat \<Rightarrow> nat) \<Rightarrow> (nat \<Rightarrow> nat) \<Rightarrow> int result" where
  "test_main test_size table_size table data rand rand' =
     bindE (init_hashtable table table_size (7 / 10) word_of_int) (\<lambda>(ok, table).
     if \<not> ok then Inl (Exit 1)
     else
       bindE (test_insert test_size 0 data table) (\<lambda>(data, table).
       bindE (test_get test_size 0 data table) (\<lambda>_.
       bindE (test_nodes (nat (ht_size table)) 0 data table (replicate test_size False)) (\<lambda>check.
       bindE (test_complete test_size 0 check) (\<lambda>_.
       bindE (test_reset (Suc test_size) 0 data table) (\<lambda>table.
       bindE (test_set_random rand test_size (int test_size) data table) (\<lambda>table.
       bindE (test_get_random rand' test_size (int test_size) data table) (\<lambda>_.
       let table = free_hashtable table in Inr 0))))))))"

section \<open>Lemmas\<close>

text \<open>The table after the numbers of a set were entered, and the array they refer to.\<close>

definition data_filled :: "nat \<Rightarrow> int list \<Rightarrow> bool" where
  "data_filled n data \<longleftrightarrow> n \<le> length data \<and> (\<forall>r < n. data ! r = int r)"

lemma data_filled_agrees: "data_filled n data \<Longrightarrow> S \<subseteq> {..<n} \<Longrightarrow> agrees (test_compare data) int S"
  by (auto simp: data_filled_def agrees_def test_compare_def subset_iff)

lemma int_upd [simp]: "int(r := int r) = int"
  by auto

lemma insert_below [simp]: "insert i {..<i} = {..<Suc i}"
  by auto

lemma set_new:
  assumes "ht_invar int S t" and "agrees cmp int S" and "i \<notin> S"
  shows "\<exists>n t'. set_hashnode cmp t (int i) (Some i) = Inr (n, t') \<and> ht_invar int (insert i S) t' \<and> ht_size t' = ht_size t
    \<and> ht_hash t' = ht_hash t"
proof -
  have "int i \<notin> int ` S" using assms(3) by auto
  then show ?thesis
    using ht_invar_append [OF assms(1,2) _ assms(3), of "int i"] by (auto simp: set_hashnode_absent [OF assms(1,2)] Let_def)
qed

lemma set_old:
  assumes "ht_invar key S t" and "agrees cmp key S" and "r \<in> S"
  shows "\<exists>n. set_hashnode cmp t (key r) (Some r) = Inr (n, t)"
proof -
  let ?p = "hash_pos t (key r)"
  obtain i where i: "get_hashnode cmp t (key r) = Inr ((?p, Suc i), True)" "i < length (chain (ht_nodes t ! ?p))"
    "chain (ht_nodes t ! ?p) ! i = Some r"
    using get_hashnode_hit [OF assms] by blast
  have p: "?p < length (ht_nodes t)" by (rule ht_invarD(2) [OF assms(1)])
  have "(chain (ht_nodes t ! ?p))[i := Some r] = chain (ht_nodes t ! ?p)" using i(3) by (metis list_update_id)
  then show ?thesis using i(1,2) p by (auto simp: set_hashnode_def set_node_record_def)
qed

lemma test_insert_ok:
  "ht_invar int {..<i} t \<Longrightarrow> data_filled i data \<Longrightarrow> i + n \<le> length data
    \<Longrightarrow> \<exists>data' t'. test_insert n i data t = Inr (data', t') \<and> ht_invar int {..<i + n} t' \<and> data_filled (i + n) data'
      \<and> ht_size t' = ht_size t \<and> ht_hash t' = ht_hash t"
proof (induction n arbitrary: i data t)
  case (Suc n)
  let ?d = "data[i := int i]"
  have d: "data_filled (Suc i) ?d" using Suc.prems(2,3) by (auto simp: data_filled_def less_Suc_eq nth_list_update)
  then obtain m t' where t': "set_hashnode (test_compare ?d) t (int i) (Some i) = Inr (m, t')"
    "ht_invar int {..<Suc i} t'" "ht_size t' = ht_size t" "ht_hash t' = ht_hash t"
    using set_new [OF Suc.prems(1) data_filled_agrees [OF d, of "{..<i}"], of i] by auto
  then show ?case using Suc.IH [OF t'(2) d] Suc.prems(3) by simp
qed simp

lemma test_get_ok:
  assumes "ht_invar int {..<k} t" and "data_filled k data"
  shows "i + n \<le> k \<Longrightarrow> test_get n i data t = Inr ()"
proof (induction n arbitrary: i)
  case (Suc n)
  have "\<exists>m. get_hashnode (test_compare data) t (int i) = Inr (m, True)"
    using get_hashnode_hit [OF assms(1) data_filled_agrees [OF assms(2)], of i] Suc.prems by auto
  then show ?case using Suc by auto
qed simp

subsection \<open>The walk over the buckets\<close>

lemma test_chain_ok:
  assumes "data_filled k data" and "length check = k"
  shows "distinct rs \<Longrightarrow> set rs \<subseteq> {..<k} \<Longrightarrow> \<forall>r \<in> set rs. \<not> check ! r \<Longrightarrow> int (length rs) < m
    \<Longrightarrow> \<exists>check'. test_chain data m (map Some rs) check = Inr check' \<and> length check' = k
      \<and> (\<forall>d < k. check' ! d \<longleftrightarrow> check ! d \<or> d \<in> set rs)"
  using assms(2)
proof (induction rs arbitrary: check m)
  case (Cons r rs)
  have r: "r < k" "r < length data" "data ! r = int r" "\<not> check ! r" using Cons.prems assms(1) by (auto simp: data_filled_def)
  let ?c = "check[r := True]"
  have "\<forall>s \<in> set rs. \<not> ?c ! s"
  proof
    fix s assume "s \<in> set rs"
    then have "s \<noteq> r" "\<not> check ! s" using Cons.prems(1,3) by auto
    then show "\<not> ?c ! s" by simp
  qed
  then obtain check' where "test_chain data (m - 1) (map Some rs) ?c = Inr check'" "length check' = k"
    "\<forall>d < k. check' ! d \<longleftrightarrow> ?c ! d \<or> d \<in> set rs"
    using Cons.IH [of ?c "m - 1"] Cons.prems by auto
  then show ?case using r Cons.prems(4,5) by (auto simp: nth_list_update)
qed simp

text \<open>The numbers that share a bucket.\<close>

lemma card_residues: "0 < m \<Longrightarrow> card {r. r < k \<and> r mod m = p} \<le> Suc (k div m)" for k m p :: nat
proof -
  assume "0 < m"
  have "inj_on (\<lambda>r. r div m) {r. r < k \<and> r mod m = p}"
    by (rule inj_onI) (metis (mono_tags, lifting) div_mult_mod_eq mem_Collect_eq)
  moreover have "(\<lambda>r. r div m) ` {r. r < k \<and> r mod m = p} \<subseteq> {..k div m}" by (auto intro: div_le_mono)
  ultimately show ?thesis using card_inj_on_le [of "\<lambda>r. r div m" _ "{..k div m}"] by simp
qed

lemma hash_pos_residue:
  assumes "ht_hash t = word_of_int" and "0 < ht_size t" and "ht_size t < 2 ^ 31" and "r < 2 ^ 31"
  shows "hash_pos t (int r) = r mod nat (ht_size t)"
proof -
  have "unat (word_of_int (int r) :: u32) = r"
    using assms(4) unat_word_of_size [of "int r"] by (cases "r = 0") auto
  then show ?thesis
    using assms(1-3) by (simp add: hash_pos_def unat_mod unat_word_of_size)
qed

lemma test_nodes_ok:
  assumes "ht_invar int {..<k} t" and "data_filled k data" and "ht_hash t = word_of_int" and "k \<le> 2 ^ 31"
    and "Suc (k div nat (ht_size t)) < 100"
  shows "length check = k \<Longrightarrow> i + n \<le> length (ht_nodes t)
    \<Longrightarrow> \<forall>d < k. check ! d \<longleftrightarrow> hash_pos t (int d) < i
    \<Longrightarrow> \<exists>check'. test_nodes n i data t check = Inr check' \<and> length check' = k \<and> (\<forall>d < k. check' ! d \<longleftrightarrow> hash_pos t (int d) < i + n)"
proof (induction n arbitrary: i check)
  case (Suc n)
  have size: "0 < ht_size t" "ht_size t < 2 ^ 31" using assms(1) by (simp_all add: ht_invar_def)
  have bucket: "bucket_ok t int {..<k} i (ht_nodes t ! i)" using assms(1) Suc.prems(2) by (simp add: ht_invar_def)
  obtain rs where rs: "chain (ht_nodes t ! i) = map Some rs" "distinct rs" "set rs = {r. r < k \<and> hash_pos t (int r) = i}"
    using bucket by (auto simp: bucket_ok_def)
  have "set rs = {r. r < k \<and> r mod nat (ht_size t) = i}"
    using rs(3) hash_pos_residue [OF assms(3) size] assms(4) by (auto simp: order.strict_trans2)
  then have "length rs \<le> Suc (k div nat (ht_size t))"
    using card_residues [of "nat (ht_size t)" k i] size(1) distinct_card [OF rs(2)] by simp
  then have len: "int (length rs) < 100" using assms(5) by simp
  obtain c where c: "test_chain data 100 (map Some rs) check = Inr c" "length c = k"
    "\<forall>d < k. c ! d \<longleftrightarrow> check ! d \<or> d \<in> set rs"
    using test_chain_ok [OF assms(2) Suc.prems(1) rs(2), of 100] rs(3) Suc.prems(3) len by auto
  have "\<forall>d < k. c ! d \<longleftrightarrow> hash_pos t (int d) < Suc i" using c(3) rs(3) Suc.prems(3) by (auto simp: less_Suc_eq)
  then show ?case using Suc.IH [of c "Suc i"] c Suc.prems(2) by (simp add: rs(1))
qed simp

lemma test_complete_ok: "i + n \<le> length check \<Longrightarrow> \<forall>d < length check. check ! d \<Longrightarrow> test_complete n i check = Inr ()"
  by (induction n arbitrary: i) auto

subsection \<open>Removal and random calls\<close>

lemma test_reset_ok:
  assumes "data_filled k data"
  shows "ht_invar int {i..<k} t \<Longrightarrow> i + n = Suc k \<Longrightarrow> \<exists>t'. test_reset n i data t = Inr t' \<and> ht_invar int {} t'"
proof (induction n arbitrary: i t)
  case 0
  then have "{i..<k} = {}" by auto
  with 0 show ?case by simp
next
  case (Suc n)
  have cmp: "agrees (test_compare data) int {i..<k}" by (rule data_filled_agrees [OF assms]) auto
  show ?case
  proof (cases "i < k")
    case True
    then obtain t' where "reset_hash_node (test_compare data) t (int i) = Inr (True, t')" "ht_invar int ({i..<k} - {i}) t'"
      using reset_hash_node_hit [OF Suc.prems(1) cmp, of i] by auto
    moreover have "{i..<k} - {i} = {Suc i..<k}" by auto
    ultimately show ?thesis using Suc.IH [of "Suc i" t'] Suc.prems(2) by simp
  next
    case False
    then have "i = k" using Suc.prems(2) by simp
    then have "reset_hash_node (test_compare data) t (int i) = Inr (False, t)" "{i..<k} = {}" "n = 0"
      using reset_hash_node_miss [OF Suc.prems(1) cmp, of "int i"] Suc.prems(2) by auto
    then show ?thesis using Suc.prems(1) by simp
  qed
qed

lemma test_set_random_ok:
  assumes "data_filled k data" and "0 < k"
  shows "ht_invar int S t \<Longrightarrow> S \<subseteq> {..<k}
    \<Longrightarrow> \<exists>t' S'. test_set_random rand n (int k) data t = Inr t' \<and> ht_invar int S' t' \<and> S' \<subseteq> {..<k}"
proof (induction n arbitrary: S t)
  case (Suc n)
  define j where "j = nat (int (rand n) mod int k)"
  have j: "int (rand n) mod int k = int j" "j < k" using assms(2) by (auto simp: j_def nat_less_iff)
  have cmp: "agrees (test_compare data) int S" by (rule data_filled_agrees [OF assms(1) Suc.prems(2)])
  obtain m t' where "set_hashnode (test_compare data) t (int j) (Some j) = Inr (m, t')" "ht_invar int (insert j S) t'"
    using set_new [OF Suc.prems(1) cmp, of j] set_old [OF Suc.prems(1) cmp, of j] Suc.prems(1)
    by (cases "j \<in> S") (auto simp: insert_absorb)
  moreover have "j < length data" using j(2) assms(1) by (simp add: data_filled_def)
  ultimately show ?case using Suc.IH [of "insert j S" t'] Suc.prems(2) j by (simp add: Let_def)
qed auto

lemma test_get_random_ok:
  assumes "ht_invar int S t" and "S \<subseteq> {..<k}" and "data_filled k data"
  shows "test_get_random rand n (int k) data t = Inr ()"
proof (induction n)
  case (Suc n)
  have cmp: "agrees (test_compare data) int S" by (rule data_filled_agrees [OF assms(3,2)])
  have "\<exists>m. get_hashnode (test_compare data) t (int (rand n) mod int k) = Inr m"
    using get_hashnode_hit [OF assms(1) cmp] get_hashnode_miss [OF assms(1) cmp, of "int (rand n) mod int k"]
    by (cases "int (rand n) mod int k \<in> int ` S") fastforce+
  then show ?case using Suc by auto
qed simp

section \<open>Property\<close>

text \<open>C22. The test of the hash table passes, whatever \<open>malloc\<close> and \<open>rand\<close> return: all million numbers
  are found after they were entered, the buckets hold each of them exactly once and fewer than a hundred
  each, all are removed again, and the calls on random numbers return. The program ends with
  status 0 and no call leaves its arrays or dereferences a null pointer.\<close>

theorem test_hash_passes:
  assumes "length data = TEST_SIZE"
  shows "test_main TEST_SIZE TABLE_SIZE table data rand rand' = Inr 0"
proof -
  have size: "double_to_int (of_int TABLE_SIZE / (7 / 10)) = Inr 14285"
    by (simp add: double_to_int_def TABLE_SIZE_def floor_eq_iff)
  define t :: test_table where "t = \<lparr>ht_nodes = replicate 14285 \<lparr>head_record = None, chain = []\<rparr>, ht_filling_factor = 7 / 10,
    ht_hash = word_of_int, ht_size = 14285\<rparr>"
  have init: "init_hashtable table TABLE_SIZE (7 / 10) word_of_int = Inr (True, t)"
    using find_smallest_prime_eq [of 14285] unfolding init_hashtable_def size by (simp add: t_def)
  have t: "ht_invar int {} t" "ht_size t = 14285" "ht_hash t = word_of_int"
    by (simp_all add: t_def ht_invar_def bucket_ok_def)
  obtain d t1 where t1: "test_insert TEST_SIZE 0 data t = Inr (d, t1)" "ht_invar int {..<TEST_SIZE} t1" "data_filled TEST_SIZE d"
    "ht_size t1 = 14285" "ht_hash t1 = word_of_int"
    using test_insert_ok [of 0 t data TEST_SIZE] t assms by (auto simp: data_filled_def)
  have len: "length (ht_nodes t1) = 14285" using t1(2,4) by (simp add: ht_invar_def)
  have pos: "hash_pos t1 l < 14285" for l using hash_pos_less [of t1] t1(4) by simp
  obtain check where check: "test_nodes 14285 0 d t1 (replicate TEST_SIZE False) = Inr check"
    "length check = TEST_SIZE" "\<forall>x < TEST_SIZE. check ! x"
    using test_nodes_ok [OF t1(2,3,5), of "replicate TEST_SIZE False" 0 14285] len pos
    by (auto simp: t1(4) TEST_SIZE_def)
  obtain t2 where t2: "test_reset (Suc TEST_SIZE) 0 d t1 = Inr t2" "ht_invar int {} t2"
    using test_reset_ok [OF t1(3), of 0 t1 "Suc TEST_SIZE"] t1(2) by (auto simp: lessThan_atLeast0)
  obtain t3 S where t3: "test_set_random rand TEST_SIZE (int TEST_SIZE) d t2 = Inr t3" "ht_invar int S t3" "S \<subseteq> {..<TEST_SIZE}"
    using test_set_random_ok [OF t1(3) _ t2(2), of rand TEST_SIZE] by (auto simp: TEST_SIZE_def)
  show ?thesis
    unfolding test_main_def init
    using t1 check t2(1) t3(1) test_get_ok [OF t1(2,3), of 0 TEST_SIZE] test_complete_ok [of 0 TEST_SIZE check]
      test_get_random_ok [OF t3(2,3) t1(3)] by (simp del: test_reset.simps)
qed

theorem test_hash_passes_witness:
  "test_main TEST_SIZE TABLE_SIZE \<lparr>ht_nodes = [], ht_filling_factor = 0, ht_hash = word_of_int, ht_size = 0\<rparr>
    (replicate TEST_SIZE 7) (\<lambda>i. i * 3) (\<lambda>i. 5) = Inr 0"
  by (rule test_hash_passes) simp_all

end
