(* ===== verification/TestLoadRecord.thy ===== *)
theory TestLoadRecord
  imports Program
begin

text \<open>
  The test program of the loader, \<open>src/test/test_loadrecord.c\<close>. \<open>inet_ntop\<close> is a parameter, from the
  four bytes of an address to its text. The file is its bytes, or nothing when it cannot be opened; the
  choice of its name is left out.
\<close>

section \<open>Model\<close>

type_synonym ntop = "byte list \<Rightarrow> cstring"

text \<open>The loop over the chain of records of a name; \<open>&pdata->ip\<close> points to the bytes of the address.\<close>

definition check :: "ntop \<Rightarrow> staticCache \<Rightarrow> string \<Rightarrow> string \<Rightarrow> unit result" where
  "check ntop cache q a =
     bindE (get_static_cache cache (str q)) (\<lambda>pdata.
     bindE (static_chain cache pdata) (\<lambda>ips.
     if list_ex (\<lambda>ip. ntop (take 4 (ip_addr ip)) = str a) ips then Inr () else Inl (Exit 1)))"

fun check_all :: "ntop \<Rightarrow> staticCache \<Rightarrow> (string \<times> string) list \<Rightarrow> unit result" where
  "check_all ntop cache [] = Inr ()"
| "check_all ntop cache ((q, a) # xs) = bindE (check ntop cache q a) (\<lambda>_. check_all ntop cache xs)"

definition checked_A :: "(string \<times> string) list" where
  "checked_A =
     [(''khm.l.google.com'', ''210.242.125.98''), (''ci1.googleusercontent.com'', ''74.125.207.132''),
      (''uploads.clients.google.com'', ''74.125.207.117''), (''uploads.clients.google.com'', ''74.125.207.113''),
      (''lh0.googleusercontent.com'', ''74.125.207.132''), (''productideas.appspot.com'', ''64.233.185.141'')]"

definition checked_black :: "(string \<times> string) list" where
  "checked_black =
     [(''zelnet.ru'', ''0.0.0.0''), (''www.yule21.com'', ''0.0.0.0''), (''www.yysky.net'', ''0.0.0.0''), (''www.yyqy.com'', ''0.0.0.0'')]"

definition test_loadrecord :: "pton \<Rightarrow> pton \<Rightarrow> ntop \<Rightarrow> byte list \<Rightarrow> byte list option \<Rightarrow> int result" where
  "test_loadrecord pton4 pton6 ntop addr file =
     bindE (load_local_record pton4 pton6 addr file zero_cacheset) (\<lambda>(ok, cs).
     if \<not> ok then Inl (Exit 1)
     else
       bindE (check_all ntop (cc_local (cs_A cs)) checked_A) (\<lambda>_.
       bindE (check_all ntop (cs_blacklist cs) checked_black) (\<lambda>_.
       Inr 0)))"

section \<open>Lemmas\<close>

text \<open>The records of the blacklist have null addresses.\<close>

lemma parsed_null:
  assumes "pton_ok pton4 pton6"
  shows "length addr = 16 \<Longrightarrow>
    list_all (\<lambda>ip. take 4 (ip_addr ip) = [0, 0, 0, 0]) (values_of (of_kind Black (fst (parse_records pton4 pton6 addr ls))) label)"
proof (induction ls arbitrary: addr)
  case (Cons e ls)
  obtain ip name where e: "e = (ip, name)" by (cases e)
  obtain kind a where p: "parse_record pton4 pton6 ip addr = (kind, a)" by (cases "parse_record pton4 pton6 ip addr")
  have a: "length a = 16" using p assms Cons.prems by (auto simp: parse_record_def pton_ok_def split: option.splits)
  have "kind = Some (Black, ty) \<Longrightarrow> take 4 a = [0, 0, 0, 0]" for ty
    using p by (auto simp: parse_record_def eval_nat_numeral split: option.splits if_splits)
  then show ?case
    unfolding e parsed_Cons p Let_def prod.case values_of_append using Cons.IH [OF a] by (auto split: option.split)
qed (simp add: of_kind_def)

lemma check_passes:
  assumes "local_ok C" and "ip \<in> set (local_view C (str q))" and "ntop (take 4 (ip_addr ip)) = str a"
  shows "check ntop C q a = Inr ()"
  using local_lookup [OF assms(1), of "str q"] assms(2,3) by (auto simp: check_def list_ex_iff)

lemma check_all_passes: "(\<And>q a. (q, a) \<in> set xs \<Longrightarrow> check ntop C q a = Inr ()) \<Longrightarrow> check_all ntop C xs = Inr ()"
  by (induction xs) auto

section \<open>Property\<close>

text \<open>\<open>inet_pton\<close> accepts the addresses of the test, and \<open>inet_ntop\<close> gives their text back.\<close>

definition ntop_ok :: "pton \<Rightarrow> ntop \<Rightarrow> bool" where
  "ntop_ok pton4 ntop \<longleftrightarrow> list_all (\<lambda>(q, a). pton4 (str a) \<noteq> None \<and> ntop (the (pton4 (str a))) = str a
     \<and> (pton4 (str a) = Some [0, 0, 0, 0] \<longleftrightarrow> a = ''0.0.0.0'')) (checked_A @ checked_black)"

definition has_lines :: "(string \<times> string) list \<Rightarrow> (cstring \<times> cstring) list \<Rightarrow> bool" where
  "has_lines xs ls \<longleftrightarrow> list_all (\<lambda>(q, a). (str a, str q) \<in> set ls) xs"

text \<open>C23. The test of the loader passes on every well-formed file that has the ten lines it asks for, among any
  others and in any order: the loader finds each of the six addresses under its name and the four names in the
  blacklist, and the program ends with status 0.\<close>

theorem test_loadrecord_passes:
  assumes "pton_ok pton4 pton6" and "ntop_ok pton4 ntop" and "length addr = 16"
    and "list_all entry_ok ls" and "length ls < 2 ^ 30" and "has_lines (checked_A @ checked_black) ls"
  shows "test_loadrecord pton4 pton6 ntop addr (Some (render ls)) = Inr 0"
proof -
  have ls: "ls \<noteq> []" "file_lines (Some (render ls)) ls"
    using assms(4-6) by (auto simp: has_lines_def checked_A_def file_lines_def)
  have none: "no_local zero_cacheset" by (simp add: no_local_def zero_cacheset_def)
  obtain ok cs where load: "load_local_record pton4 pton6 addr (Some (render ls)) zero_cacheset = Inr (ok, cs)"
    using load_result [OF assms(1,3,4) ls(1) assms(5) none refl] by blast
  note views = load_views [OF assms(1,3) ls(2) none load] and lines = load_lines [OF assms(1,3) ls(2) none load]
  have a: "length (snd (parse_records pton4 pton6 addr ls)) = 16" using parse_records_length [OF assms(1,3)] by blast
  have "check ntop (cc_local (cs_A cs)) q a = Inr ()" if mem: "(q, a) \<in> set checked_A" for q a
  proof -
    have "a \<noteq> ''0.0.0.0''" using mem by (auto simp: checked_A_def)
    then obtain bs where bs: "pton4 (str a) = Some bs" "ntop bs = str a" "bs \<noteq> [0, 0, 0, 0]"
      using assms(2) mem by (auto simp: ntop_ok_def list_all_iff)
    moreover have "(str a, str q) \<in> set ls" using assms(6) mem by (auto simp: has_lines_def list_all_iff)
    ultimately have "bs \<in> set (listed_addresses pton4 ls (str q))"
      by (force simp: listed_addresses_def List.map_filter_def)
    then obtain ip where "ip \<in> set (local_view (cc_local (cs_A cs)) (str q))" "take 4 (ip_addr ip) = bs"
      unfolding lines(2) [symmetric] by auto
    then show ?thesis using check_passes [OF views(6)] bs(2) by metis
  qed
  moreover have "check ntop (cs_blacklist cs) q a = Inr ()" if mem: "(q, a) \<in> set checked_black" for q a
  proof -
    have "a = ''0.0.0.0''" using mem by (auto simp: checked_black_def)
    then have null: "pton4 (str a) = Some [0, 0, 0, 0]" "ntop [0, 0, 0, 0] = str a"
      using assms(2) mem by (auto simp: ntop_ok_def list_all_iff)
    moreover have "(str a, str q) \<in> set ls" using assms(6) mem by (auto simp: has_lines_def list_all_iff)
    ultimately have "refused_names pton4 pton6 ls (str q)"
      by (force simp: refused_names_def null_address_def list_ex_iff)
    then obtain ip where ip: "ip \<in> set (local_view (cs_blacklist cs) (str q))"
      using lines(1) [of "str q"] by (cases "local_view (cs_blacklist cs) (str q)") auto
    then have "take 4 (ip_addr ip) = [0, 0, 0, 0]"
      using parsed_null [OF assms(1) a, of ls "str q"] by (auto simp: views(1) list_all_iff)
    then show ?thesis using check_passes [OF views(5) ip] null(2) by simp
  qed
  ultimately show ?thesis
    using views(4) ls(1) by (simp add: test_loadrecord_def load check_all_passes)
qed

text \<open>The five addresses of the test and their texts.\<close>

definition test_addresses :: "(cstring \<times> byte list) list" where
  "test_addresses = [(str ''210.242.125.98'', [210, 242, 125, 98]), (str ''74.125.207.132'', [74, 125, 207, 132]),
     (str ''74.125.207.117'', [74, 125, 207, 117]), (str ''74.125.207.113'', [74, 125, 207, 113]),
     (str ''64.233.185.141'', [64, 233, 185, 141]), (str ''0.0.0.0'', [0, 0, 0, 0])]"

definition test_ntop :: ntop where
  "test_ntop bs = (case map_of (map (\<lambda>(s, b). (b, s)) test_addresses) bs of None \<Rightarrow> [] | Some s \<Rightarrow> s)"

definition test_lines :: "(cstring \<times> cstring) list" where
  "test_lines = map (\<lambda>(q, a). (str a, str q)) (checked_black @ checked_A)"

theorem test_loadrecord_passes_witness:
  "test_loadrecord (map_of test_addresses) (\<lambda>_. None) test_ntop (replicate 16 7) (Some (render test_lines)) = Inr 0"
proof (rule test_loadrecord_passes)
  show "pton_ok (map_of test_addresses) (\<lambda>_. None)"
    by (auto simp: pton_ok_def test_addresses_def dest!: map_of_SomeD)
  show "ntop_ok (map_of test_addresses) test_ntop"
    by (simp add: ntop_ok_def checked_A_def checked_black_def test_ntop_def test_addresses_def str_def)
  show "list_all entry_ok test_lines"
    by (simp add: test_lines_def checked_A_def checked_black_def entry_ok_def word_ok_def str_def isspace_def)
  show "length test_lines < 2 ^ 30" by (simp add: test_lines_def checked_A_def checked_black_def)
  show "has_lines (checked_A @ checked_black) test_lines" by (force simp: has_lines_def test_lines_def list_all_iff)
qed simp

end
