(* ===== verification/Transition.thy ===== *)
theory Transition
  imports Prelude "HOL-Library.Multiset"
begin

text \<open>
  Labelled transition systems: runs, invariants over the history of a run, and systems every
  run of which ends. The thread pool is the client.
\<close>

inductive run :: "('s \<Rightarrow> 'e \<Rightarrow> 's \<Rightarrow> bool) \<Rightarrow> 's \<Rightarrow> 'e list \<Rightarrow> 's \<Rightarrow> bool"
  for step :: "'s \<Rightarrow> 'e \<Rightarrow> 's \<Rightarrow> bool" where
  run_Nil: "run step s [] s"
| run_Cons: "step s e s' \<Longrightarrow> run step s' es s'' \<Longrightarrow> run step s (e # es) s''"

inductive_simps run_Nil_iff [simp]: "run step s [] s'"
inductive_simps run_Cons_iff [simp]: "run step s (e # es) s'"

lemma run_append: "run step s es s' \<Longrightarrow> run step s' fs s'' \<Longrightarrow> run step s (es @ fs) s''"
  by (induction rule: run.induct) auto

lemma run_mono: "run step s es s' \<Longrightarrow> (\<And>s e s'. step s e s' \<Longrightarrow> step' s e s') \<Longrightarrow> run step' s es s'"
  by (induction rule: run.induct) (auto intro: run.intros)

text \<open>A state is at rest when no step leaves it.\<close>

definition at_rest :: "('s \<Rightarrow> 'e \<Rightarrow> 's \<Rightarrow> bool) \<Rightarrow> 's \<Rightarrow> bool" where
  "at_rest step s \<longleftrightarrow> (\<nexists>e s'. step s e s')"

locale history_invariant =
  fixes step :: "'s \<Rightarrow> 'e \<Rightarrow> 's \<Rightarrow> bool"
    and holds :: "'e list \<Rightarrow> 's \<Rightarrow> bool"
  assumes kept: "holds es s \<Longrightarrow> step s e s' \<Longrightarrow> holds (es @ [e]) s'"
begin

lemma kept_by_run: "run step s es s' \<Longrightarrow> holds fs s \<Longrightarrow> holds (fs @ es) s'"
proof (induction arbitrary: fs rule: run.induct)
  case (run_Cons s e s' es s'')
  then show ?case using kept [of fs s e s'] run_Cons.IH [of "fs @ [e]"] by simp
qed simp

end

locale ending_system = history_invariant step holds
  for step :: "'s \<Rightarrow> 'e \<Rightarrow> 's \<Rightarrow> bool" and holds +
  fixes left :: "'s \<Rightarrow> nat"
  assumes decreasing: "holds es s \<Longrightarrow> step s e s' \<Longrightarrow> left s' < left s"
begin

lemma run_bounded: "run step s es s' \<Longrightarrow> holds fs s \<Longrightarrow> length es + left s' \<le> left s"
proof (induction arbitrary: fs rule: run.induct)
  case (run_Cons s e s' es s'')
  have "length es + left s'' \<le> left s'"
    by (rule run_Cons.IH [OF kept [OF run_Cons.prems run_Cons.hyps(1)]])
  then show ?case using decreasing [OF run_Cons.prems run_Cons.hyps(1)] by simp
qed simp

lemma comes_to_rest: "holds fs s \<Longrightarrow> \<exists>es s'. run step s es s' \<and> at_rest step s'"
proof (induction "left s" arbitrary: fs s rule: less_induct)
  case less
  show ?case
  proof (cases "at_rest step s")
    case True
    then show ?thesis by (intro exI [of _ "[]"] exI [of _ s]) simp
  next
    case False
    then obtain e s' where e: "step s e s'" by (auto simp: at_rest_def)
    then obtain es s'' where "run step s' es s''" "at_rest step s''"
      using less.hyps [OF decreasing [OF less.prems e] kept [OF less.prems e]] by blast
    then show ?thesis using e run_Cons by metis
  qed
qed

end

end
