(* ===== verification/ThreadPool.thy ===== *)
theory ThreadPool
  imports Transition "HOL-Library.Sublist"
begin

text \<open>
  The thread pool (\<open>src/src/threadPool.c\<close>) as a system of threads that interleave: the workers
  run \<open>work_routine\<close>, clients call \<open>add_task_2_tpool\<close> and \<open>destroy_tpool\<close>. The queue of works is
  a linked list in a store of allocated blocks, the pool itself a block that \<open>destroy_tpool\<close>
  frees, so that every access to freed memory is an error of the model. A step ends where
  another thread can see a difference: at a lock or unlock of the mutex, at a wait, and at
  every read or write of \<open>shutdown\<close>, which \<open>destroy_tpool\<close> sets without holding the mutex. The
  critical sections of \<open>add_task_2_tpool\<close> and of the broadcast read nothing that is written
  outside the mutex, so each is one step.
\<close>

section \<open>Data\<close>

text \<open>A routine is its address, with 0 for a null pointer; a work is named by the address of its
  block.\<close>

record tpool_work =
  wk_routine :: nat
  wk_args :: nat
  wk_next :: "nat option"

text \<open>The mutex is the number of the worker that holds it between two steps.\<close>

record tpool =
  tp_shutdown :: nat
  tp_maxnum_thread :: nat
  tp_head :: "nat option"
  tp_queue_lock :: "nat option"

text \<open>Where a worker is in \<open>work_routine\<close>.\<close>

datatype worker =
    Locking         \<comment> \<open>before \<open>pthread_mutex_lock\<close>\<close>
  | Testing         \<comment> \<open>holds the mutex, at the condition of the inner loop\<close>
  | To_wait         \<comment> \<open>holds the mutex, before \<open>pthread_cond_wait\<close>\<close>
  | Waiting         \<comment> \<open>asleep in \<open>pthread_cond_wait\<close>\<close>
  | Woken           \<comment> \<open>in \<open>pthread_cond_wait\<close>, about to take the mutex again\<close>
  | Leaving         \<comment> \<open>holds the mutex, behind the inner loop\<close>
  | Calling nat     \<comment> \<open>has taken the work, before the call of its routine\<close>
  | Running nat     \<comment> \<open>in the routine of the work\<close>
  | Exited          \<comment> \<open>behind \<open>pthread_exit\<close>\<close>

text \<open>Where the thread that destroys the pool is in \<open>destroy_tpool\<close>.\<close>

datatype destroyer =
    Idle            \<comment> \<open>not called\<close>
  | Broadcasting    \<comment> \<open>\<open>shutdown\<close> is set, before the mutex\<close>
  | Joining nat     \<comment> \<open>in the loop of \<open>pthread_join\<close>\<close>
  | Draining        \<comment> \<open>in the loop that frees the queued works\<close>
  | Done            \<comment> \<open>returned\<close>

record tp_state =
  tp_pool :: "tpool option"    \<comment> \<open>\<open>None\<close> once freed\<close>
  tp_works :: "nat \<rightharpoonup> tpool_work"
  tp_workers :: "worker list"
  tp_destroyer :: destroyer

type_synonym task = "nat \<times> nat"

datatype event = Add task | Take task | Call task | Discard task | Tau

definition task_of :: "tpool_work \<Rightarrow> task" where
  "task_of w = (wk_routine w, wk_args w)"

section \<open>Operations\<close>

text \<open>\<open>create_tpool\<close>; each allocation and each call of the thread library may fail. The workers
  start with the pool complete, as they touch nothing of it that is set up later.\<close>

datatype resource = Pool_block | Thread_ids | Mutex | Condition | Thread nat

fun create_threads :: "(resource \<Rightarrow> bool) \<Rightarrow> nat \<Rightarrow> nat \<Rightarrow> worker list result" where
  "create_threads fails i 0 = Inr []"
| "create_threads fails i (Suc n) =
     (if fails (Thread i) then Inl (Exit (- 1))
      else bindE (create_threads fails (i + 1) n) (\<lambda>ws. Inr (Locking # ws)))"

definition create_tpool :: "(resource \<Rightarrow> bool) \<Rightarrow> nat \<Rightarrow> (int \<times> tp_state) result" where
  "create_tpool fails max_thread_num =
     (if fails Pool_block then Inl (Exit (- 1))
      else if fails Thread_ids then Inl (Exit (- 1))
      else if fails Mutex then Inl (Exit (- 1))
      else if fails Condition then Inl (Exit (- 1))
      else
        bindE (create_threads fails 0 max_thread_num) (\<lambda>ws.
        Inr (0, \<lparr>tp_pool = Some \<lparr>tp_shutdown = 0, tp_maxnum_thread = max_thread_num,
                                 tp_head = None, tp_queue_lock = None\<rparr>,
                 tp_works = Map.empty, tp_workers = ws, tp_destroyer = Idle\<rparr>)))"

text \<open>One step of worker \<open>i\<close>; \<open>None\<close> when it is blocked or has ended.\<close>

definition move :: "nat \<Rightarrow> worker \<Rightarrow> tpool \<Rightarrow> tp_state \<Rightarrow> tp_state" where
  "move i pc p st = st\<lparr>tp_pool := Some p, tp_workers := (tp_workers st)[i := pc]\<rparr>"

definition with_pool :: "tp_state \<Rightarrow> (tpool \<Rightarrow> 'a prog) \<Rightarrow> 'a prog" where
  "with_pool st f = (case tp_pool st of None \<Rightarrow> Some (Inl UseAfterFree) | Some p \<Rightarrow> f p)"

definition with_work :: "tp_state \<Rightarrow> nat \<Rightarrow> (tpool_work \<Rightarrow> 'a prog) \<Rightarrow> 'a prog" where
  "with_work st a f = (case tp_works st a of None \<Rightarrow> Some (Inl UseAfterFree) | Some w \<Rightarrow> f w)"

fun worker_step :: "nat \<Rightarrow> worker \<Rightarrow> tp_state \<Rightarrow> (event \<times> tp_state) prog" where
  "worker_step i Locking st = with_pool st (\<lambda>p.
     if tp_queue_lock p = None then Some (Inr (Tau, move i Testing (p\<lparr>tp_queue_lock := Some i\<rparr>) st))
     else None)"
| "worker_step i Testing st = with_pool st (\<lambda>p.
     if tp_head p = None \<and> tp_shutdown p = 0 then Some (Inr (Tau, move i To_wait p st))
     else Some (Inr (Tau, move i Leaving p st)))"
| "worker_step i To_wait st = with_pool st (\<lambda>p.
     Some (Inr (Tau, move i Waiting (p\<lparr>tp_queue_lock := None\<rparr>) st)))"
| "worker_step i Waiting st = None"
| "worker_step i Woken st = with_pool st (\<lambda>p.
     if tp_queue_lock p = None then Some (Inr (Tau, move i Testing (p\<lparr>tp_queue_lock := Some i\<rparr>) st))
     else None)"
| "worker_step i Leaving st = with_pool st (\<lambda>p.
     if tp_shutdown p \<noteq> 0 then Some (Inr (Tau, move i Exited (p\<lparr>tp_queue_lock := None\<rparr>) st))
     else
       case tp_head p of
         None \<Rightarrow> Some (Inl NullDeref)
       | Some a \<Rightarrow> with_work st a (\<lambda>w.
           Some (Inr (Take (task_of w),
                      move i (Calling a) (p\<lparr>tp_head := wk_next w, tp_queue_lock := None\<rparr>) st))))"
| "worker_step i (Calling a) st = with_work st a (\<lambda>w.
     Some (Inr (Call (task_of w), st\<lparr>tp_workers := (tp_workers st)[i := Running a]\<rparr>)))"
| "worker_step i (Running a) st =
     (if tp_works st a = None then Some (Inl InvalidFree)
      else Some (Inr (Tau, st\<lparr>tp_works := (tp_works st)(a := None),
                              tp_workers := (tp_workers st)[i := Locking]\<rparr>)))"
| "worker_step i Exited st = None"

definition work_routine :: "nat \<Rightarrow> tp_state \<Rightarrow> (event \<times> tp_state) prog" where
  "work_routine i st = worker_step i (tp_workers st ! i) st"

text \<open>\<open>pthread_cond_broadcast\<close> and \<open>pthread_cond_signal\<close>; the thread library chooses the waiting
  worker \<open>j\<close> that a signal wakes.\<close>

fun wake :: "worker \<Rightarrow> worker" where
  "wake Waiting = Woken"
| "wake pc = pc"

definition cond_broadcast :: "worker list \<Rightarrow> worker list" where
  "cond_broadcast ws = map wake ws"

definition cond_signal :: "nat \<Rightarrow> worker list \<Rightarrow> worker list" where
  "cond_signal j ws = (if j < length ws then ws[j := wake (ws ! j)] else ws)"

definition may_signal :: "nat \<Rightarrow> worker list \<Rightarrow> bool" where
  "may_signal j ws \<longleftrightarrow> (Waiting \<in> set ws \<longrightarrow> j < length ws \<and> ws ! j = Waiting)"

text \<open>\<open>destroy_tpool\<close>: the call up to the write of \<open>shutdown\<close>, and the steps after it.\<close>

definition destroy_call :: "tp_state \<Rightarrow> (event \<times> tp_state) prog" where
  "destroy_call st = with_pool st (\<lambda>p.
     if tp_shutdown p \<noteq> 0 then Some (Inr (Tau, st))
     else Some (Inr (Tau, st\<lparr>tp_pool := Some (p\<lparr>tp_shutdown := 1\<rparr>), tp_destroyer := Broadcasting\<rparr>)))"

fun destroyer_step :: "destroyer \<Rightarrow> tp_state \<Rightarrow> (event \<times> tp_state) prog" where
  "destroyer_step Idle st = None"
| "destroyer_step Broadcasting st = with_pool st (\<lambda>p.
     if tp_queue_lock p = None
     then Some (Inr (Tau, st\<lparr>tp_workers := cond_broadcast (tp_workers st), tp_destroyer := Joining 0\<rparr>))
     else None)"
| "destroyer_step (Joining i) st = with_pool st (\<lambda>p.
     if i < tp_maxnum_thread p then
       if tp_workers st ! i = Exited then Some (Inr (Tau, st\<lparr>tp_destroyer := Joining (i + 1)\<rparr>))
       else None
     else Some (Inr (Tau, st\<lparr>tp_destroyer := Draining\<rparr>)))"
| "destroyer_step Draining st = with_pool st (\<lambda>p.
     case tp_head p of
       None \<Rightarrow> Some (Inr (Tau, st\<lparr>tp_pool := None, tp_destroyer := Done\<rparr>))
     | Some a \<Rightarrow> with_work st a (\<lambda>w.
         Some (Inr (Discard (task_of w),
                    st\<lparr>tp_pool := Some (p\<lparr>tp_head := wk_next w\<rparr>),
                       tp_works := (tp_works st)(a := None)\<rparr>))))"
| "destroyer_step Done st = None"

definition destroy_tpool :: "tp_state \<Rightarrow> (event \<times> tp_state) prog" where
  "destroy_tpool st = destroyer_step (tp_destroyer st) st"

text \<open>\<open>add_task_2_tpool\<close>: \<open>block\<close> is what \<open>malloc\<close> returns. The result holds the return value;
  \<open>None\<close> while the mutex is taken.\<close>

partial_function (option) last_work :: "(nat \<rightharpoonup> tpool_work) \<Rightarrow> nat \<Rightarrow> nat prog" where
  "last_work works member =
     (case works member of
        None \<Rightarrow> Some (Inl UseAfterFree)
      | Some w \<Rightarrow> (case wk_next w of None \<Rightarrow> Some (Inr member) | Some m \<Rightarrow> last_work works m))"

definition append_work :: "(nat \<rightharpoonup> tpool_work) \<Rightarrow> nat option \<Rightarrow> nat \<Rightarrow> (nat option \<times> (nat \<rightharpoonup> tpool_work)) prog" where
  "append_work works head a =
     (case head of
        None \<Rightarrow> Some (Inr (Some a, works))
      | Some member \<Rightarrow>
          bindP (last_work works member) (\<lambda>m.
            case works m of
              None \<Rightarrow> Some (Inl UseAfterFree)
            | Some w \<Rightarrow> Some (Inr (head, works(m \<mapsto> w\<lparr>wk_next := Some a\<rparr>)))))"

definition add_task_2_tpool ::
  "nat option \<Rightarrow> nat \<Rightarrow> nat \<Rightarrow> nat \<Rightarrow> tp_state \<Rightarrow> (int \<times> event \<times> tp_state) prog" where
  "add_task_2_tpool block j routine args st =
     (if routine = 0 then Some (Inr (- 1, Tau, st))
      else
        case block of
          None \<Rightarrow> Some (Inr (- 1, Tau, st))
        | Some a \<Rightarrow>
            with_pool st (\<lambda>p.
            if tp_queue_lock p \<noteq> None then None
            else
              bindP (append_work ((tp_works st)(a \<mapsto> \<lparr>wk_routine = routine, wk_args = args, wk_next = None\<rparr>))
                      (tp_head p) a) (\<lambda>(head, works).
              Some (Inr (0, Add (routine, args),
                         st\<lparr>tp_pool := Some (p\<lparr>tp_head := head\<rparr>), tp_works := works,
                            tp_workers := cond_signal j (tp_workers st)\<rparr>)))))"

section \<open>Interleaving\<close>

datatype actor =
    Worker nat      \<comment> \<open>a worker takes its next step\<close>
  | Destroyer       \<comment> \<open>the thread in \<open>destroy_tpool\<close> does\<close>
  | Client          \<comment> \<open>a client calls an operation of the pool\<close>
  | System          \<comment> \<open>a spurious wake-up\<close>

inductive tp_step :: "tp_state \<Rightarrow> actor \<Rightarrow> (event \<times> tp_state) result \<Rightarrow> bool" where
  worker: "i < length (tp_workers st) \<Longrightarrow> work_routine i st = Some r \<Longrightarrow> tp_step st (Worker i) r"
| destroyer: "destroy_tpool st = Some r \<Longrightarrow> tp_step st Destroyer r"
| destroy: "destroy_call st = Some r \<Longrightarrow> tp_step st Client r"
| add: "pred_option (\<lambda>a. tp_works st a = None) block \<Longrightarrow> may_signal j (tp_workers st) \<Longrightarrow>
    add_task_2_tpool block j routine args st = Some r \<Longrightarrow>
    tp_step st Client (map_sum id snd r)"
| spurious: "i < length (tp_workers st) \<Longrightarrow> tp_workers st ! i = Waiting \<Longrightarrow>
    tp_step st System (Inr (Tau, st\<lparr>tp_workers := (tp_workers st)[i := Woken]\<rparr>))"

text \<open>A step of the system, labelled with its event, and a step it makes without its clients:
  by a worker or the destroyer, and a spurious wake-up only once the pool is shut down.\<close>

definition tp_next :: "tp_state \<Rightarrow> event \<Rightarrow> tp_state \<Rightarrow> bool" where
  "tp_next st e st' \<longleftrightarrow> (\<exists>who. tp_step st who (Inr (e, st')))"

definition tp_own :: "tp_state \<Rightarrow> event \<Rightarrow> tp_state \<Rightarrow> bool" where
  "tp_own st e st' \<longleftrightarrow> (\<exists>who. who \<noteq> Client \<and> (who = System \<longrightarrow> tp_destroyer st \<noteq> Idle) \<and> tp_step st who (Inr (e, st')))"

section \<open>Invariant\<close>

fun chain :: "(nat \<rightharpoonup> tpool_work) \<Rightarrow> nat option \<Rightarrow> nat list \<Rightarrow> bool" where
  "chain works h [] \<longleftrightarrow> h = None"
| "chain works h (a # q) \<longleftrightarrow>
     h = Some a \<and> (case works a of None \<Rightarrow> False | Some w \<Rightarrow> chain works (wk_next w) q)"

fun held :: "worker \<Rightarrow> nat list" where
  "held (Calling a) = [a]"
| "held (Running a) = [a]"
| "held pc = []"

fun pending :: "worker \<Rightarrow> nat list" where
  "pending (Calling a) = [a]"
| "pending pc = []"

fun has_lock :: "worker \<Rightarrow> bool" where
  "has_lock Testing = True"
| "has_lock To_wait = True"
| "has_lock Leaving = True"
| "has_lock pc = False"

text \<open>Every block is in the queue or with one worker.\<close>

definition memory :: "tpool \<Rightarrow> nat list \<Rightarrow> tp_state \<Rightarrow> bool" where
  "memory p q st \<longleftrightarrow> chain (tp_works st) (tp_head p) q \<and> finite (dom (tp_works st))
     \<and> mset q + mset (concat (map held (tp_workers st))) = mset_set (dom (tp_works st))"

definition locking :: "tpool \<Rightarrow> tp_state \<Rightarrow> bool" where
  "locking p st \<longleftrightarrow> length (tp_workers st) = tp_maxnum_thread p
     \<and> (\<forall>i < length (tp_workers st). has_lock (tp_workers st ! i) \<longleftrightarrow> tp_queue_lock p = Some i)
     \<and> (\<forall>i. tp_queue_lock p = Some i \<longrightarrow> i < length (tp_workers st))"

text \<open>While the pool is open no worker has exited, one that is about to take a work finds one, and
  not all workers sleep while a work is queued.\<close>

definition open_pool :: "nat list \<Rightarrow> worker list \<Rightarrow> bool" where
  "open_pool q ws \<longleftrightarrow> (\<forall>i < length ws. ws ! i \<noteq> Exited \<and> (ws ! i = Leaving \<longrightarrow> q \<noteq> [])
       \<and> (ws ! i = To_wait \<longrightarrow> q = []))
     \<and> (q \<noteq> [] \<and> ws \<noteq> [] \<longrightarrow> (\<exists>i < length ws. ws ! i \<noteq> Waiting))"

text \<open>After the broadcast no worker sleeps or goes to sleep.\<close>

fun closing :: "destroyer \<Rightarrow> worker list \<Rightarrow> bool" where
  "closing Idle ws \<longleftrightarrow> True"
| "closing Broadcasting ws \<longleftrightarrow> True"
| "closing (Joining j) ws \<longleftrightarrow> j \<le> length ws \<and> (\<forall>i < j. ws ! i = Exited)
     \<and> (\<forall>i < length ws. ws ! i \<noteq> Waiting \<and> ws ! i \<noteq> To_wait)"
| "closing Draining ws \<longleftrightarrow> (\<forall>i < length ws. ws ! i = Exited)"
| "closing Done ws \<longleftrightarrow> False"

definition control :: "tpool \<Rightarrow> nat list \<Rightarrow> tp_state \<Rightarrow> bool" where
  "control p q st \<longleftrightarrow> (tp_shutdown p = 0 \<longleftrightarrow> tp_destroyer st = Idle)
     \<and> (tp_shutdown p = 0 \<longrightarrow> open_pool q (tp_workers st)) \<and> closing (tp_destroyer st) (tp_workers st)"

text \<open>The tasks of a trace: added, taken from the queue, called, and discarded.\<close>

definition adds :: "event list \<Rightarrow> task list" where
  "adds tr = concat (map (\<lambda>e. case e of Add t \<Rightarrow> [t] | _ \<Rightarrow> []) tr)"

definition takes :: "event list \<Rightarrow> task list" where
  "takes tr = concat (map (\<lambda>e. case e of Take t \<Rightarrow> [t] | _ \<Rightarrow> []) tr)"

definition calls :: "event list \<Rightarrow> task list" where
  "calls tr = concat (map (\<lambda>e. case e of Call t \<Rightarrow> [t] | _ \<Rightarrow> []) tr)"

definition discards :: "event list \<Rightarrow> task list" where
  "discards tr = concat (map (\<lambda>e. case e of Discard t \<Rightarrow> [t] | _ \<Rightarrow> []) tr)"

definition task_at :: "(nat \<rightharpoonup> tpool_work) \<Rightarrow> nat \<Rightarrow> task" where
  "task_at works a = (case works a of None \<Rightarrow> (0, 0) | Some w \<Rightarrow> task_of w)"

definition accounts :: "event list \<Rightarrow> nat list \<Rightarrow> tp_state \<Rightarrow> bool" where
  "accounts tr q st \<longleftrightarrow> adds tr = takes tr @ discards tr @ map (task_at (tp_works st)) q
     \<and> mset (takes tr) = mset (calls tr)
         + mset (map (task_at (tp_works st)) (concat (map pending (tp_workers st))))
     \<and> (tp_destroyer st \<noteq> Draining \<and> tp_destroyer st \<noteq> Done \<longrightarrow> discards tr = [])"

definition tp_ok :: "event list \<Rightarrow> tp_state \<Rightarrow> bool" where
  "tp_ok tr st \<longleftrightarrow> (case tp_pool st of
       None \<Rightarrow> tp_destroyer st = Done \<and> tp_works st = Map.empty
         \<and> (\<forall>i < length (tp_workers st). tp_workers st ! i = Exited) \<and> accounts tr [] st
     | Some p \<Rightarrow> \<exists>q. memory p q st \<and> locking p st \<and> control p q st \<and> accounts tr q st)"

section \<open>Lemmas on the parts of the invariant\<close>

lemma trace_simps [simp]:
  "adds [] = []" "takes [] = []" "calls [] = []" "discards [] = []"
  "adds (tr @ tr') = adds tr @ adds tr'" "takes (tr @ tr') = takes tr @ takes tr'"
  "calls (tr @ tr') = calls tr @ calls tr'" "discards (tr @ tr') = discards tr @ discards tr'"
  "adds [e] = (case e of Add t \<Rightarrow> [t] | _ \<Rightarrow> [])" "takes [e] = (case e of Take t \<Rightarrow> [t] | _ \<Rightarrow> [])"
  "calls [e] = (case e of Call t \<Rightarrow> [t] | _ \<Rightarrow> [])" "discards [e] = (case e of Discard t \<Rightarrow> [t] | _ \<Rightarrow> [])"
  by (simp_all add: adds_def takes_def calls_def discards_def split: event.splits)

lemma list_split_at: "i < length ws \<Longrightarrow> ws ! i = w \<Longrightarrow> \<exists>ys zs. ws = ys @ w # zs \<and> length ys = i"
  using id_take_nth_drop [of i ws] by (intro exI [of _ "take i ws"] exI [of _ "drop (Suc i) ws"]) simp

lemma concat_update:
  assumes "i < length ws" and "ws ! i = w" and "f x = f w"
  shows "concat (map f (ws[i := x])) = concat (map f ws)"
proof -
  obtain ys zs where "ws = ys @ w # zs" "length ys = i" using list_split_at [OF assms(1,2)] by blast
  then show ?thesis using assms(3) by auto
qed

lemma wake_simps [simp]:
  "held (wake w) = held w" "pending (wake w) = pending w" "has_lock (wake w) = has_lock w"
  "wake w = Exited \<longleftrightarrow> w = Exited" "wake w = Leaving \<longleftrightarrow> w = Leaving" "wake w = To_wait \<longleftrightarrow> w = To_wait"
  "wake w \<noteq> Waiting"
  by (cases w; simp)+

lemma cond_signal_simps [simp]:
  "length (cond_signal j ws) = length ws"
  "concat (map held (cond_signal j ws)) = concat (map held ws)"
  "concat (map pending (cond_signal j ws)) = concat (map pending ws)"
  by (simp_all add: cond_signal_def concat_update)

lemma cond_signal_nth: "i < length ws \<Longrightarrow> cond_signal j ws ! i = (if i = j then wake (ws ! i) else ws ! i)"
  by (simp add: cond_signal_def nth_list_update)

lemma chain_cong: "chain works h q \<Longrightarrow> (\<And>a. a \<in> set q \<Longrightarrow> works' a = works a) \<Longrightarrow> chain works' h q"
  by (induction q arbitrary: h) (auto split: option.splits)

lemma chain_None: "chain works h q \<Longrightarrow> h = None \<longleftrightarrow> q = []"
  by (cases q) auto

lemma last_work_chain:
  "chain works (Some b) (b # q) \<Longrightarrow> \<exists>w. last_work works b = Some (Inr (last (b # q))) \<and> works (last (b # q)) = Some w"
proof (induction q arbitrary: b)
  case Nil
  then show ?case by (subst last_work.simps) (auto split: option.splits)
next
  case (Cons c q)
  then obtain w where w: "works b = Some w" "wk_next w = Some c" "chain works (Some c) (c # q)"
    by (auto split: option.splits)
  then have "last_work works b = last_work works c"
    by (subst last_work.simps) simp
  with Cons.IH [OF w(3)] show ?case by simp
qed

lemma chain_append:
  assumes "chain works h q" and "distinct q" and "a \<notin> set q" and "works a = Some \<lparr>wk_routine = r, wk_args = x, wk_next = None\<rparr>"
  shows "\<exists>head works'. append_work works h a = Some (Inr (head, works')) \<and> chain works' head (q @ [a])
    \<and> dom works' = dom works \<and> (\<forall>b. task_at works' b = task_at works b)"
proof (cases q)
  case Nil
  then show ?thesis using assms by (auto simp: append_work_def)
next
  case (Cons b q')
  have extend: "chain works h q \<Longrightarrow> distinct q \<Longrightarrow> a \<notin> set q \<Longrightarrow> q \<noteq> [] \<Longrightarrow> works (last q) = Some w \<Longrightarrow>
      chain (works(last q \<mapsto> w\<lparr>wk_next := Some a\<rparr>)) h (q @ [a])" for h q w
    using assms(4) by (induction q arbitrary: h) (auto split: option.splits if_splits)
  from assms(1) Cons have h: "h = Some b" by simp
  obtain w where w: "works (last q) = Some w" and l: "last_work works b = Some (Inr (last q))"
    using last_work_chain [of works b q'] assms(1) Cons by auto
  have "chain (works(last q \<mapsto> w\<lparr>wk_next := Some a\<rparr>)) h (q @ [a])"
    using extend [OF assms(1,2,3) _ w] Cons by simp
  then show ?thesis using l w h by (auto simp: append_work_def task_at_def task_of_def)
qed

lemma memory_distinct:
  "memory p q st \<Longrightarrow> distinct (q @ concat (map held (tp_workers st)))
     \<and> set q \<union> set (concat (map held (tp_workers st))) = dom (tp_works st)"
proof -
  assume m: "memory p q st"
  then have e: "mset (q @ concat (map held (tp_workers st))) = mset_set (dom (tp_works st))"
    by (simp add: memory_def)
  then have "distinct (q @ concat (map held (tp_workers st)))"
    using m by (auto simp: distinct_count_atmost_1 count_mset_set' memory_def simp flip: set_mset_mset)
  moreover have "set (q @ concat (map held (tp_workers st))) = dom (tp_works st)"
    using m e by (metis finite_set_mset_mset_set memory_def set_mset_mset)
  ultimately show ?thesis by simp
qed

lemma pending_held: "set (concat (map pending ws)) \<subseteq> set (concat (map held ws))"
proof -
  have "set (pending w) \<subseteq> set (held w)" for w by (cases w) auto
  then show ?thesis by fastforce
qed

end
