(* ===== verification/ThreadPoolProofs.thy ===== *)
theory ThreadPoolProofs
  imports ThreadPool
begin

text \<open>
  The invariant of the thread pool is kept by every step of every thread, each step the pool takes
  by itself uses up work, and a pool at rest has called its tasks or is destroyed. The two
  interpretations give these facts for whole runs.
\<close>

section \<open>Every step keeps the invariant\<close>

lemma move_simps [simp]:
  "tp_pool (move i pc p st) = Some p" "tp_works (move i pc p st) = tp_works st"
  "tp_workers (move i pc p st) = (tp_workers st)[i := pc]" "tp_destroyer (move i pc p st) = tp_destroyer st"
  by (simp_all add: move_def)

lemma tp_ok_Some: "tp_pool st = Some p \<Longrightarrow>
    tp_ok tr st \<longleftrightarrow> (\<exists>q. memory p q st \<and> locking p st \<and> control p q st \<and> accounts tr q st)"
  by (simp add: tp_ok_def)

lemma tp_ok_cases:
  assumes "tp_ok tr st"
  obtains p q where "tp_pool st = Some p" "memory p q st" "locking p st" "control p q st" "accounts tr q st"
  | "tp_pool st = None" "tp_destroyer st = Done" "tp_works st = Map.empty"
      "\<And>i. i < length (tp_workers st) \<Longrightarrow> tp_workers st ! i = Exited" "accounts tr [] st"
  using assms by (auto simp: tp_ok_def split: option.splits)

lemma lock_holder: "locking p st \<Longrightarrow> i < length (tp_workers st) \<Longrightarrow> has_lock (tp_workers st ! i) \<Longrightarrow> tp_queue_lock p = Some i"
  by (auto simp: locking_def)

lemma locking_move:
  assumes "locking p st" and "i < length (tp_workers st)"
    and "tp_queue_lock p = None \<or> has_lock (tp_workers st ! i)"
    and "tp_queue_lock p' = (if has_lock pc then Some i else None)" and "tp_maxnum_thread p' = tp_maxnum_thread p"
  shows "locking p' (move i pc p' st)"
  using assms by (auto simp: locking_def nth_list_update)

lemma closing_update:
  "closing d ws \<Longrightarrow> i < length ws \<Longrightarrow> ws ! i \<noteq> Exited \<Longrightarrow> (d \<noteq> Idle \<Longrightarrow> pc \<noteq> To_wait) \<Longrightarrow> pc \<noteq> Waiting \<or> ws ! i = To_wait
    \<Longrightarrow> closing d (ws[i := pc])"
  by (cases d) (auto simp: nth_list_update)

lemma open_pool_update:
  "open_pool q ws \<Longrightarrow> i < length ws \<Longrightarrow> pc \<noteq> Exited \<Longrightarrow> (pc = Leaving \<Longrightarrow> q \<noteq> []) \<Longrightarrow> (pc = To_wait \<or> pc = Waiting \<Longrightarrow> q = [])
    \<Longrightarrow> open_pool q (ws[i := pc])"
  by (auto simp: open_pool_def nth_list_update)

lemma control_update:
  assumes "control p q st" and "i < length (tp_workers st)" and "tp_workers st ! i \<noteq> Exited"
    and "tp_shutdown p' = tp_shutdown p" and "pc = Exited \<Longrightarrow> tp_shutdown p \<noteq> 0"
    and "pc = Leaving \<Longrightarrow> tp_shutdown p = 0 \<Longrightarrow> q \<noteq> []"
    and "pc = To_wait \<Longrightarrow> q = [] \<and> tp_shutdown p = 0"
    and "pc = Waiting \<Longrightarrow> tp_workers st ! i = To_wait"
  shows "control p' q (move i pc p' st)"
proof -
  have "tp_shutdown p = 0 \<Longrightarrow> open_pool q (tp_workers st) \<Longrightarrow> open_pool q ((tp_workers st)[i := pc])"
    using assms by (intro open_pool_update) (auto simp: open_pool_def)
  moreover have "closing (tp_destroyer st) ((tp_workers st)[i := pc])"
    by (rule closing_update) (use assms in \<open>auto simp: control_def\<close>)
  ultimately show ?thesis using assms(1,4) by (simp add: control_def)
qed

text \<open>A change of place alone.\<close>

lemma ok_move:
  assumes ok: "memory p q st" "locking p st" "accounts tr q st"
    and i: "i < length (tp_workers st)" "tp_queue_lock p = None \<or> has_lock (tp_workers st ! i)"
    and same: "held (tp_workers st ! i) = []" "held pc = []" "pending (tp_workers st ! i) = []" "pending pc = []"
    and p': "p' = p\<lparr>tp_queue_lock := if has_lock pc then Some i else None\<rparr>"
    and c: "control p q st" "pc = Exited \<Longrightarrow> tp_shutdown p \<noteq> 0"
      "pc = Leaving \<Longrightarrow> tp_shutdown p = 0 \<Longrightarrow> q \<noteq> []" "pc = To_wait \<Longrightarrow> q = [] \<and> tp_shutdown p = 0"
      "pc = Waiting \<Longrightarrow> tp_workers st ! i = To_wait" "tp_workers st ! i \<noteq> Exited"
  shows "tp_ok (tr @ [Tau]) (move i pc p' st)"
proof -
  have "control p' q (move i pc p' st)"
    by (rule control_update [OF c(1) i(1) c(6)]) (use c p' in auto)
  moreover
  have "memory p' q (move i pc p' st)"
    using ok(1) i(1) same p' by (simp add: memory_def concat_update)
  moreover have "accounts (tr @ [Tau]) q (move i pc p' st)"
    using ok(3) i(1) same by (simp add: accounts_def concat_update)
  moreover have "locking p' (move i pc p' st)"
    by (rule locking_move [OF ok(2) i]) (simp_all add: p')
  ultimately show ?thesis by (auto simp: tp_ok_def)
qed

text \<open>A worker takes the first work of the queue.\<close>

lemma ok_take:
  assumes ok: "memory p (a # q) st" "locking p st" "control p (a # q) st" "accounts tr (a # q) st"
    and i: "i < length (tp_workers st)" "tp_workers st ! i = Leaving" and sd: "tp_shutdown p = 0"
    and w: "tp_works st a = Some w"
    and p': "p' = p\<lparr>tp_head := wk_next w, tp_queue_lock := None\<rparr>"
  shows "tp_ok (tr @ [Take (task_of w)]) (move i (Calling a) p' st)"
proof -
  obtain ys zs where ws: "tp_workers st = ys @ Leaving # zs" "length ys = i"
    using list_split_at [OF i] by blast
  have "memory p' q (move i (Calling a) p' st)"
    using ok(1) w ws p' by (auto simp: memory_def list_update_append)
  moreover have "accounts (tr @ [Take (task_of w)]) q (move i (Calling a) p' st)"
    using ok(3,4) w ws sd by (auto simp: accounts_def task_at_def control_def list_update_append)
  moreover have "locking p' (move i (Calling a) p' st)"
    by (rule locking_move [OF ok(2) i(1)]) (simp_all add: p' i(2))
  moreover have "control p' q (move i (Calling a) p' st)"
  proof -
    have "has_lock (tp_workers st ! j) \<longleftrightarrow> j = i" if "j < length (tp_workers st)" for j
    proof -
      have "tp_queue_lock p = Some i" using lock_holder [OF ok(2) i(1)] i(2) by simp
      then show ?thesis using ok(2) that by (auto simp: locking_def)
    qed
    then have "tp_workers st ! j \<noteq> Leaving \<and> tp_workers st ! j \<noteq> To_wait" if "j < length (tp_workers st)" "j \<noteq> i" for j
      using that by (metis has_lock.simps(2,3))
    then have "open_pool q ((tp_workers st)[i := Calling a])"
      using ok(3) sd i by (auto simp: open_pool_def control_def nth_list_update)
    then show ?thesis using ok(3) sd i p' by (auto simp: control_def)
  qed
  ultimately show ?thesis by (auto simp: tp_ok_def)
qed

text \<open>The routine of a taken work is called, and its block freed.\<close>

lemma ok_call:
  assumes ok: "tp_pool st = Some p" "memory p q st" "locking p st" "control p q st" "accounts tr q st"
    and i: "i < length (tp_workers st)" "tp_workers st ! i = Calling a" and w: "tp_works st a = Some w"
  shows "tp_ok (tr @ [Call (task_of w)]) (st\<lparr>tp_workers := (tp_workers st)[i := Running a]\<rparr>)" (is "tp_ok _ ?st")
proof -
  obtain ys zs where ws: "tp_workers st = ys @ Calling a # zs" "length ys = i"
    using list_split_at [OF i] by blast
  have "memory p q ?st" using ok(2) i by (simp add: memory_def concat_update)
  moreover have "accounts (tr @ [Call (task_of w)]) q ?st"
    using ok(5) w ws by (auto simp: accounts_def task_at_def list_update_append)
  moreover have "locking p ?st"
    using ok(3) i by (auto simp: locking_def nth_list_update)
  moreover have "control p q (move i (Running a) p st)"
    by (rule control_update [OF ok(4) i(1)]) (simp_all add: i)
  then have "control p q ?st" by (simp add: control_def)
  ultimately show ?thesis using ok(1) by (auto simp: tp_ok_def)
qed

lemma ok_free:
  assumes ok: "tp_pool st = Some p" "memory p q st" "locking p st" "control p q st" "accounts tr q st"
    and i: "i < length (tp_workers st)" "tp_workers st ! i = Running a"
  shows "tp_ok (tr @ [Tau]) (st\<lparr>tp_works := (tp_works st)(a := None), tp_workers := (tp_workers st)[i := Locking]\<rparr>)"
    (is "tp_ok _ ?st")
proof -
  obtain ys zs where ws: "tp_workers st = ys @ Running a # zs" "length ys = i"
    using list_split_at [OF i] by blast
  have d: "distinct (q @ concat (map held ys) @ a # concat (map held zs))" and a: "a \<in> dom (tp_works st)"
    using memory_distinct [OF ok(2)] ws by auto
  then have q: "a \<notin> set q" "a \<notin> set (concat (map pending ys))" "a \<notin> set (concat (map pending zs))"
    using pending_held [of ys] pending_held [of zs] by auto
  have "mset_set (dom (tp_works st)) = add_mset a (mset_set (dom (tp_works st) - {a}))"
    using a ok(2) by (intro mset_set.remove) (simp_all add: memory_def)
  then have "memory p q ?st"
    using ok(2) ws q(1) by (auto simp: memory_def list_update_append intro: chain_cong)
  moreover have "accounts (tr @ [Tau]) q ?st"
  proof -
    have t: "map (task_at ((tp_works st)(a := None))) xs = map (task_at (tp_works st)) xs" if "a \<notin> set xs" for xs
      using that by (auto simp: task_at_def)
    show ?thesis using ok(5) ws q by (simp add: accounts_def list_update_append t)
  qed
  moreover have "locking p ?st"
    using ok(3) i by (auto simp: locking_def nth_list_update)
  moreover have "control p q (move i Locking p st)"
    by (rule control_update [OF ok(4) i(1)]) (simp_all add: i)
  then have "control p q ?st" by (simp add: control_def)
  ultimately show ?thesis using ok(1) by (auto simp: tp_ok_def)
qed

lemma held_allocated:
  "memory p q st \<Longrightarrow> i < length (tp_workers st) \<Longrightarrow> a \<in> set (held (tp_workers st ! i)) \<Longrightarrow> \<exists>w. tp_works st a = Some w"
proof -
  assume "memory p q st" "i < length (tp_workers st)" "a \<in> set (held (tp_workers st ! i))"
  then have "a \<in> set (concat (map held (tp_workers st)))" by (auto intro!: bexI [of _ "tp_workers st ! i"])
  then show ?thesis using memory_distinct [OF \<open>memory p q st\<close>] by blast
qed

lemma worker_step_ok:
  assumes ok: "tp_ok tr st" and i: "i < length (tp_workers st)" and r: "work_routine i st = Some r"
  shows "\<exists>e st'. r = Inr (e, st') \<and> tp_ok (tr @ [e]) st'"
  using ok
proof (cases rule: tp_ok_cases)
  case (1 p q)
  note inv = 1(2,3,5)
  show ?thesis
  proof (cases "tp_workers st ! i")
    case Locking
    have "tp_ok (tr @ [Tau]) (move i Testing (p\<lparr>tp_queue_lock := Some i\<rparr>) st)" if "tp_queue_lock p = None"
      by (rule ok_move [OF inv i]) (use that Locking 1(4) in auto)
    then show ?thesis using r Locking 1(1) by (auto simp: work_routine_def with_pool_def split: if_splits)
  next
    case Woken
    have "tp_ok (tr @ [Tau]) (move i Testing (p\<lparr>tp_queue_lock := Some i\<rparr>) st)" if "tp_queue_lock p = None"
      by (rule ok_move [OF inv i]) (use that Woken 1(4) in auto)
    then show ?thesis using r Woken 1(1) by (auto simp: work_routine_def with_pool_def split: if_splits)
  next
    case Testing
    have l: "p\<lparr>tp_queue_lock := Some i\<rparr> = p" using lock_holder [OF 1(3) i] Testing by simp
    have h: "tp_head p = None \<longleftrightarrow> q = []" using 1(2) chain_None by (auto simp: memory_def)
    have "tp_ok (tr @ [Tau]) (move i To_wait p st)" if "tp_head p = None" "tp_shutdown p = 0"
      by (rule ok_move [OF inv i]) (use that h l Testing 1(4) in auto)
    moreover have "tp_ok (tr @ [Tau]) (move i Leaving p st)" if "\<not> (tp_head p = None \<and> tp_shutdown p = 0)"
      by (rule ok_move [OF inv i]) (use that h l Testing 1(4) in auto)
    ultimately show ?thesis using r Testing 1(1) by (auto simp: work_routine_def with_pool_def split: if_splits)
  next
    case To_wait
    have "tp_ok (tr @ [Tau]) (move i Waiting (p\<lparr>tp_queue_lock := None\<rparr>) st)"
      by (rule ok_move [OF inv i]) (use To_wait 1(4) in auto)
    then show ?thesis using r To_wait 1(1) by (auto simp: work_routine_def with_pool_def)
  next
    case Leaving
    show ?thesis
    proof (cases "tp_shutdown p = 0")
      case False
      have "tp_ok (tr @ [Tau]) (move i Exited (p\<lparr>tp_queue_lock := None\<rparr>) st)"
        by (rule ok_move [OF inv i]) (use False Leaving 1(4) in auto)
      then show ?thesis using r Leaving 1(1) False by (auto simp: work_routine_def with_pool_def)
    next
      case True
      then obtain a q' where q: "q = a # q'"
        using 1(4) i Leaving by (cases q) (auto simp: control_def open_pool_def)
      then obtain w where w: "tp_works st a = Some w" "tp_head p = Some a"
        using 1(2) by (auto simp: memory_def split: option.splits)
      show ?thesis
        using r Leaving True 1(1) w ok_take [OF 1(2) [unfolded q] 1(3) 1(4) [unfolded q] 1(5) [unfolded q] i Leaving True w(1) refl]
        by (auto simp: work_routine_def with_pool_def with_work_def)
    qed
  next
    case (Calling a)
    obtain w where w: "tp_works st a = Some w" using held_allocated [OF 1(2) i, of a] Calling by auto
    show ?thesis using r Calling w ok_call [OF 1(1-5) i Calling w] by (auto simp: work_routine_def with_work_def)
  next
    case (Running a)
    obtain w where w: "tp_works st a = Some w" using held_allocated [OF 1(2) i, of a] Running by auto
    show ?thesis using r Running w ok_free [OF 1(1-5) i Running] by (auto simp: work_routine_def)
  qed (use r in \<open>auto simp: work_routine_def\<close>)
next
  case 2
  then show ?thesis using r i by (simp add: work_routine_def)
qed

lemma destroy_call_ok:
  assumes ok: "tp_ok tr st" and r: "destroy_call st = Some r" and live: "tp_destroyer st \<noteq> Done"
  shows "\<exists>e st'. r = Inr (e, st') \<and> tp_ok (tr @ [e]) st'"
  using ok
proof (cases rule: tp_ok_cases)
  case (1 p q)
  let ?p = "p\<lparr>tp_shutdown := 1\<rparr>" and ?st = "st\<lparr>tp_pool := Some (p\<lparr>tp_shutdown := 1\<rparr>), tp_destroyer := Broadcasting\<rparr>"
  have "memory ?p q ?st \<and> locking ?p ?st \<and> control ?p q ?st \<and> accounts (tr @ [Tau]) q ?st" if "tp_shutdown p = 0"
    using 1 that by (auto simp: memory_def locking_def control_def accounts_def)
  then have "tp_ok (tr @ [Tau]) ?st" if "tp_shutdown p = 0" using that by (auto simp: tp_ok_def)
  moreover have "accounts (tr @ [Tau]) q st" using 1(5) by (simp add: accounts_def)
  then have "tp_ok (tr @ [Tau]) st" using 1 by (auto simp: tp_ok_def)
  ultimately show ?thesis using r 1(1) by (auto simp: destroy_call_def with_pool_def split: if_splits)
qed (use live in simp)

lemma all_exited: "(\<And>i. i < length ws \<Longrightarrow> ws ! i = Exited) \<Longrightarrow> concat (map held ws) = [] \<and> concat (map pending ws) = []"
  by (auto simp: in_set_conv_nth)

lemma broadcast_ok:
  assumes ok: "tp_pool st = Some p" "memory p q st" "locking p st" "control p q st" "accounts tr q st"
    and d: "tp_destroyer st = Broadcasting" "tp_queue_lock p = None"
  shows "tp_ok (tr @ [Tau]) (st\<lparr>tp_workers := cond_broadcast (tp_workers st), tp_destroyer := Joining 0\<rparr>)" (is "tp_ok _ ?st")
proof -
  have c: "map held (map wake ws) = map held ws" "map pending (map wake ws) = map pending ws" for ws by auto
  have "\<not> has_lock (tp_workers st ! i)" if "i < length (tp_workers st)" for i
    using ok(3) d(2) that by (auto simp: locking_def)
  then have "tp_workers st ! i \<noteq> To_wait" if "i < length (tp_workers st)" for i
    using that by (metis has_lock.simps(2))
  then have "control p q ?st" using ok(4) d by (simp add: control_def cond_broadcast_def)
  moreover have "memory p q ?st" "accounts (tr @ [Tau]) q ?st" "locking p ?st"
    using ok d c by (simp_all add: memory_def accounts_def locking_def cond_broadcast_def del: map_map)
  ultimately show ?thesis using ok(1) by (auto simp: tp_ok_def)
qed

lemma drain_ok:
  assumes ok: "memory p q st" "locking p st" "control p q st" "accounts tr q st"
    and d: "tp_destroyer st = Draining" and h: "tp_head p = Some a" and w: "tp_works st a = Some w"
  shows "tp_ok (tr @ [Discard (task_of w)])
    (st\<lparr>tp_pool := Some (p\<lparr>tp_head := wk_next w\<rparr>), tp_works := (tp_works st)(a := None)\<rparr>)" (is "tp_ok _ ?st")
proof -
  obtain q' where q: "q = a # q'" using ok(1) h by (cases q) (auto simp: memory_def)
  have ex: "concat (map held (tp_workers st)) = []" "concat (map pending (tp_workers st)) = []"
    using all_exited [of "tp_workers st"] ok(3) d by (auto simp: control_def)
  have a: "a \<notin> set q'" using memory_distinct [OF ok(1)] q by simp
  have "mset_set (dom (tp_works st)) = add_mset a (mset_set (dom (tp_works st) - {a}))"
    using w ok(1) by (intro mset_set.remove) (auto simp: memory_def)
  then have "memory (p\<lparr>tp_head := wk_next w\<rparr>) q' ?st"
    using ok(1) q ex(1) a w by (auto simp: memory_def intro: chain_cong)
  moreover have "accounts (tr @ [Discard (task_of w)]) q' ?st"
    using ok(4) q a w d ex(2) by (auto simp: accounts_def task_at_def)
  moreover have "locking (p\<lparr>tp_head := wk_next w\<rparr>) ?st" "control (p\<lparr>tp_head := wk_next w\<rparr>) q' ?st"
    using ok(2,3) d by (auto simp: locking_def control_def)
  ultimately show ?thesis by (auto simp: tp_ok_def)
qed

lemma drained_ok:
  assumes ok: "memory p q st" "control p q st" "accounts tr q st"
    and d: "tp_destroyer st = Draining" and h: "tp_head p = None"
  shows "tp_ok (tr @ [Tau]) (st\<lparr>tp_pool := None, tp_destroyer := Done\<rparr>)"
proof -
  have ex: "tp_workers st ! i = Exited" if "i < length (tp_workers st)" for i
    using ok(2) d that by (simp add: control_def)
  have "q = []" using ok(1) h chain_None by (auto simp: memory_def)
  moreover have "concat (map held (tp_workers st)) = []" using all_exited [of "tp_workers st"] ex by blast
  ultimately have "dom (tp_works st) = {}"
    using memory_distinct [OF ok(1)] by (simp only: set_simps) simp
  then show ?thesis using ok(3) ex \<open>q = []\<close> by (auto simp: tp_ok_def accounts_def)
qed

lemma destroyer_step_ok:
  assumes ok: "tp_ok tr st" and r: "destroy_tpool st = Some r"
  shows "\<exists>e st'. r = Inr (e, st') \<and> tp_ok (tr @ [e]) st'"
  using ok
proof (cases rule: tp_ok_cases)
  case (1 p q)
  show ?thesis
  proof (cases "tp_destroyer st")
    case Broadcasting
    then show ?thesis using r 1(1) broadcast_ok [OF 1(1-5)]
      by (auto simp: destroy_tpool_def with_pool_def split: if_splits)
  next
    case (Joining j)
    let ?next = "\<lambda>d. st\<lparr>tp_destroyer := d\<rparr>"
    have "tp_ok (tr @ [Tau]) (?next d)" if "d \<noteq> Idle" "closing d (tp_workers st)" for d
    proof -
      have "memory p q (?next d)" "locking p (?next d)" "control p q (?next d)" "accounts (tr @ [Tau]) q (?next d)"
        using 1(2-5) that Joining by (auto simp: memory_def locking_def control_def accounts_def)
      then show ?thesis using 1(1) by (auto simp: tp_ok_def)
    qed
    moreover have "closing (Joining j) (tp_workers st)" "length (tp_workers st) = tp_maxnum_thread p"
      using 1(3,4) Joining by (simp_all add: control_def locking_def)
    ultimately show ?thesis using r 1(1) Joining
      by (auto simp: destroy_tpool_def with_pool_def less_Suc_eq split: if_splits)
  next
    case Draining
    show ?thesis
    proof (cases "tp_head p")
      case None
      then show ?thesis using r 1(1) Draining drained_ok [OF 1(2,4,5) Draining]
        by (auto simp: destroy_tpool_def with_pool_def)
    next
      case (Some a)
      then obtain w where "tp_works st a = Some w"
        using 1(2) by (cases q) (auto simp: memory_def split: option.splits)
      then show ?thesis using r 1(1) Draining Some drain_ok [OF 1(2-5) Draining Some]
        by (auto simp: destroy_tpool_def with_pool_def with_work_def)
    qed
  qed (use r in \<open>auto simp: destroy_tpool_def\<close>)
next
  case 2
  then show ?thesis using r by (simp add: destroy_tpool_def)
qed

lemma signal_open:
  assumes "open_pool q ws" and "may_signal j ws" and "\<And>i. i < length ws \<Longrightarrow> \<not> has_lock (ws ! i)"
  shows "open_pool q' (cond_signal j ws)"
proof -
  have ws: "ws ! i \<noteq> Leaving \<and> ws ! i \<noteq> To_wait" if "i < length ws" for i
    using assms(3) [OF that] by (cases "ws ! i") auto
  have "\<exists>i < length ws. cond_signal j ws ! i \<noteq> Waiting" if "ws \<noteq> []"
  proof (cases "Waiting \<in> set ws")
    case True
    then have "j < length ws" using assms(2) by (simp add: may_signal_def)
    then show ?thesis by (auto simp: cond_signal_nth)
  next
    case False
    moreover have "ws ! 0 \<in> set ws" using that by simp
    ultimately have "ws ! 0 \<noteq> Waiting" by metis
    then have "cond_signal j ws ! 0 \<noteq> Waiting" using that by (simp add: cond_signal_nth)
    then show ?thesis using that by blast
  qed
  moreover have "cond_signal j ws = [] \<longleftrightarrow> ws = []" by (simp add: cond_signal_def)
  moreover have "\<forall>i < length ws. cond_signal j ws ! i \<noteq> Exited \<and> cond_signal j ws ! i \<noteq> Leaving \<and> cond_signal j ws ! i \<noteq> To_wait"
    using assms(1) ws by (auto simp: open_pool_def cond_signal_nth)
  ultimately show ?thesis by (simp add: open_pool_def)
qed

lemma signal_closing: "closing d ws \<Longrightarrow> closing d (cond_signal j ws)"
  by (cases d) (auto simp: cond_signal_nth)

lemma add_ok:
  assumes ok: "tp_ok tr st" and live: "tp_destroyer st \<noteq> Done" and a: "pred_option (\<lambda>a. tp_works st a = None) block"
    and j: "may_signal j (tp_workers st)" and r: "add_task_2_tpool block j routine args st = Some r"
  shows "\<exists>v e st'. r = Inr (v, e, st') \<and> tp_ok (tr @ [e]) st'"
  using ok
proof (cases rule: tp_ok_cases)
  case (1 p q)
  have "accounts (tr @ [Tau]) q st" using 1(5) by (simp add: accounts_def)
  then have same: "tp_ok (tr @ [Tau]) st" using 1 by (auto simp: tp_ok_def)
  show ?thesis
  proof (cases "routine = 0 \<or> block = None")
    case True
    then show ?thesis using r same by (auto simp: add_task_2_tpool_def split: if_splits)
  next
    case False
    then obtain b where b: "block = Some b" "tp_works st b = None" "routine \<noteq> 0" using a by auto
    then have l: "tp_queue_lock p = None"
      using r 1(1) by (auto simp: add_task_2_tpool_def with_pool_def split: if_splits)
    let ?w = "\<lparr>wk_routine = routine, wk_args = args, wk_next = None\<rparr>"
    let ?works = "(tp_works st)(b \<mapsto> ?w)"
    have nb: "b \<notin> set q" "b \<notin> set (concat (map pending (tp_workers st)))" "distinct q"
    proof -
      have "b \<notin> dom (tp_works st)" using b(2) by (simp add: domIff)
      then show "b \<notin> set q" "b \<notin> set (concat (map pending (tp_workers st)))" "distinct q"
        using memory_distinct [OF 1(2)] pending_held [of "tp_workers st"] by (blast, blast, simp)
    qed
    have "chain ?works (tp_head p) q"
      using 1(2) nb by (auto simp: memory_def intro: chain_cong)
    then obtain head works' where new: "append_work ?works (tp_head p) b = Some (Inr (head, works'))"
      "chain works' head (q @ [b])" "dom works' = dom ?works" "\<And>c. task_at works' c = task_at ?works c"
      using chain_append [of ?works "tp_head p" q b routine args] nb by auto
    let ?p = "p\<lparr>tp_head := head\<rparr>"
    let ?st = "st\<lparr>tp_pool := Some ?p, tp_works := works', tp_workers := cond_signal j (tp_workers st)\<rparr>"
    have nl: "\<not> has_lock (tp_workers st ! i)" if "i < length (tp_workers st)" for i
      using 1(3) l that by (auto simp: locking_def)
    have "memory ?p (q @ [b]) ?st"
      using 1(2) new(2,3) b(2) by (simp add: memory_def domIff)
    moreover have "locking ?p ?st"
      using 1(3) by (auto simp: locking_def cond_signal_nth)
    moreover have "control ?p (q @ [b]) ?st"
      using 1(4) signal_open [OF _ j nl] signal_closing by (auto simp: control_def)
    moreover have "accounts (tr @ [Add (routine, args)]) (q @ [b]) ?st"
    proof -
      have t: "map (task_at works') xs = map (task_at (tp_works st)) xs" if "b \<notin> set xs" for xs
        using that new(4) by (auto simp: task_at_def)
      have "task_at works' b = (routine, args)" using new(4) [of b] by (simp add: task_at_def task_of_def)
      moreover have "discards tr = [] \<or> tp_destroyer st = Draining" using 1(5) live by (auto simp: accounts_def)
      ultimately show ?thesis using 1(5) live arg_cong [OF t [OF nb(2)], of mset] by (simp add: accounts_def t nb)
    qed
    ultimately have "tp_ok (tr @ [Add (routine, args)]) ?st" by (auto simp: tp_ok_def)
    then show ?thesis using r 1(1) b l new(1) by (auto simp: add_task_2_tpool_def with_pool_def)
  qed
qed (use live in simp)

lemma spurious_ok:
  assumes ok: "tp_ok tr st" and i: "i < length (tp_workers st)" "tp_workers st ! i = Waiting"
  shows "tp_ok (tr @ [Tau]) (st\<lparr>tp_workers := (tp_workers st)[i := Woken]\<rparr>)" (is "tp_ok _ ?st")
  using ok
proof (cases rule: tp_ok_cases)
  case (1 p q)
  have "memory p q ?st" "accounts (tr @ [Tau]) q ?st"
    using 1(2,5) i by (simp_all add: memory_def accounts_def concat_update)
  moreover have "locking p ?st" using 1(3) i by (auto simp: locking_def nth_list_update)
  moreover have "control p q (move i Woken p st)"
    by (rule control_update [OF 1(4) i(1)]) (simp_all add: i)
  then have "control p q ?st" by (simp add: control_def)
  ultimately show ?thesis using 1(1) by (auto simp: tp_ok_def)
next
  case 2
  then show ?thesis using i by simp
qed

lemma create_threads_result: "create_threads fails i n = Inr ws \<Longrightarrow> ws = replicate n Locking"
  by (induction n arbitrary: i ws) (auto simp: bindE_Inr_iff split: if_splits)

lemma create_tpool_ok:
  assumes "create_tpool fails n = Inr (v, st)"
  shows "v = 0 \<and> tp_ok [] st \<and> length (tp_workers st) = n \<and> tp_destroyer st = Idle"
  using assms create_threads_result [of fails 0 n]
  by (auto simp: create_tpool_def bindE_Inr_iff tp_ok_def memory_def locking_def control_def accounts_def
      open_pool_def split: if_splits)

section \<open>Progress\<close>

text \<open>The steps that are left without new tasks: five for each block, and for each worker the
  steps to its next rest.\<close>

fun weight :: "bool \<Rightarrow> worker \<Rightarrow> nat" where
  "weight shut Locking = 4"
| "weight shut Woken = 4"
| "weight shut Testing = 3"
| "weight shut Leaving = 2"
| "weight shut (Calling a) = 1"
| "weight shut (Running a) = 0"
| "weight shut To_wait = (if shut then 6 else 1)"
| "weight shut Waiting = (if shut then 5 else 0)"
| "weight shut Exited = 0"

fun destroyer_weight :: "nat \<Rightarrow> destroyer \<Rightarrow> nat" where
  "destroyer_weight n Idle = 0"
| "destroyer_weight n Broadcasting = n + 3"
| "destroyer_weight n (Joining j) = n - j + 2"
| "destroyer_weight n Draining = 1"
| "destroyer_weight n Done = 0"

definition work_left :: "tp_state \<Rightarrow> nat" where
  "work_left st = 5 * card (dom (tp_works st))
     + sum_list (map (weight (tp_destroyer st \<noteq> Idle)) (tp_workers st))
     + destroyer_weight (length (tp_workers st)) (tp_destroyer st)"

lemma sum_update:
  fixes f :: "'a \<Rightarrow> nat"
  assumes "i < length ws" and "ws ! i = w"
  shows "sum_list (map f (ws[i := x])) + f w = sum_list (map f ws) + f x"
proof -
  obtain ys zs where "ws = ys @ w # zs" "length ys = i" using list_split_at [OF assms] by blast
  then show ?thesis by (auto simp: list_update_append)
qed

lemma left_move:
  assumes "i < length (tp_workers st)" and "weight (tp_destroyer st \<noteq> Idle) pc < weight (tp_destroyer st \<noteq> Idle) (tp_workers st ! i)"
    and "tp_works st' = tp_works st" and "tp_workers st' = (tp_workers st)[i := pc]" and "tp_destroyer st' = tp_destroyer st"
  shows "work_left st' < work_left st"
  using sum_update [OF assms(1) refl, of "weight (tp_destroyer st \<noteq> Idle)" pc] assms(2-) by (simp add: work_left_def)

lemma left_free:
  assumes "finite (dom (tp_works st))" and "i < length (tp_workers st)" and "tp_workers st ! i = Running a" and "tp_works st a \<noteq> None"
  shows "work_left (st\<lparr>tp_works := (tp_works st)(a := None), tp_workers := (tp_workers st)[i := Locking]\<rparr>) < work_left st"
proof -
  have "card (dom (tp_works st)) = Suc (card (dom (tp_works st) - {a}))"
    using assms(1,4) by (intro card.remove) auto
  then show ?thesis
    using sum_update [OF assms(2,3), of "weight (tp_destroyer st \<noteq> Idle)" Locking] by (simp add: work_left_def)
qed

lemma ok_finite: "tp_ok tr st \<Longrightarrow> finite (dom (tp_works st))"
  by (erule tp_ok_cases) (auto simp: memory_def)

lemma ok_closed: "tp_ok tr st \<Longrightarrow> tp_pool st = Some p \<Longrightarrow> tp_shutdown p = 0 \<longleftrightarrow> tp_destroyer st = Idle"
  by (auto simp: tp_ok_def control_def)

lemma worker_left:
  assumes ok: "tp_ok tr st" and i: "i < length (tp_workers st)" and r: "work_routine i st = Some (Inr (e, st'))"
  shows "work_left st' < work_left st"
proof (cases "tp_workers st ! i")
  case (Running a)
  then show ?thesis using r left_free [OF ok_finite [OF ok] i Running]
    by (auto simp: work_routine_def split: if_splits)
next
  case Testing
  then show ?thesis using r ok_closed [OF ok] left_move [OF i, of To_wait st'] left_move [OF i, of Leaving st']
    by (auto simp: work_routine_def with_pool_def split: option.splits if_splits)
next
  case Leaving
  then show ?thesis using r left_move [OF i, of "Calling _" st'] left_move [OF i, of Exited st']
    by (auto simp: work_routine_def with_pool_def with_work_def split: option.splits if_splits)
next
  case (Calling a)
  then show ?thesis using r left_move [OF i, of "Running a" st']
    by (auto simp: work_routine_def with_work_def split: option.splits)
qed (use r left_move [OF i, of Testing st'] left_move [OF i, of Waiting st'] in
      \<open>auto simp: work_routine_def with_pool_def with_work_def split: option.splits if_splits\<close>)

lemma wake_weight: "weight True (wake w) \<le> weight True w"
  by (cases w) auto

lemma destroyer_left:
  assumes ok: "tp_ok tr st" and r: "destroy_tpool st = Some (Inr (e, st'))"
  shows "work_left st' < work_left st"
proof (cases "tp_destroyer st")
  case Broadcasting
  have "sum_list (map (weight True) (cond_broadcast ws)) \<le> sum_list (map (weight True) ws)" for ws
    by (induction ws) (auto simp: cond_broadcast_def intro: add_mono wake_weight)
  then show ?thesis using r Broadcasting
    by (auto simp: destroy_tpool_def with_pool_def work_left_def cond_broadcast_def le_imp_less_Suc
        split: option.splits if_splits)
next
  case (Joining j)
  then show ?thesis using r ok
    by (auto simp: destroy_tpool_def with_pool_def work_left_def tp_ok_def locking_def split: option.splits if_splits)
next
  case Draining
  have "card (dom (tp_works st)) = Suc (card (dom (tp_works st) - {a}))" if "tp_works st a = Some w" for a w
    using that ok_finite [OF ok] by (intro card.remove) auto
  then show ?thesis using r Draining
    by (auto simp: destroy_tpool_def with_pool_def with_work_def work_left_def split: option.splits)
qed (use r in \<open>auto simp: destroy_tpool_def\<close>)

text \<open>At rest every worker sleeps, or has exited with the pool destroyed.\<close>

lemma worker_moves:
  assumes "tp_pool st = Some p" "memory p q st" "control p q st"
    and i: "i < length (tp_workers st)" and l: "has_lock (tp_workers st ! i) \<or> tp_queue_lock p = None"
    and "tp_workers st ! i \<noteq> Waiting" "tp_workers st ! i \<noteq> Exited"
  shows "\<exists>e st'. work_routine i st = Some (Inr (e, st'))"
proof (cases "tp_workers st ! i")
  case Leaving
  then have "tp_shutdown p = 0 \<Longrightarrow> q \<noteq> []" using assms by (auto simp: control_def open_pool_def)
  then show ?thesis using assms Leaving
    by (cases q) (auto simp: work_routine_def with_pool_def with_work_def memory_def split: option.splits)
next
  case (Calling a)
  then show ?thesis using held_allocated [OF assms(2) i, of a] by (auto simp: work_routine_def with_work_def)
next
  case (Running a)
  then show ?thesis using held_allocated [OF assms(2) i, of a] by (auto simp: work_routine_def)
qed (use assms in \<open>auto simp: work_routine_def with_pool_def\<close>)

lemma rest_workers:
  assumes ok: "tp_pool st = Some p" "memory p q st" "locking p st" "control p q st" and rest: "at_rest tp_own st"
  shows "tp_queue_lock p = None \<and> (\<forall>i < length (tp_workers st). tp_workers st ! i = Waiting \<or> tp_workers st ! i = Exited)"
proof -
  have stuck: "work_routine i st \<noteq> Some (Inr (e, st'))" if "i < length (tp_workers st)" for i e st'
    using rest that worker [of i st] by (fastforce simp: at_rest_def tp_own_def)
  have "tp_queue_lock p \<noteq> Some i" for i
  proof
    assume "tp_queue_lock p = Some i"
    then have i: "i < length (tp_workers st)" "has_lock (tp_workers st ! i)" using ok(3) by (auto simp: locking_def)
    then have "tp_workers st ! i \<noteq> Waiting" "tp_workers st ! i \<noteq> Exited" by (metis has_lock.simps)+
    then show False using worker_moves [OF ok(1,2,4) i(1)] i(2) stuck [OF i(1)] by blast
  qed
  then have "tp_queue_lock p = None" by auto
  then show ?thesis using worker_moves [OF ok(1,2,4)] stuck by blast
qed

lemma destroyer_moves:
  assumes "tp_pool st = Some p" "memory p q st" "tp_queue_lock p = None" "length (tp_workers st) = tp_maxnum_thread p"
    and d: "tp_destroyer st \<noteq> Idle" "tp_destroyer st \<noteq> Done"
    and "\<And>j. tp_destroyer st = Joining j \<Longrightarrow> \<forall>i < length (tp_workers st). tp_workers st ! i = Exited"
  shows "\<exists>e st'. destroy_tpool st = Some (Inr (e, st'))"
proof (cases "tp_destroyer st")
  case (Joining j)
  then show ?thesis using assms by (cases "j < tp_maxnum_thread p") (auto simp: destroy_tpool_def with_pool_def)
next
  case Draining
  then show ?thesis using assms
    by (cases q) (auto simp: destroy_tpool_def with_pool_def with_work_def memory_def split: option.splits)
qed (use assms in \<open>auto simp: destroy_tpool_def with_pool_def\<close>)

lemma rest_closed:
  assumes ok: "tp_ok tr st" and rest: "at_rest tp_own st" and d: "tp_destroyer st \<noteq> Idle"
  shows "tp_destroyer st = Done"
  using ok
proof (cases rule: tp_ok_cases)
  case (1 p q)
  note w = rest_workers [OF 1(1-4) rest]
  have stuck: "destroy_tpool st \<noteq> Some (Inr (e, st'))" for e st'
    using rest destroyer [of st] by (fastforce simp: at_rest_def tp_own_def)
  have "\<forall>i < length (tp_workers st). tp_workers st ! i = Exited" if "tp_destroyer st = Joining j" for j
    using w 1(4) that by (auto simp: control_def)
  then show ?thesis
    using destroyer_moves [OF 1(1,2) _ _ d] w 1(3) stuck by (auto simp: locking_def)
qed

section \<open>The pool as a transition system\<close>

inductive_cases tp_step_worker: "tp_step st (Worker i) r"
inductive_cases tp_step_destroyer: "tp_step st Destroyer r"
inductive_cases tp_step_client: "tp_step st Client r"
inductive_cases tp_step_system: "tp_step st System r"

lemma tp_step_ok:
  assumes "tp_ok tr st" and "tp_step st who r" and "who = Client \<Longrightarrow> tp_destroyer st \<noteq> Done"
  shows "\<exists>e st'. r = Inr (e, st') \<and> tp_ok (tr @ [e]) st'"
  using assms(2)
proof cases
  case (add block j routine args r')
  then show ?thesis using add_ok [OF assms(1)] assms(3) by fastforce
qed (use assms worker_step_ok destroyer_step_ok destroy_call_ok spurious_ok in blast)+

lemma done_call_fails:
  assumes "tp_ok tr st" and "tp_destroyer st = Done" and "tp_step st Client r"
  shows "r = Inl UseAfterFree \<or> r = Inr (Tau, st)"
proof -
  have "tp_pool st = None" using assms(1,2) by (cases rule: tp_ok_cases) (auto simp: control_def)
  then show ?thesis using assms(3)
    by (auto elim!: tp_step_client simp: destroy_call_def add_task_2_tpool_def with_pool_def split: if_splits option.splits)
qed

lemma tp_next_ok: "tp_ok tr st \<Longrightarrow> tp_next st e st' \<Longrightarrow> tp_ok (tr @ [e]) st'"
proof -
  assume ok: "tp_ok tr st" and "tp_next st e st'"
  then obtain who where s: "tp_step st who (Inr (e, st'))" by (auto simp: tp_next_def)
  show ?thesis
  proof (cases "who = Client \<and> tp_destroyer st = Done")
    case True
    then have "e = Tau \<and> st' = st" using done_call_fails [OF ok] s by blast
    then show ?thesis using ok by (auto simp: tp_ok_def accounts_def split: option.splits)
  next
    case False
    then show ?thesis using tp_step_ok [OF ok s] by auto
  qed
qed

lemma tp_own_next: "tp_own st e st' \<Longrightarrow> tp_next st e st'"
  by (auto simp: tp_own_def tp_next_def)

lemma tp_own_left:
  assumes "tp_ok tr st" and "tp_own st e st'"
  shows "work_left st' < work_left st"
proof -
  obtain who where who: "tp_step st who (Inr (e, st'))" "who \<noteq> Client" "who = System \<Longrightarrow> tp_destroyer st \<noteq> Idle"
    using assms(2) by (auto simp: tp_own_def)
  from who(1) show ?thesis
  proof cases
    case (spurious i)
    then show ?thesis using who(3) left_move [of i st Woken st'] by simp
  qed (use who worker_left [OF assms(1)] destroyer_left [OF assms(1)] in blast)+
qed

interpretation pool: history_invariant tp_next tp_ok
  by unfold_locales (rule tp_next_ok)

interpretation threads: ending_system tp_own tp_ok work_left
  by unfold_locales (auto dest: tp_own_next intro: tp_next_ok tp_own_left)

lemma idle_kept: "tp_own st e st' \<Longrightarrow> tp_destroyer st' = Idle \<longleftrightarrow> tp_destroyer st = Idle"
proof -
  have w: "worker_step i pc st = Some (Inr (e, st')) \<Longrightarrow> tp_destroyer st' = tp_destroyer st" for i pc
    by (cases pc) (auto simp: with_pool_def with_work_def split: option.splits if_splits)
  have d: "destroyer_step pc st = Some (Inr (e, st')) \<Longrightarrow> tp_destroyer st = pc \<Longrightarrow> tp_destroyer st' \<noteq> Idle \<and> tp_destroyer st \<noteq> Idle" for pc
    by (cases pc) (auto simp: with_pool_def with_work_def split: option.splits if_splits)
  assume "tp_own st e st'"
  then obtain who where who: "tp_step st who (Inr (e, st'))" "who \<noteq> Client" by (auto simp: tp_own_def)
  from who(1) show ?thesis
  proof cases
    case (worker i)
    then show ?thesis using w [of i "tp_workers st ! i"] by (simp add: work_routine_def)
  next
    case destroyer
    then show ?thesis using d [of "tp_destroyer st"] by (simp add: destroy_tpool_def)
  qed (use who(2) in auto)
qed

lemma idle_kept_run: "run tp_own st tr st' \<Longrightarrow> tp_destroyer st' = Idle \<longleftrightarrow> tp_destroyer st = Idle"
  by (induction rule: run.induct) (auto dest: idle_kept)

end
