(* ===== verification/ThreadPoolProperties.thy ===== *)
theory ThreadPoolProperties
  imports ThreadPoolProofs
begin

text \<open>
  What the thread pool promises, over all interleavings: order and memory safety, every task
  called, and the end of \<open>destroy_tpool\<close>.
\<close>

section \<open>Properties\<close>

lemma reached_ok: "create_tpool fails n = Inr (v, st0) \<Longrightarrow> run tp_next st0 tr st \<Longrightarrow> tp_ok tr st"
  using pool.kept_by_run [of st0 tr st "[]"] create_tpool_ok by fastforce

lemma own_run_next: "run tp_own st tr st' \<Longrightarrow> run tp_next st tr st'"
  using run_mono [of tp_own st tr st' tp_next] tp_own_next by blast

lemma own_run_ok: "tp_ok tr st \<Longrightarrow> run tp_own st tr' st' \<Longrightarrow> tp_ok (tr @ tr') st'"
  using pool.kept_by_run [OF own_run_next] by blast

lemma workers_kept: "tp_next st e st' \<Longrightarrow> length (tp_workers st') = length (tp_workers st)"
proof -
  have w: "worker_step i pc st = Some (Inr (e, st')) \<Longrightarrow> length (tp_workers st') = length (tp_workers st)" for i pc
    by (cases pc) (auto simp: with_pool_def with_work_def split: option.splits if_splits)
  have d: "destroyer_step pc st = Some (Inr (e, st')) \<Longrightarrow> length (tp_workers st') = length (tp_workers st)" for pc
    by (cases pc) (auto simp: with_pool_def with_work_def cond_broadcast_def split: option.splits if_splits)
  have a: "add_task_2_tpool b j r x st = Some (Inr (v, e, st')) \<Longrightarrow> length (tp_workers st') = length (tp_workers st)" for b j r x v
    by (auto simp: add_task_2_tpool_def with_pool_def bindP_Inr_iff split: option.splits if_splits)
  assume "tp_next st e st'"
  then obtain who where "tp_step st who (Inr (e, st'))" by (auto simp: tp_next_def)
  then show ?thesis
  proof cases
    case (add block j routine args r)
    then show ?thesis using a by (cases r) (auto simp: prod_eq_iff)
  qed (use w d in \<open>auto simp: work_routine_def destroy_tpool_def destroy_call_def with_pool_def split: option.splits if_splits\<close>)
qed

lemma workers_kept_run: "run tp_next st tr st' \<Longrightarrow> length (tp_workers st') = length (tp_workers st)"
  by (induction rule: run.induct) (auto dest: workers_kept)

lemma rest_open:
  assumes ok: "tp_ok tr st" and rest: "at_rest tp_own st" and idle: "tp_destroyer st = Idle" and n: "tp_workers st \<noteq> []"
  shows "mset (calls tr) = mset (adds tr)"
  using ok
proof (cases rule: tp_ok_cases)
  case (1 p q)
  have o: "open_pool q (tp_workers st)" using 1(4) idle by (simp add: control_def)
  have w: "tp_workers st ! i = Waiting" if "i < length (tp_workers st)" for i
    using rest_workers [OF 1(1-4) rest] o that by (auto simp: open_pool_def)
  then have "q = []" using o n by (auto simp: open_pool_def)
  moreover have "concat (map pending (tp_workers st)) = []"
    using w by (auto simp: in_set_conv_nth)
  ultimately show ?thesis using 1(5) idle by (simp add: accounts_def)
qed (use idle in simp)


definition sample_pool :: tp_state where
  "sample_pool = \<lparr>tp_pool = Some \<lparr>tp_shutdown = 0, tp_maxnum_thread = 1, tp_head = None, tp_queue_lock = None\<rparr>,
     tp_works = Map.empty, tp_workers = [Locking], tp_destroyer = Idle\<rparr>"

definition sample_busy :: tp_state where
  "sample_busy = \<lparr>tp_pool = Some \<lparr>tp_shutdown = 0, tp_maxnum_thread = 1, tp_head = Some 0, tp_queue_lock = None\<rparr>,
     tp_works = [0 \<mapsto> \<lparr>wk_routine = 1, wk_args = 7, wk_next = None\<rparr>], tp_workers = [Locking], tp_destroyer = Idle\<rparr>"

definition sample_closed :: tp_state where
  "sample_closed = sample_busy\<lparr>tp_pool := Some \<lparr>tp_shutdown = 1, tp_maxnum_thread = 1, tp_head = Some 0, tp_queue_lock = None\<rparr>,
     tp_destroyer := Broadcasting\<rparr>"

lemma sample_pool_created: "create_tpool (\<lambda>_. False) 1 = Inr (0, sample_pool)"
  by (simp add: create_tpool_def sample_pool_def eval_nat_numeral)

lemma sample_run: "run tp_next sample_pool [Add (1, 7)] sample_busy"
proof -
  have "add_task_2_tpool (Some 0) 0 1 7 sample_pool = Some (Inr (0, Add (1, 7), sample_busy))"
    by (simp add: add_task_2_tpool_def sample_pool_def sample_busy_def with_pool_def append_work_def cond_signal_def)
  then have "tp_step sample_pool Client (Inr (Add (1, 7), sample_busy))"
    using add [of sample_pool "Some 0" 0 1 7] by (simp add: sample_pool_def may_signal_def)
  then show ?thesis by (auto simp: tp_next_def)
qed

lemma sample_closing_run: "run tp_next sample_pool [Add (1, 7), Tau] sample_closed"
proof -
  have "destroy_call sample_busy = Some (Inr (Tau, sample_closed))"
    by (simp add: destroy_call_def sample_busy_def sample_closed_def with_pool_def)
  then have "run tp_next sample_busy [Tau] sample_closed"
    using destroy by (auto simp: tp_next_def)
  then show ?thesis using run_append [OF sample_run] by fastforce
qed


text \<open>C10. Every task added to an open pool is called: left to itself, a pool with at least one worker
  takes at most \<open>work_left\<close> further steps, comes to rest, and by then the tasks called are
  exactly the tasks added. No signal is lost.\<close>

theorem tpool_tasks_called:
  assumes "create_tpool fails n = Inr (v, st0)" and "0 < n" and "run tp_next st0 tr st" and "tp_destroyer st = Idle"
  shows "(\<forall>tr' st'. run tp_own st tr' st' \<longrightarrow> length tr' \<le> work_left st
      \<and> (at_rest tp_own st' \<longrightarrow> mset (calls (tr @ tr')) = mset (adds (tr @ tr'))))
    \<and> (\<exists>tr' st'. run tp_own st tr' st' \<and> at_rest tp_own st')"
proof -
  have ok: "tp_ok tr st" by (rule reached_ok [OF assms(1,3)])
  have "mset (calls (tr @ tr')) = mset (adds (tr @ tr'))" if "run tp_own st tr' st'" "at_rest tp_own st'" for tr' st'
  proof (rule rest_open [OF own_run_ok [OF ok that(1)] that(2)])
    show "tp_destroyer st' = Idle" using idle_kept_run [OF that(1)] assms(4) by simp
    show "tp_workers st' \<noteq> []"
      using workers_kept_run [OF own_run_next [OF that(1)]] workers_kept_run [OF assms(3)] create_tpool_ok [OF assms(1)] assms(2)
      by auto
  qed
  then show ?thesis
    using threads.run_bounded [OF _ ok] threads.comes_to_rest [OF ok] by fastforce
qed

lemma tpool_tasks_called_witness:
  "\<exists>tr' st'. run tp_own sample_busy tr' st' \<and> length tr' \<le> 9 \<and> mset (calls tr') = {#(1, 7)#} + mset (adds tr')"
proof -
  have left: "work_left sample_busy = 9" by (simp add: work_left_def sample_busy_def)
  have idle: "tp_destroyer sample_busy = Idle" by (simp add: sample_busy_def)
  note called = tpool_tasks_called [OF sample_pool_created zero_less_one sample_run idle]
  then obtain tr' st' where r: "run tp_own sample_busy tr' st'" "at_rest tp_own st'" by blast
  with called left have "length tr' \<le> 9" "mset (calls ([Add (1, 7)] @ tr')) = mset (adds ([Add (1, 7)] @ tr'))"
    by (metis, blast)
  with r show ?thesis by (intro exI [of _ tr'] exI [of _ st']) (simp del: append_Cons append_Nil)
qed

text \<open>C11. \<open>destroy_tpool\<close> returns under every schedule: once it is called, the threads take at most
  \<open>work_left\<close> further steps, spurious wake-ups included, and at rest it has returned, every
  worker has exited, every block is freed, every task that was taken has been called, and the
  tasks still queued have been discarded without a call.\<close>

theorem tpool_destroy_returns:
  assumes "create_tpool fails n = Inr (v, st0)" and "run tp_next st0 tr st" and "tp_destroyer st \<noteq> Idle"
  shows "(\<forall>tr' st'. run tp_own st tr' st' \<longrightarrow> length tr' \<le> work_left st
      \<and> (at_rest tp_own st' \<longrightarrow> tp_destroyer st' = Done \<and> tp_pool st' = None \<and> tp_works st' = Map.empty
          \<and> set (tp_workers st') \<subseteq> {Exited}
          \<and> adds (tr @ tr') = takes (tr @ tr') @ discards (tr @ tr')
          \<and> mset (calls (tr @ tr')) = mset (takes (tr @ tr'))))
    \<and> (\<exists>tr' st'. run tp_own st tr' st' \<and> at_rest tp_own st')"
proof -
  have ok: "tp_ok tr st" by (rule reached_ok [OF assms(1,2)])
  have "tp_destroyer st' = Done \<and> tp_pool st' = None \<and> tp_works st' = Map.empty \<and> set (tp_workers st') \<subseteq> {Exited}
      \<and> adds (tr @ tr') = takes (tr @ tr') @ discards (tr @ tr') \<and> mset (calls (tr @ tr')) = mset (takes (tr @ tr'))"
    if r: "run tp_own st tr' st'" "at_rest tp_own st'" for tr' st'
  proof -
    note ok' = own_run_ok [OF ok r(1)]
    have d: "tp_destroyer st' = Done"
      using rest_closed [OF ok' r(2)] idle_kept_run [OF r(1)] assms(3) by blast
    from ok' show ?thesis
    proof (cases rule: tp_ok_cases)
      case 2
      have "concat (map pending (tp_workers st')) = []" "set (tp_workers st') \<subseteq> {Exited}"
        using 2(4) by (auto simp: in_set_conv_nth)
      then show ?thesis using 2 d by (simp add: accounts_def)
    qed (use d in \<open>simp add: control_def\<close>)
  qed
  then show ?thesis
    using threads.run_bounded [OF _ ok] threads.comes_to_rest [OF ok] by fastforce
qed

lemma tpool_destroy_returns_witness:
  "\<exists>tr' st'. run tp_own sample_closed tr' st' \<and> length tr' \<le> 13 \<and> tp_destroyer st' = Done \<and> tp_works st' = Map.empty"
proof -
  have left: "work_left sample_closed = 13" by (simp add: work_left_def sample_closed_def sample_busy_def)
  have d: "tp_destroyer sample_closed \<noteq> Idle" by (simp add: sample_closed_def)
  show ?thesis
    using tpool_destroy_returns [OF sample_pool_created sample_closing_run d] left by fastforce
qed

end
