(* ===== verification/DnsPrint.thy ===== *)
theory DnsPrint
  imports DnsCodec Printf
begin

text \<open>
  Debug output of \<open>src/src/common.c\<close>: \<open>debugstr\<close>, \<open>bit_to_str\<close> and the \<open>sprint_dns\<close> functions,
  which format a message into a buffer. Automatic variables hold arbitrary bytes and are
  arguments.
\<close>

section \<open>Names of fields and values\<close>

datatype DEBUG_PRINT_TYPE =
    DEBUG_PRINT_TYPE_qr | DEBUG_PRINT_TYPE_opcode | DEBUG_PRINT_TYPE_aa | DEBUG_PRINT_TYPE_tc
  | DEBUG_PRINT_TYPE_rd | DEBUG_PRINT_TYPE_ra | DEBUG_PRINT_TYPE_z | DEBUG_PRINT_TYPE_ad
  | DEBUG_PRINT_TYPE_cd | DEBUG_PRINT_TYPE_rcode | DEBUG_PRINT_TYPE_qdcount | DEBUG_PRINT_TYPE_ancount
  | DEBUG_PRINT_TYPE_nscount | DEBUG_PRINT_TYPE_arcount | DEBUG_PRINT_TYPE_type | DEBUG_PRINT_TYPE_class

fun debugstr :: "DEBUG_PRINT_TYPE \<Rightarrow> int \<Rightarrow> cstring" where
  "debugstr DEBUG_PRINT_TYPE_qr v =
     (if v = 0 then str ''Message is a query'' else str ''Message is a response'')"
| "debugstr DEBUG_PRINT_TYPE_opcode v =
     (if v = 0 then str ''Standard query (0)''
      else if v = 1 then str ''Reverse query (1)''
      else str ''Unknow'')"
| "debugstr DEBUG_PRINT_TYPE_aa v =
     (if v = 0 then str ''Server is not an authority for domain''
      else str ''Server is an authority for domain'')"
| "debugstr DEBUG_PRINT_TYPE_tc v =
     (if v = 0 then str ''Message is not truncated'' else str ''Message is truncated'')"
| "debugstr DEBUG_PRINT_TYPE_rd v =
     (if v = 0 then str ''Can't do recursively'' else str ''Do query recursively'')"
| "debugstr DEBUG_PRINT_TYPE_ra v =
     (if v = 0 then str ''Can't do recursively'' else str ''Do query recursively'')"
| "debugstr DEBUG_PRINT_TYPE_z v = str ''reserved (0)''"
| "debugstr DEBUG_PRINT_TYPE_ad v =
     (if v = 0 then str ''Answer/authority portion was not authenticated by the server''
      else str ''Answer/authority portion was authenticated by the server'')"
| "debugstr DEBUG_PRINT_TYPE_cd v =
     (if v = 0 then str ''Non-authenticated data'' else str ''Authenticated data'')"
| "debugstr DEBUG_PRINT_TYPE_rcode v =
     (if v = 0 then str ''No eansweror (0)''
      else if v = 1 then str ''FormEanswer (1)''
      else if v = 2 then str ''ServFail (2)''
      else if v = 3 then str ''NXDomain (3)''
      else if v = 4 then str ''NotImp (4)''
      else if v = 5 then str ''Refused (5)''
      else str ''Unknow Eansweror'')"
| "debugstr DEBUG_PRINT_TYPE_type v =
     (if v = rrtype_val RRTYPE_AAAA then str ''AAAA''
      else if v = rrtype_val RRTYPE_A then str ''A''
      else if v = rrtype_val RRTYPE_CNAME then str ''CNAME''
      else if v = rrtype_val RRTYPE_MX then str ''MX''
      else str ''Unknow'')"
| "debugstr DEBUG_PRINT_TYPE_class v = (if v = HTTP_CLASS then str ''IN'' else str ''Unknow'')"
| "debugstr _ v = str ''unknow''"

text \<open>\<open>-1 >> (8 - num)\<close> keeps all bits, so \<open>x\<close> is \<open>val\<close>; shifts by negative amounts are undefined.
  The digits are collected in a static buffer of nine bytes.\<close>

function bit_digits :: "nat \<Rightarrow> nat \<Rightarrow> cstring" where
  "bit_digits x z = (if z = 0 then [] else (if and x z = z then 49 else 48) # bit_digits x (z div 2))"
  by auto
termination by (relation "measure snd") auto

declare bit_digits.simps [simp del]

definition bit_to_str :: "byte \<Rightarrow> int \<Rightarrow> cstring result" where
  "bit_to_str val num =
     (if num < 1 \<or> 8 < num then Inl BadArgument
      else let b = bit_digits (unat val) (2 ^ nat (num - 1))
           in if length b < 9 then Inr b else Inl OutOfBounds)"

section \<open>Printing a message into a buffer\<close>

definition sprintf :: "byte list \<Rightarrow> int \<Rightarrow> cstring \<Rightarrow> va list \<Rightarrow> (int \<times> byte list) result" where
  "sprintf buf d fmt args =
     bindE (vformat fmt args) (\<lambda>t.
     bindE (write_bytes buf d (t @ [0])) (\<lambda>buf. Inr (int (length t), buf)))"

definition lines :: "string list \<Rightarrow> cstring" where
  "lines ls = concat (map (\<lambda>l. str l @ [10]) ls)"

text \<open>Both calls of \<open>bit_to_str\<close> in the second branch return the same static buffer, so both
  arguments show the digits of the call that is evaluated last, which C does not fix:
  \<open>rcode_last\<close>.\<close>

definition flag :: "byte \<Rightarrow> va" where "flag b = VInt (uint b)"

definition named :: "DEBUG_PRINT_TYPE \<Rightarrow> byte \<Rightarrow> va" where "named t b = VStr (debugstr t (uint b))"

definition sprint_dns_header :: "bool \<Rightarrow> byte list \<Rightarrow> int \<Rightarrow> byte list \<Rightarrow> (int \<times> byte list) result" where
  "sprint_dns_header rcode_last buf d src =
     bindE (read_dns_header src) (\<lambda>(_, h).
     let flags = VInt (uint (be16 (lo8 (hd_flags h)) (hi8 (hd_flags h)))) in
     bindE (bit_to_str (hd_opcode h) 4) (\<lambda>opcode.
     bindE (bit_to_str (hd_rcode h) 4) (\<lambda>rcode.
     bindE (if hd_qr h = 0 then
              sprintf buf d (lines
                [''------------------------------------'',
                 ''Transaction ID: 0x%2x'',
                 ''FLAG: 0x%04x'',
                 ''%d... .... .... .... = Response:%s'',
                 ''.%s... .... ....  = Opcode: %s'',
                 ''.... ..%d. .... .... = Truncated: %s'',
                 ''.... ...%d .... .... = Recursion desired: %s'',
                 ''.... .... .%d.. .... = Z: reserved (0)'',
                 ''.... .... ...%d .... = %s''])
                [VInt (uint (hd_id h)), flags, VInt 0, named DEBUG_PRINT_TYPE_qr (hd_qr h),
                 VStr opcode, named DEBUG_PRINT_TYPE_opcode (hd_opcode h),
                 flag (hd_tc h), named DEBUG_PRINT_TYPE_tc (hd_tc h),
                 flag (hd_rd h), named DEBUG_PRINT_TYPE_rd (hd_rd h),
                 flag (hd_z h), flag (hd_cd h), named DEBUG_PRINT_TYPE_cd (hd_cd h)]
            else
              let b = VStr (if rcode_last then rcode else opcode) in
              sprintf buf d (lines
                [''------------------------------------'',
                 ''Transaction ID: 0x%2x'',
                 ''FLAG: 0x%04x'',
                 ''%d... .... .... .... = Response:%s'',
                 ''.%s... .... .... = Opcode: %s'',
                 ''.... .%d.. .... .... = Authoritative: %s'',
                 ''.... ..%d. .... .... = Truncated: %s'',
                 ''.... ...%d .... .... = Recursion desired: %s'',
                 ''.... .... %d... .... = Recursion available: %s'',
                 ''.... .... .%d.. .... = Z: reserved (0)'',
                 ''.... .... ..%d. .... = Answer authenticated: %s'',
                 ''.... .... ..%d .... = %s'',
                 ''.... .... .... %s = Reply code: %s''])
                [VInt (uint (hd_id h)), flags, VInt 1, named DEBUG_PRINT_TYPE_qr 1,
                 b, named DEBUG_PRINT_TYPE_opcode (hd_opcode h),
                 flag (hd_aa h), named DEBUG_PRINT_TYPE_aa (hd_aa h),
                 flag (hd_tc h), named DEBUG_PRINT_TYPE_tc (hd_tc h),
                 flag (hd_rd h), named DEBUG_PRINT_TYPE_rd (hd_rd h),
                 flag (hd_ra h), named DEBUG_PRINT_TYPE_ra (hd_ra h),
                 flag (hd_z h), flag (hd_ad h), named DEBUG_PRINT_TYPE_ad (hd_ad h),
                 flag (hd_cd h), named DEBUG_PRINT_TYPE_cd (hd_cd h),
                 b, named DEBUG_PRINT_TYPE_rcode (hd_rcode h)]) (\<lambda>(size, buf).
     bindE (sprintf buf (d + size) (lines
              [''Questions: %d'', ''Answer answers: %d '', ''Authority answers: %d'', ''Additional answers: %d''])
              [VInt (uint (hd_qdcount h)), VInt (uint (hd_ancount h)), VInt (uint (hd_nscount h)),
               VInt (uint (hd_adcount h))]) (\<lambda>(n, buf).
     Inr (size + n, buf))))))"

definition sprint_dns_questions :: "question \<Rightarrow> byte list \<Rightarrow> int \<Rightarrow> byte list \<Rightarrow> (int \<times> byte list) prog" where
  "sprint_dns_questions q buf d message =
     bindP (read_dns_questions q message) (\<lambda>(_, q).
     Some (
       bindE (sprintf buf d (lines [''-------QUESTIONS----------'']) []) (\<lambda>(n, buf).
       bindE (read_cstr (q_label q)) (\<lambda>label.
       bindE (sprintf buf (d + n) (lines [''%s type:%s class:%s''])
                [VStr label, VStr (debugstr DEBUG_PRINT_TYPE_type (uint (q_qtype q))),
                 VStr (debugstr DEBUG_PRINT_TYPE_class (uint (q_qclass q)))]) (\<lambda>(m, buf).
       Inr (n + m, buf))))))"

text \<open>The address of an answer: \<open>n\<close> bytes, or \<open>n\<close> words in the byte order of the machine, from
  index \<open>j\<close> on.\<close>

fun sprint_v4 :: "nat \<Rightarrow> int \<Rightarrow> IP \<Rightarrow> byte list \<Rightarrow> int \<Rightarrow> (int \<times> byte list) result" where
  "sprint_v4 0 j ip buf d = Inr (d, buf)"
| "sprint_v4 (Suc n) j ip buf d =
     bindE (arr_get (ip_addr ip) j) (\<lambda>b.
     bindE (sprintf buf d (str '':%d'') [VInt (uint b)]) (\<lambda>(k, buf).
     sprint_v4 n (j + 1) ip buf (d + k)))"

fun sprint_v6 :: "nat \<Rightarrow> int \<Rightarrow> IP \<Rightarrow> byte list \<Rightarrow> int \<Rightarrow> (int \<times> byte list) result" where
  "sprint_v6 0 j ip buf d = Inr (d, buf)"
| "sprint_v6 (Suc n) j ip buf d =
     bindE (get16_native (ip_addr ip) (2 * j)) (\<lambda>w.
     bindE (sprintf buf d (str '':%04x'') [VInt (uint w)]) (\<lambda>(k, buf).
     sprint_v6 n (j + 1) ip buf (d + k)))"

definition sprint_cname :: "answer \<Rightarrow> byte list \<Rightarrow> int \<Rightarrow> (int \<times> byte list) result" where
  "sprint_cname a buf d =
     bindE (read_cstr (a_cname a)) (\<lambda>cname.
     bindE (sprintf buf d (str ''RRTYPE_CNAME:%s'') [VStr cname]) (\<lambda>(k, buf). Inr (d + k, buf)))"

text \<open>The case of an IPv6 address has no \<open>break\<close> and falls into the one of a canonical name.\<close>

definition sprint_answer :: "answer \<Rightarrow> byte list \<Rightarrow> int \<Rightarrow> (int \<times> byte list) result" where
  "sprint_answer a buf d =
     bindE (read_cstr (a_name a)) (\<lambda>name.
     bindE (sprintf buf d (str ''%s type:%s class:%s ttl:%d'')
              [VStr name, VStr (debugstr DEBUG_PRINT_TYPE_type (uint (a_type a))),
               VStr (debugstr DEBUG_PRINT_TYPE_class (uint (a_class a))), VInt (sint (a_ttl a))]) (\<lambda>(n, buf).
     bindE (if uint (a_type a) = rrtype_val RRTYPE_A then
              bindE (sprintf buf (d + n) (str ''ip'') []) (\<lambda>(k, buf).
              sprint_v4 4 0 (a_address a) buf (d + n + k))
            else if uint (a_type a) = rrtype_val RRTYPE_AAAA then
              bindE (sprint_v6 8 0 (a_address a) buf (d + n)) (\<lambda>(d, buf). sprint_cname a buf d)
            else if uint (a_type a) = rrtype_val RRTYPE_CNAME then sprint_cname a buf (d + n)
            else Inr (d + n, buf)) (\<lambda>(d, buf).
     bindE (sprintf buf d [10] []) (\<lambda>(k, buf). Inr (d + k, buf)))))"

fun sprint_answers :: "nat \<Rightarrow> int \<Rightarrow> answer list \<Rightarrow> byte list \<Rightarrow> int \<Rightarrow> (int \<times> byte list) result" where
  "sprint_answers 0 i answers buf d = Inr (d, buf)"
| "sprint_answers (Suc n) i answers buf d =
     bindE (arr_get answers i) (\<lambda>a.
     bindE (sprint_answer a buf d) (\<lambda>(d, buf).
     sprint_answers n (i + 1) answers buf d))"

definition sprint_dns_answers :: "answer list \<Rightarrow> byte list \<Rightarrow> int \<Rightarrow> byte list \<Rightarrow> (int \<times> byte list) prog" where
  "sprint_dns_answers answers buf d message =
     bindP (read_dns_answers answers message) (\<lambda>(n, answers).
     Some (
       bindE (sprintf buf d (lines [''-------ANSWERS----------'']) []) (\<lambda>(k, buf).
       bindE (sprint_answers (nat n) 0 answers buf (d + k)) (\<lambda>(e, buf).
       Inr (e - d, buf)))))"

text \<open>\<open>sprint_dns\<close> returns the text it passes to \<open>puts\<close>.\<close>

definition sprint_dns :: "bool \<Rightarrow> byte list \<Rightarrow> question \<Rightarrow> answer list \<Rightarrow> byte list \<Rightarrow> cstring prog" where
  "sprint_dns rcode_last buffer q answers dns =
     bindP (Some (sprint_dns_header rcode_last buffer 0 dns)) (\<lambda>(d, buffer).
     bindP (Some (get16_native dns 4)) (\<lambda>qdcount.
     bindP (if qdcount \<noteq> 0 then
              bindP (sprint_dns_questions q buffer d dns) (\<lambda>(n, buffer). Some (Inr (d + n, buffer)))
            else Some (Inr (d, buffer))) (\<lambda>(d, buffer).
     bindP (Some (get16_native dns 6)) (\<lambda>ancount.
     bindP (if ancount \<noteq> 0 then
              bindP (sprint_dns_answers answers buffer d dns) (\<lambda>(n, buffer). Some (Inr (d + n, buffer)))
            else Some (Inr (d, buffer))) (\<lambda>(d, buffer).
     Some (read_cstr buffer))))))"

section \<open>A query with several questions\<close>

text \<open>\<open>QUERY_SIZE\<close> is the size of \<open>struct question\<close>, which holds a name of 256 bytes, in place of
  the four bytes of \<open>struct question_struct\<close>.\<close>

definition QUERY_SIZE :: int where "QUERY_SIZE = 260"

fun multiquery_loop :: "cstring list \<Rightarrow> byte list \<Rightarrow> int \<Rightarrow> (int \<times> byte list) result" where
  "multiquery_loop [] buffer qname_pos = Inr (qname_pos, buffer)"
| "multiquery_loop (q # qs) buffer qname_pos =
     bindE (str_to_label buffer qname_pos q (MAX_DNS_SIZE - qname_pos)) (\<lambda>(qname_size, buffer).
     let question_pos = qname_pos + qname_size in
     bindE (set16 buffer (question_pos + 2) 1) (\<lambda>buffer.
     bindE (set16 buffer question_pos 1) (\<lambda>buffer.
     multiquery_loop qs buffer (qname_pos + qname_size + QUERY_SIZE))))"

text \<open>\<open>buffer\<close> holds the bytes of the automatic array, \<open>sent\<close> says whether \<open>sendto\<close> succeeds. The
  result is the return value and the datagram.\<close>

definition multiquery :: "bool \<Rightarrow> byte list \<Rightarrow> cstring list \<Rightarrow> (int \<times> byte list) result" where
  "multiquery sent buffer questions =
     bindE (init_header buffer) (\<lambda>buffer.
     bindE (set16 buffer 4 (of_nat (length questions))) (\<lambda>buffer.
     bindE (multiquery_loop questions buffer DNS_HEADER_SIZE) (\<lambda>(total_size, buffer).
     bindE (read_bytes buffer 0 (nat total_size)) (\<lambda>datagram.
     Inr (if sent then 0 else - 1, datagram)))))"

section \<open>Properties\<close>

lemma bit_digits_power:
  "bit_digits x (2 ^ n) = map (\<lambda>i. if bit x (n - i) then 49 else 48) [0..<Suc n]"
proof (induction n)
  case 0
  have "and x 1 = 1 \<longleftrightarrow> bit x 0" by (simp add: bit_0 and_one_eq odd_iff_mod_2_eq_one)
  then show ?case by (simp add: bit_digits.simps)
next
  case (Suc n)
  have a: "and x (2 ^ Suc n) = 2 ^ Suc n \<longleftrightarrow> bit x (Suc n)"
    by (metis and_exp_eq_0_iff_not_bit bit_eq_iff bit_and_iff bit_exp_iff power_eq_0_iff zero_neq_numeral)
  have "bit_digits x (2 ^ Suc n) = (if bit x (Suc n) then 49 else 48) # bit_digits x (2 ^ n)"
    by (subst bit_digits.simps) (simp only: a, simp)
  also have "\<dots> = map (\<lambda>i. if bit x (Suc n - i) then 49 else 48) (0 # map Suc [0..<Suc n])"
    by (simp add: Suc.IH comp_def del: upt_Suc)
  also have "0 # map Suc [0..<Suc n] = [0..<Suc (Suc n)]" by (simp only: map_Suc_upt) (simp add: upt_conv_Cons del: upt_Suc)
  finally show ?case .
qed

text \<open>C26. \<open>bit_to_str\<close> equals its specification: the \<open>num\<close> low bits of the value in binary, the most
  significant first.\<close>

theorem bit_to_str_binary:
  assumes "1 \<le> num" and "num \<le> 8"
  shows "bit_to_str val num = Inr (map (\<lambda>i. if bit val (nat num - 1 - i) then 49 else 48) [0..<nat num])"
proof -
  have n: "nat num = Suc (nat (num - 1))" using assms by simp
  have "bit (unat val) k = bit val k" for k by (auto simp: bit_unsigned_iff dest: bit_imp_le_length)
  then have "bit_digits (unat val) (2 ^ nat (num - 1))
      = map (\<lambda>i. if bit val (nat num - 1 - i) then 49 else 48) [0..<nat num]"
    by (simp add: bit_digits_power n)
  then show ?thesis using assms by (simp add: bit_to_str_def)
qed

lemma bit_to_str_binary_witness: "bit_to_str 5 4 = Inr (map of_char ''0101'')"
proof -
  have "bit_to_str 5 4 = Inr (map (\<lambda>i. if bit (5 :: byte) (nat 4 - 1 - i) then 49 else 48) [0..<nat 4])"
    by (rule bit_to_str_binary) simp_all
  then show ?thesis by (simp add: upt_rec)
qed

lemma init_header_blit:
  assumes "12 \<le> length buf"
  shows "init_header buf = Inr (blit 0 (wire_header 2 0x0100 0 0 0 0) buf)"
  using assms set16_blit_net [of 0 0 "[]" buf 2]
  by (simp add: init_header_def set16_blit_net wire_header_def)

lemma set_qdcount_blit:
  assumes "12 \<le> length buf"
  shows "set16 (blit 0 (wire_header i fl qd an ns ad) buf) 4 n = Inr (blit 0 (wire_header i fl n an ns ad) buf)"
  using assms by (simp add: set16_def blit_def wire_header_def net16_def)

lemma multiquery_step:
  assumes "length buf = 520" and "p + length q + 6 \<le> 520"
  shows "multiquery_loop (q # qs) buf (int p)
    = multiquery_loop qs (blit p (wire_name (split_dots q) @ net16 1 @ net16 1) buf) (int (p + length q) + 262)"
proof -
  let ?w = "wire_name (split_dots q)"
  have "str_to_label buf (int p) q (520 - int p) = Inr (int (length q) + 2, blit p ?w buf)"
    using assms by (intro str_to_label_any) auto
  moreover have "bindE (set16 (blit p ?w buf) (int p + (int (length q) + 2) + 2) 1) (\<lambda>buf. set16 buf (int p + (int (length q) + 2)) 1)
      = Inr (blit p (?w @ net16 1 @ net16 1) buf)"
    using assms by (intro set16_pair_blit) (simp_all add: length_wire_split)
  ultimately show ?thesis
    by (auto simp: MAX_DNS_SIZE_def QUERY_SIZE_def bindE_Inr_iff Let_def algebra_simps)
qed

lemma multiquery_loops:
  assumes "length buf = 520"
  shows "multiquery sent buf qs = bindE (multiquery_loop qs (blit 0 (wire_header 2 0x0100 (of_nat (length qs)) 0 0 0) buf) 12)
    (\<lambda>(total_size, buf). bindE (read_bytes buf 0 (nat total_size)) (\<lambda>datagram. Inr (if sent then 0 else - 1, datagram)))"
  using assms by (simp add: multiquery_def init_header_blit set_qdcount_blit DNS_HEADER_SIZE_def)

lemma multiquery_one:
  assumes "length buf = 520" and q: "length q \<le> 246"
  shows "multiquery sent buf [q] = Inr (if sent then 0 else - 1, wire_header 2 0x0100 1 0 0 0
    @ wire_name (split_dots q) @ net16 1 @ net16 1 @ take 256 (drop (18 + length q) buf))"
proof -
  let ?h = "blit 0 (wire_header 2 0x0100 1 0 0 0) buf"
  let ?m = "wire_header 2 0x0100 1 0 0 0 @ wire_name (split_dots q) @ net16 1 @ net16 1"
  have "multiquery_loop [q] ?h (int 12) = multiquery_loop [] (blit 12 (wire_name (split_dots q) @ net16 1 @ net16 1) ?h)
      (int (12 + length q) + 262)"
    using assms by (intro multiquery_step) simp_all
  also have "blit 12 (wire_name (split_dots q) @ net16 1 @ net16 1) ?h = blit 0 ?m buf"
    using blit_blit [of 0 "wire_header 2 0x0100 1 0 0 0"] assms by (simp add: length_wire_split)
  finally have l: "multiquery_loop [q] ?h 12 = Inr (int (274 + length q), blit 0 ?m buf)" by simp
  have "read_bytes (blit 0 ?m buf) 0 (274 + length q) = Inr (take (274 + length q) (blit 0 ?m buf))"
    using read_bytes_in [of 0 "274 + length q" "blit 0 ?m buf"] assms by (simp add: length_wire_split)
  moreover have "take (274 + length q) (blit 0 ?m buf) = ?m @ take 256 (drop (18 + length q) buf)"
    by (simp add: blit_def length_wire_split)
  ultimately show ?thesis using l by (simp add: multiquery_loops [OF assms(1)] nat_add_distrib del: multiquery_loop.simps)
qed

lemma multiquery_two:
  assumes "length buf = 520" and q: "length q + length r \<le> 240"
  shows "multiquery sent buf [q, r] = Inl OutOfBounds"
proof -
  let ?h = "blit 0 (wire_header 2 0x0100 2 0 0 0) buf"
  let ?b = "blit 12 (wire_name (split_dots q) @ net16 1 @ net16 1) ?h"
  have b: "length ?b = 520" using assms by (simp add: length_wire_split)
  have "multiquery_loop [q, r] ?h (int 12) = multiquery_loop [r] ?b (int (12 + length q) + 262)"
    using assms by (intro multiquery_step) simp_all
  also have "int (12 + length q) + 262 = int (274 + length q)" by simp
  also have "multiquery_loop [r] ?b (int (274 + length q))
      = multiquery_loop [] (blit (274 + length q) (wire_name (split_dots r) @ net16 1 @ net16 1) ?b)
          (int (274 + length q + length r) + 262)"
    using b q by (intro multiquery_step) simp_all
  finally have l: "multiquery_loop [q, r] ?h 12
      = Inr (int (536 + length q + length r), blit (274 + length q) (wire_name (split_dots r) @ net16 1 @ net16 1) ?b)"
    by simp
  have "length (blit (274 + length q) (wire_name (split_dots r) @ net16 1 @ net16 1) ?b) = 520"
    using b q by (simp add: length_wire_split)
  then show ?thesis using l by (simp add: multiquery_loops [OF assms(1)] read_bytes_def del: multiquery_loop.simps)
qed

text \<open>C39. \<open>multiquery\<close> advances by the size of the wrong structure: a query with one name of up to 246
  characters is followed by 256 bytes of the uninitialised buffer, and a query with two names
  reads beyond its buffer.\<close>

theorem multiquery_overruns:
  assumes "length buf = 520"
  shows "(length q \<le> 246 \<longrightarrow> multiquery sent buf [q]
      = Inr (if sent then 0 else - 1, wire_header 2 0x0100 1 0 0 0 @ wire_name (split_dots q) @ net16 1 @ net16 1
          @ take 256 (drop (18 + length q) buf)))
    \<and> (length q + length r \<le> 240 \<longrightarrow> multiquery sent buf [q, r] = Inl OutOfBounds)"
  using multiquery_one [OF assms] multiquery_two [OF assms] by blast

lemma multiquery_overruns_witness:
  "(\<exists>v w. multiquery True (replicate 520 7) [str ''a''] = Inr (v, w @ replicate 256 7))
    \<and> multiquery True (replicate 520 7) [str ''a'', str ''b''] = Inl OutOfBounds"
proof -
  have "length (str ''a'') = 1" "length (str ''b'') = 1" by (simp_all add: str_def)
  then have "multiquery True (replicate 520 7) [str ''a''] = Inr (0, (wire_header 2 0x0100 1 0 0 0
      @ wire_name (split_dots (str ''a'')) @ net16 1 @ net16 1) @ replicate 256 7)"
    and "multiquery True (replicate 520 7) [str ''a'', str ''b''] = Inl OutOfBounds"
    using multiquery_overruns [of "replicate 520 7" "str ''a''" True "str ''b''"] by simp_all
  then show ?thesis by blast
qed

end
