(* ===== verification/Spec2Isabelle.thy ===== *)
theory Spec2Isabelle
  imports HashProperties LruProperties DnsProperties Program TestHash TestLoadRecord ThreadPoolProperties DnsPrint
begin

text \<open>
  \<^bold>\<open>A model of the DNS relay \<open>bupt_dns\<close>.\<close>

  The program listens for DNS queries, answers those it knows and relays the others to an
  upstream server. Its parts, with the sources under \<open>src/\<close> and the theories that model them:

  \<^item> \<open>src/src/hash.c\<close>, a chained hash table with a comparison callback: \<open>HashTable\<close> and
    \<open>HashProperties\<close>. A table is a list of buckets, a bucket a list of records; a node pointer is
    a pair of positions.
  \<^item> \<open>src/src/cache.c\<close>, lines 1 to 645, the cache of records learned from the upstream server: an
    array of records linked by index in order of use, a stack of free indices, and the hash
    table from labels to indices. \<open>LruCache\<close> has the operations; \<open>LruList\<close> the linked list;
    \<open>LruInvariant\<close>, \<open>LruOps\<close> and \<open>LruRemoval\<close> the invariant and its preservation; \<open>LruSpec\<close>
    the specification, an association list in order of use, and the refinement;
    \<open>LruProperties\<close> the properties.
  \<^item> \<open>src/src/cache.c\<close>, lines 646 to 717, the static cache of local records, an array with chains
    of addresses and a hash table: \<open>StaticCache\<close>, with the set of caches of
    \<open>src/include/cache.h\<close>.
  \<^item> \<open>src/src/local_record.c\<close>, the reader of the file of local records: \<open>LocalRecord\<close>.
  \<^item> \<open>src/include/common.h\<close> and \<open>src/src/common.c\<close>, constants, structures, and the codec of DNS
    messages: \<open>DnsTypes\<close>, \<open>Bytes\<close>, \<open>DnsLabel\<close> (names), \<open>DnsMessage\<close> (headers, questions,
    answers), \<open>DnsCodec\<close> (the wire format and lemmas), \<open>DnsProperties\<close>, \<open>DnsTermination\<close> (when the reader of
    names returns); the debug output and
    \<open>multiquery\<close>: \<open>DnsPrint\<close>.
  \<^item> \<open>src/src/main.c\<close>: the table of pending queries, \<open>IdAdapter\<close>; the loop, \<open>Relay\<close>, whose
    definitions are the labelled sections of \<open>main\<close>; the command line, start-up and clean-up,
    \<open>Startup\<close>; the sockets, descriptor sets and the signal handler, \<open>Network\<close>, whose \<open>main\<close> is the
    whole program. \<open>RelayProofs\<close> has the invariant of the relay and lemmas on single handlers,
    \<open>RelayProperties\<close> the properties that span the components, \<open>RelayTypes\<close> the sizes every step
    keeps, \<open>RelaySpec\<close> the abstract relay and the refinement over whole runs, \<open>RelayAccount\<close> what
    follows for the queries of the clients. \<open>Program\<close> joins start-up, sockets and loop: what \<open>main\<close>
    does against the abstract relay, started from the command line and the lines of the file.
  \<^item> \<open>src/src/threadPool.c\<close>, which the relay does not use: \<open>ThreadPool\<close>, \<open>ThreadPoolProofs\<close>,
    \<open>ThreadPoolProperties\<close>, over the labelled transition systems of \<open>Transition\<close>.
  \<^item> \<open>src/src/log.c\<close> and \<open>src/include/log.h\<close>: \<open>Log\<close>, over the formatted output of \<open>Printf\<close>.
  \<^item> \<open>src/test\<close>: the test programs of the hash table and of the loader, \<open>TestHash\<close> and
    \<open>TestLoadRecord\<close>.

  \<^bold>\<open>How the model reads.\<close> \<open>Prelude\<close> fixes the outcome of C code: \<open>Inr\<close> of a value, or \<open>Inl\<close> of an
  error for an access or a call the C standard leaves undefined, a self-deadlock or a call of
  \<open>exit\<close>; for code that need not return, the \<open>option\<close> of it, with \<open>None\<close> for a run that does not
  end. Every array access, pointer dereference and \<open>free\<close> is checked, so a theorem that a call
  returns \<open>Inr\<close> says that the C code has no undefined behaviour there. Integers that wrap are
  words; \<open>short\<close> and \<open>size_t\<close> arithmetic is written out. Operations take and return the state;
  a caller passes what the callee got through pointers.

  \<^bold>\<open>Interfaces.\<close> A component meets its client in a locale that is interpreted on the component's
  own operations: the map of labels to records behind the cache (\<open>HashTable\<close>), the cache against
  its specification (\<open>LruSpec\<close>), the table of tickets (\<open>ticket_table\<close>, interpreted on the
  operations of the ID adapter), the multimap of local records (\<open>multimap\<close>, on the static cache),
  and runs with an invariant and a measure (\<open>history_invariant\<close>, \<open>ending_system\<close>, on the steps of
  the thread pool).

  \<^bold>\<open>What the properties show.\<close> The hash table is a finite map. The record cache refines the
  association list on every trace that stays below its capacity and reads no stale entry; what
  it does otherwise is characterised: eviction ends the process, a stale read releases the wrong
  entry, a stale write leaves a null pointer. Names and messages survive encoding and decoding,
  compressed responses decode to their address records, and the reader of names returns exactly when
  the compression pointers have no cycle. The ID adapter is a map from tickets to clients. The static cache and
  the loader return the records of the file. The relay refines an abstract caching forwarder over
  runs of any length: for queries refused, answered locally, answered from the cache or passed on,
  responses passed back and learnt, and queries given up, the packets sent are those of the
  abstract relay, within limits that are stated on the abstract relay alone; no query is lost or answered
  twice, and a short run is also spelt out in full. Every run keeps the sizes of the relay's data. The program as a whole, from
  its command line, is this loop on the datagrams that wait on its two sockets, or ends when it
  cannot open them; so it refines the abstract relay that refuses and answers the names of the file. The relay's
  overflows, its trust in any sender and the query that stops it are theorems too. The test programs of the hash table and
  of the loader pass, whatever uninitialised memory and \<open>rand\<close> hold. The thread pool is a queue without lost wake-ups,
  free of use after free under every interleaving; every task of an open pool is called, and
  \<open>destroy_tpool\<close> returns under every schedule. The log shows the messages its level admits, and
  its file output never works.

  \<^bold>\<open>Parameters.\<close> What the program gets from outside is an argument: \<open>inet_pton\<close> for both address
  families, with the hypothesis that they yield four and sixteen bytes, and \<open>inet_ntop\<close>, with the hypothesis
  that it inverts \<open>inet_pton\<close> on the addresses of the test; whether a second lock of a read-write lock blocks or is refused; the readings of
  \<open>time\<close> and \<open>clock\<close>; the datagrams and the answers of the socket calls, with the hypothesis that a
  new descriptor is the lowest free one; the bytes of uninitialised variables; \<open>rand\<close>; the order in which C evaluates arguments; which allocation or thread call
  fails in \<open>create_tpool\<close>; which waiting thread a signal wakes.

  \<^bold>\<open>Termination.\<close> No definition uses fuel. Loops that may run for ever are partial functions with
  the value \<open>None\<close>, and a property about them states that they return; the others are structural
  or have a measure. The runs of the thread pool are bounded by \<open>work_left\<close>.

  \<^bold>\<open>Not modelled.\<close> The log calls inside the other components and the relay loop, which only write to
  the console; the Windows branches; \<open>_hash_ip\<close>, which is never
  called; allocation failures outside the thread pool; the rounding of the hash table's filling
  factor, which is a rational here; data races, except that the unlocked write of \<open>shutdown\<close> is a
  step of its own; and three test programs: \<open>test_cache.c\<close>, which branches on an uninitialised variable,
  \<open>test_threadpool.c\<close> and \<open>test_timeout.c\<close>, which wait for a terminal and for a server.
\<close>

end
